(* ===== verification/Prelude.thy ===== *)
theory Prelude
  imports Main "HOL-Library.Word"
begin

text \<open>
  The vocabulary the components share: Go's machine integers, slices with bounds
  checks, the ways a Go call can fail to return, message loops, and the list lemmas.

  \<^item> \<open>uint64\<close> is \<open>u64 = 64 word\<close>, \<open>byte\<close> is \<open>8 word\<close>. A Go \<open>int\<close> or \<open>int64\<close>
    is an \<open>int\<close>; \<open>int_of_u64\<close> and \<open>u64_of_int\<close> are the conversions \<open>int(x)\<close> and
    \<open>uint64(x)\<close>, and \<open>wrap64\<close> reduces an \<open>int64\<close> result to 64 bits where its operands
    come from decoded input. A length of a slice in memory is far below \<open>2 ^ 63\<close>.
  \<^item> A call that panics, deadlocks or ends the process (\<open>log.Fatal\<close>) is \<open>Inl\<close> of a
    \<open>halt\<close>; one that returns is \<open>Inr\<close>. A Go \<open>error\<close> result is a value of the model.
  \<^item> A goroutine that reads messages in a loop is a step function into \<open>reaction\<close>; \<open>react\<close>
    runs it over the sequence of messages it reads.
\<close>

section \<open>Machine integers\<close>

type_synonym byte = "8 word"
type_synonym bytes = "8 word list"
type_synonym u32 = "32 word"
type_synonym u64 = "64 word"

definition int_of_u64 :: "u64 \<Rightarrow> int" where
  "int_of_u64 w = sint w"

definition u64_of_int :: "int \<Rightarrow> u64" where
  "u64_of_int i = word_of_int i"

definition wrap64 :: "int \<Rightarrow> int" where
  "wrap64 i = sint (word_of_int i :: u64)"

lemma wrap64_id: "- (2 ^ 63) \<le> i \<Longrightarrow> i < 2 ^ 63 \<Longrightarrow> wrap64 i = i"
  by (simp add: wrap64_def sint_sbintrunc' signed_take_bit_int_eq_self)

lemma int_of_u64_of_int [simp]:
  "- (2 ^ 63) \<le> i \<Longrightarrow> i < 2 ^ 63 \<Longrightarrow> int_of_u64 (u64_of_int i) = i"
  using wrap64_id by (simp add: int_of_u64_def u64_of_int_def wrap64_def)

lemma u64_of_int_inject:
  "0 \<le> i \<Longrightarrow> i < 2 ^ 63 \<Longrightarrow> 0 \<le> j \<Longrightarrow> j < 2 ^ 63 \<Longrightarrow> u64_of_int i = u64_of_int j \<longleftrightarrow> i = j"
  by (metis int_of_u64_of_int order_trans neg_le_0_iff_le zero_le_numeral zero_le_power)

lemma u64_of_int_plus1 [simp]: "u64_of_int i + 1 = u64_of_int (i + 1)"
  by (simp add: u64_of_int_def)

lemma int_of_u64_of_nat: "int n < 2 ^ 63 \<Longrightarrow> int_of_u64 (of_nat n) = int n"
  using int_of_u64_of_int [of "int n"] by (simp add: u64_of_int_def)

lemma unat_u64_of_nat: "int n < 2 ^ 63 \<Longrightarrow> unat (of_nat n :: u64) = n"
  by (simp add: unat_of_nat take_bit_nat_eq_self)

lemma u64_of_nat_le: "int n < 2 ^ 63 \<Longrightarrow> int m < 2 ^ 63 \<Longrightarrow> (of_nat n :: u64) \<le> of_nat m \<longleftrightarrow> n \<le> m"
  by (simp add: word_le_nat_alt unat_u64_of_nat)

lemma unat_u64_succ: "(w :: u64) + 1 \<noteq> 0 \<Longrightarrow> unat (w + 1) = Suc (unat w)"
  using unatSuc [of w] by (simp add: add.commute)

lemma u64_less_succ: "(w :: u64) + 1 \<noteq> 0 \<Longrightarrow> w < w + 1"
  by (simp add: word_less_nat_alt unat_u64_succ)

lemma u64_less_succ_iff: "(w :: u64) + 1 \<noteq> 0 \<Longrightarrow> v < w + 1 \<longleftrightarrow> v \<le> w"
  by (simp add: word_less_nat_alt word_le_nat_alt unat_u64_succ less_Suc_eq_le)

section \<open>Calls that do not return\<close>

datatype halt =
    IndexPanic    \<comment> \<open>\<open>runtime error: index out of range\<close>\<close>
  | SlicePanic    \<comment> \<open>\<open>runtime error: slice bounds out of range\<close>\<close>
  | NilPanic      \<comment> \<open>\<open>runtime error: nil pointer dereference\<close>\<close>
  | MakePanic     \<comment> \<open>\<open>makeslice: len out of range\<close>\<close>
  | Panicked      \<comment> \<open>\<open>panic(err)\<close>\<close>
  | Spin          \<comment> \<open>a loop that never ends\<close>
  | Deadlock      \<comment> \<open>blocked on a lock or a channel forever\<close>
  | Fatal         \<comment> \<open>\<open>log.Fatal\<close>: the process exits\<close>

type_synonym 'a go = "halt + 'a"

definition go_bind :: "'a go \<Rightarrow> ('a \<Rightarrow> 'b go) \<Rightarrow> 'b go" where
  "go_bind m f = (case m of Inl h \<Rightarrow> Inl h | Inr x \<Rightarrow> f x)"

lemma go_bind_simps [simp]: "go_bind (Inl h) f = Inl h" "go_bind (Inr x) f = f x"
  by (simp_all add: go_bind_def)

lemma go_bind_Inr_conv: "go_bind m f = Inr y \<longleftrightarrow> (\<exists>x. m = Inr x \<and> f x = Inr y)"
  by (cases m) auto

text \<open>\<open>xs[i]\<close> and \<open>xs[lo:hi]\<close>, on slices whose capacity is their length.\<close>

definition go_index :: "'a list \<Rightarrow> int \<Rightarrow> 'a go" where
  "go_index xs i = (if 0 \<le> i \<and> i < int (length xs) then Inr (xs ! nat i) else Inl IndexPanic)"

definition go_slice :: "'a list \<Rightarrow> int \<Rightarrow> int \<Rightarrow> 'a list go" where
  "go_slice xs lo hi =
     (if 0 \<le> lo \<and> lo \<le> hi \<and> hi \<le> int (length xs)
      then Inr (take (nat (hi - lo)) (drop (nat lo) xs)) else Inl SlicePanic)"

lemma go_index_nat [simp]:
  "go_index xs (int n) = (if n < length xs then Inr (xs ! n) else Inl IndexPanic)"
  by (simp add: go_index_def)

lemma go_slice_nat:
  "go_slice xs (int lo) (int hi) =
     (if lo \<le> hi \<and> hi \<le> length xs then Inr (take (hi - lo) (drop lo xs)) else Inl SlicePanic)"
  by (simp add: go_slice_def nat_diff_distrib)

text \<open>
  A byte slice with room behind it: \<open>visible\<close> are its \<open>len\<close> bytes, \<open>spare\<close> those from
  there to its capacity. \<open>s[:n]\<close> may reach into the spare bytes.
\<close>

record slice =
  visible :: bytes
  spare :: bytes

definition slice_of :: "bytes \<Rightarrow> slice" where
  "slice_of d = \<lparr>visible = d, spare = []\<rparr>"

definition slice_to :: "slice \<Rightarrow> int \<Rightarrow> bytes go" where
  "slice_to s n =
     (if 0 \<le> n \<and> n \<le> int (length (visible s @ spare s))
      then Inr (take (nat n) (visible s @ spare s)) else Inl SlicePanic)"

lemma visible_slice_of [simp]: "visible (slice_of d) = d"
  by (simp add: slice_of_def)

section \<open>Lists searched and changed in place\<close>

text \<open>\<open>for _, x := range xs { if p(x) { x.f(); break } }\<close> over a list of pointers.\<close>

fun update_first :: "('a \<Rightarrow> bool) \<Rightarrow> ('a \<Rightarrow> 'a) \<Rightarrow> 'a list \<Rightarrow> 'a list" where
  "update_first p f [] = []"
| "update_first p f (x # xs) = (if p x then f x # xs else x # update_first p f xs)"

text \<open>\<open>xs = append(xs[0:n], xs[n+1:]...)\<close> at the first match.\<close>

fun remove_first :: "('a \<Rightarrow> bool) \<Rightarrow> 'a list \<Rightarrow> 'a list" where
  "remove_first p [] = []"
| "remove_first p (x # xs) = (if p x then xs else x # remove_first p xs)"

lemma length_update_first [simp]: "length (update_first p f xs) = length xs"
  by (induction xs) auto

lemma map_update_first:
  "(\<And>x. g (f x) = g x) \<Longrightarrow> map g (update_first p f xs) = map g xs"
  by (induction xs) auto

lemma set_update_first: "set (update_first p f xs) \<subseteq> set xs \<union> {f x | x. x \<in> set xs \<and> p x}"
  by (induction xs) auto

lemma set_remove_first: "set (remove_first p xs) \<subseteq> set xs"
  by (induction xs) auto

lemma find_None_iff_ball: "find p xs = None \<longleftrightarrow> (\<forall>x \<in> set xs. \<not> p x)"
  by (metis find_None_iff)

lemma find_SomeD: "find p xs = Some x \<Longrightarrow> x \<in> set xs \<and> p x"
  by (induction xs) (auto split: if_splits)

lemma sorted_wrt_append_snoc:
  "sorted_wrt R (xs @ [x]) \<longleftrightarrow> sorted_wrt R xs \<and> (\<forall>y \<in> set xs. R y x)"
  by (auto simp: sorted_wrt_append)

end
