(* ===== verification/Ext.thy ===== *)
theory Ext
  imports Prelude
begin

text \<open>
  What the repository calls and does not contain, as parameters of the model: records of
  functions that the definitions take as arguments. Nothing is assumed of them here; a
  lemma that relies on their documented behaviour names it as a hypothesis.

  \<^item> \<open>util\<close>: the byte-buffer helpers of \<open>breeze/util\<close>. A \<open>Put\<close> function takes the value
    and the buffer and gives the new buffer (\<open>PutX(v, &data)\<close>); a \<open>Parse\<close> function takes
    the buffer and a position and gives the value and the next position; what
    \<open>ParseByteArray\<close> gives is a slice of the buffer, with the capacity behind it.
  \<^item> \<open>crypto\<close>: the hash function and the signature scheme of \<open>breeze/crypto\<close>.
  \<^item> \<open>chainmsg\<close>: the message bytes of \<open>breeze/consensus/chain\<close>.
  \<^item> \<open>actionarray\<close>: the container \<open>chain.ActionArray\<close>.
  \<^item> \<open>bytestore\<close>: \<open>papirus.ByteStore\<close>.
\<close>

type_synonym hash = bytes       \<comment> \<open>\<open>crypto.Hash\<close>\<close>
type_synonym token = bytes      \<comment> \<open>\<open>crypto.Token\<close>\<close>
type_synonym signature = bytes  \<comment> \<open>\<open>crypto.Signature\<close>\<close>
type_synonym privkey = bytes    \<comment> \<open>\<open>crypto.PrivateKey\<close>\<close>

record util =
  PutUint64 :: "u64 \<Rightarrow> bytes \<Rightarrow> bytes"
  ParseUint64 :: "bytes \<Rightarrow> int \<Rightarrow> u64 \<times> int"
  PutUint32 :: "u32 \<Rightarrow> bytes \<Rightarrow> bytes"
  ParseUint32 :: "bytes \<Rightarrow> int \<Rightarrow> u32 \<times> int"
  PutByteArray :: "bytes \<Rightarrow> bytes \<Rightarrow> bytes"
  ParseByteArray :: "slice \<Rightarrow> int \<Rightarrow> slice \<times> int"
  PutHash :: "hash \<Rightarrow> bytes \<Rightarrow> bytes"
  ParseHash :: "bytes \<Rightarrow> int \<Rightarrow> hash \<times> int"
  PutHashArray :: "hash list \<Rightarrow> bytes \<Rightarrow> bytes"
  ParseHashArray :: "bytes \<Rightarrow> int \<Rightarrow> hash list \<times> int"
  PutToken :: "token \<Rightarrow> bytes \<Rightarrow> bytes"
  ParseToken :: "bytes \<Rightarrow> int \<Rightarrow> token \<times> int"
  PutSignature :: "signature \<Rightarrow> bytes \<Rightarrow> bytes"
  ParseSignature :: "bytes \<Rightarrow> int \<Rightarrow> signature \<times> int"

record crypto =
  Hasher :: "bytes \<Rightarrow> hash"
  ZeroHash :: hash
  HashSize :: int
  TokenSize :: int
  SignatureSize :: int
  PublicKey :: "privkey \<Rightarrow> token"
  Sign :: "privkey \<Rightarrow> bytes \<Rightarrow> signature"
  Verify :: "token \<Rightarrow> bytes \<Rightarrow> signature \<Rightarrow> bool"

text \<open>The zero values of the array types \<open>crypto.Hash\<close>, \<open>crypto.Token\<close> and \<open>crypto.Signature\<close>.\<close>

definition no_hash :: "crypto \<Rightarrow> hash" where
  "no_hash C = replicate (nat (HashSize C)) 0"

definition no_token :: "crypto \<Rightarrow> token" where
  "no_token C = replicate (nat (TokenSize C)) 0"

definition no_signature :: "crypto \<Rightarrow> signature" where
  "no_signature C = replicate (nat (SignatureSize C)) 0"

record chainmsg =
  MsgNewBlock :: byte
  MsgAction :: byte
  MsgActionArray :: byte
  MsgActionSubmit :: byte
  MsgSealBlock :: byte
  MsgCommitBlock :: byte
  MsgBlockSealed :: byte
  MsgBlockCommitted :: byte
  MsgSyncRequest :: byte

record 'a actionarray =
  NewActionArray :: 'a
  ActionsAppend :: "'a \<Rightarrow> bytes \<Rightarrow> 'a"
  ActionsLen :: "'a \<Rightarrow> int"
  ActionsGet :: "'a \<Rightarrow> int \<Rightarrow> bytes"
  ActionsClone :: "'a \<Rightarrow> 'a"
  ActionsHash :: "'a \<Rightarrow> hash"
  ActionsSerialize :: "'a \<Rightarrow> bytes"

record 'st bytestore =
  ReadAt :: "'st \<Rightarrow> int \<Rightarrow> int \<Rightarrow> bytes"
  WriteAt :: "'st \<Rightarrow> int \<Rightarrow> bytes \<Rightarrow> 'st"
  AppendBytes :: "'st \<Rightarrow> bytes \<Rightarrow> 'st"
  StoreSize :: "'st \<Rightarrow> int"
  NewOfSize :: "'st \<Rightarrow> int \<Rightarrow> 'st"

section \<open>Documented behaviour, as hypotheses\<close>

text \<open>
  A 64-bit integer is encoded in eight bytes at the end of the buffer, and parsing them
  back at the position where they start gives the integer and the position after it.
\<close>

definition u64_codec :: "util \<Rightarrow> bool" where
  "u64_codec U \<longleftrightarrow> (\<exists>enc. \<forall>v. length (enc v) = 8 \<and> (\<forall>d. PutUint64 U v d = d @ enc v) \<and>
     (\<forall>d post. ParseUint64 U (d @ enc v @ post) (int (length d)) = (v, int (length d) + 8)))"

text \<open>\<open>ActionArray\<close> is a list of actions: \<open>view\<close> gives the list.\<close>

definition actions_are_lists :: "'a actionarray \<Rightarrow> ('a \<Rightarrow> bytes list) \<Rightarrow> bool" where
  "actions_are_lists A view \<longleftrightarrow>
     view (NewActionArray A) = [] \<and>
     (\<forall>a x. view (ActionsAppend A a x) = view a @ [x]) \<and>
     (\<forall>a. ActionsLen A a = int (length (view a))) \<and>
     (\<forall>a n. n < length (view a) \<longrightarrow> ActionsGet A a (int n) = view a ! n) \<and>
     (\<forall>a. view (ActionsClone A a) = view a)"

text \<open>A \<open>ByteStore\<close> is a resizable array of bytes: \<open>content\<close> gives the bytes.\<close>

definition store_is_bytes :: "'st bytestore \<Rightarrow> ('st \<Rightarrow> bytes) \<Rightarrow> bool" where
  "store_is_bytes P content \<longleftrightarrow>
     (\<forall>s. StoreSize P s = int (length (content s))) \<and>
     (\<forall>s off n. off + n \<le> length (content s) \<longrightarrow>
        ReadAt P s (int off) (int n) = take n (drop off (content s))) \<and>
     (\<forall>s off d. off + length d \<le> length (content s) \<longrightarrow>
        content (WriteAt P s (int off) d) =
          take off (content s) @ d @ drop (off + length d) (content s)) \<and>
     (\<forall>s d. content (AppendBytes P s d) = content s @ d) \<and>
     (\<forall>s n. content (NewOfSize P s (int n)) = replicate n 0)"

lemma actions_are_listsD:
  assumes "actions_are_lists A view"
  shows "view (NewActionArray A) = []" "view (ActionsAppend A a x) = view a @ [x]"
    "ActionsLen A a = int (length (view a))"
    "n < length (view a) \<Longrightarrow> ActionsGet A a (int n) = view a ! n"
    "view (ActionsClone A a) = view a"
  using assms by (auto simp: actions_are_lists_def)

lemma store_is_bytesD:
  assumes "store_is_bytes P content"
  shows "StoreSize P s = int (length (content s))"
    "off + n \<le> length (content s) \<Longrightarrow> ReadAt P s (int off) (int n) = take n (drop off (content s))"
    "off + length d \<le> length (content s) \<Longrightarrow>
       content (WriteAt P s (int off) d) = take off (content s) @ d @ drop (off + length d) (content s)"
    "content (AppendBytes P s d) = content s @ d"
    "content (NewOfSize P s (int n)) = replicate n 0"
  using assms by (auto simp: store_is_bytes_def)

text \<open>
  A hash is put as its \<open>crypto.Size\<close> bytes; an array of hashes that \<open>fits\<close> its length
  prefix is parsed back.
\<close>

definition hash_codec :: "util \<Rightarrow> crypto \<Rightarrow> bool" where
  "hash_codec U C \<longleftrightarrow> (\<forall>h d post. int (length h) = HashSize C \<longrightarrow>
     PutHash U h d = d @ h \<and> fst (ParseHash U (d @ h @ post) (int (length d))) = h)"

definition hashes_codec :: "util \<Rightarrow> (hash list \<Rightarrow> bool) \<Rightarrow> bool" where
  "hashes_codec U fits \<longleftrightarrow> (\<forall>hs. fits hs \<longrightarrow> (\<exists>e. \<forall>d. PutHashArray U hs d = d @ e \<and>
     (\<forall>post. fst (ParseHashArray U (d @ e @ post) (int (length d))) = hs)))"

lemma u64_codecE:
  assumes "u64_codec U"
  obtains e where "length e = 8" "\<And>d. PutUint64 U v d = d @ e"
    "\<And>d post. ParseUint64 U (d @ e @ post) (int (length d)) = (v, int (length d) + 8)"
  using assms unfolding u64_codec_def by metis

section \<open>A concrete instance\<close>

text \<open>
  Little-endian integers, length-prefixed arrays, lists as action arrays and as stores:
  the instance at which the witnesses apply the theorems, which shows that the hypotheses
  can hold. The model's definitions never mention it.
\<close>

fun le_bytes :: "nat \<Rightarrow> nat \<Rightarrow> bytes" where
  "le_bytes 0 v = []"
| "le_bytes (Suc n) v = word_of_nat (v mod 256) # le_bytes n (v div 256)"

fun le_value :: "bytes \<Rightarrow> nat" where
  "le_value [] = 0"
| "le_value (b # bs) = unat b + 256 * le_value bs"

lemma length_le_bytes [simp]: "length (le_bytes n v) = n"
  by (induction n arbitrary: v) auto

lemma le_value_le_bytes: "le_value (le_bytes n v) = v mod 256 ^ n"
proof (induction n arbitrary: v)
  case 0
  then show ?case by simp
next
  case (Suc n)
  have "unat (word_of_nat (v mod 256) :: byte) = v mod 256"
    by (simp add: unat_of_nat)
  with Suc show ?case by (simp add: mod_mult2_eq)
qed

definition demo_put :: "nat \<Rightarrow> nat \<Rightarrow> bytes \<Rightarrow> bytes" where
  "demo_put n v d = d @ le_bytes n v"

definition demo_get :: "nat \<Rightarrow> bytes \<Rightarrow> int \<Rightarrow> nat" where
  "demo_get n d p = le_value (take n (drop (nat p) d))"

definition demo_fixed :: "nat \<Rightarrow> bytes \<Rightarrow> int \<Rightarrow> bytes \<times> int" where
  "demo_fixed n d p = (take n (drop (nat p) d), p + int n)"

fun demo_hashes :: "nat \<Rightarrow> bytes \<Rightarrow> hash list" where
  "demo_hashes 0 d = []"
| "demo_hashes (Suc n) d = take 2 d # demo_hashes n (drop 2 d)"

definition demo_slice :: "slice \<Rightarrow> int \<Rightarrow> nat \<Rightarrow> slice \<times> int" where
  "demo_slice s p n = (\<lparr>visible = take n (drop (nat p) (visible s)),
     spare = drop (nat p + n) (visible s) @ spare s\<rparr>, p + int n)"

definition demo_util :: util where
  "demo_util = \<lparr>
     PutUint64 = (\<lambda>v. demo_put 8 (unat v)),
     ParseUint64 = (\<lambda>d p. (word_of_nat (demo_get 8 d p), p + 8)),
     PutUint32 = (\<lambda>v. demo_put 4 (unat v)),
     ParseUint32 = (\<lambda>d p. (word_of_nat (demo_get 4 d p), p + 4)),
     PutByteArray = (\<lambda>x d. demo_put 2 (length x) d @ x),
     ParseByteArray = (\<lambda>s p. demo_slice s (p + 2) (demo_get 2 (visible s) p)),
     PutHash = (\<lambda>h d. d @ h),
     ParseHash = demo_fixed 2,
     PutHashArray = (\<lambda>hs d. demo_put 2 (length hs) d @ concat hs),
     ParseHashArray = (\<lambda>d p. (demo_hashes (demo_get 2 d p) (drop (nat p + 2) d),
                              p + 2 + 2 * int (demo_get 2 d p))),
     PutToken = (\<lambda>t d. d @ t),
     ParseToken = demo_fixed 2,
     PutSignature = (\<lambda>t d. d @ t),
     ParseSignature = demo_fixed 2\<rparr>"

lemma demo_get_put: "v < 256 ^ n \<Longrightarrow> demo_get n (d @ le_bytes n v @ post) (int (length d)) = v"
  by (simp add: demo_get_def le_value_le_bytes)

lemma demo_u64_codec: "u64_codec demo_util"
proof -
  have bound: "unat v < 256 ^ 8" for v :: u64
    using unsigned_less [of v, where 'a = nat] by simp
  have "demo_get 8 (d @ le_bytes 8 (unat v) @ post) (int (length d)) = unat v" for d post and v :: u64
    by (rule demo_get_put [OF bound])
  then show ?thesis
    unfolding u64_codec_def
    by (intro exI [where x = "\<lambda>v. le_bytes 8 (unat v)"]) (simp add: demo_util_def demo_put_def)
qed

lemma demo_hashes_concat:
  "\<forall>h \<in> set hs. length h = 2 \<Longrightarrow> demo_hashes (length hs) (concat hs @ post) = hs"
  by (induction hs) auto

lemma demo_hashes_codec:
  "hashes_codec demo_util (\<lambda>hs. length hs < 65536 \<and> (\<forall>h \<in> set hs. length h = 2))"
  unfolding hashes_codec_def
proof (intro allI impI)
  fix hs :: "hash list"
  assume *: "length hs < 65536 \<and> (\<forall>h \<in> set hs. length h = 2)"
  let ?e = "le_bytes 2 (length hs) @ concat hs"
  have "demo_get 2 (d @ ?e @ post) (int (length d)) = length hs" for d post
    using demo_get_put [of "length hs" 2 d "concat hs @ post"] * by simp
  then have "\<forall>d. PutHashArray demo_util hs d = d @ ?e \<and>
      (\<forall>post. fst (ParseHashArray demo_util (d @ ?e @ post) (int (length d))) = hs)"
    using * by (simp add: demo_util_def demo_put_def nat_add_distrib demo_hashes_concat)
  then show "\<exists>e. \<forall>d. PutHashArray demo_util hs d = d @ e \<and>
      (\<forall>post. fst (ParseHashArray demo_util (d @ e @ post) (int (length d))) = hs)"
    by blast
qed

definition demo_crypto :: crypto where
  "demo_crypto = \<lparr>
     Hasher = (\<lambda>d. [of_nat (length d), fold (+) d 0]),
     ZeroHash = [0, 0],
     HashSize = 2,
     TokenSize = 2,
     SignatureSize = 2,
     PublicKey = (\<lambda>k. take 2 k),
     Sign = (\<lambda>k d. take 2 k),
     Verify = (\<lambda>t d s. t = s)\<rparr>"

lemma demo_hash_codec: "hash_codec demo_util demo_crypto"
  by (simp add: hash_codec_def demo_util_def demo_crypto_def demo_fixed_def)

definition demo_msg :: chainmsg where
  "demo_msg = \<lparr>MsgNewBlock = 0, MsgAction = 1, MsgActionArray = 2, MsgActionSubmit = 3,
     MsgSealBlock = 4, MsgCommitBlock = 5, MsgBlockSealed = 6, MsgBlockCommitted = 7,
     MsgSyncRequest = 8\<rparr>"

definition demo_actions :: "bytes list actionarray" where
  "demo_actions = \<lparr>NewActionArray = [], ActionsAppend = (\<lambda>a x. a @ [x]),
     ActionsLen = (\<lambda>a. int (length a)), ActionsGet = (\<lambda>a n. a ! nat n),
     ActionsClone = (\<lambda>a. a), ActionsHash = (\<lambda>a. Hasher demo_crypto (concat a)),
     ActionsSerialize = concat\<rparr>"

lemma demo_actions_are_lists: "actions_are_lists demo_actions (\<lambda>a. a)"
  by (simp add: actions_are_lists_def demo_actions_def)

definition demo_store :: "bytes bytestore" where
  "demo_store = \<lparr>ReadAt = (\<lambda>s off n. take (nat n) (drop (nat off) s)),
     WriteAt = (\<lambda>s off d. take (nat off) s @ d @ drop (nat off + length d) s),
     AppendBytes = (\<lambda>s d. s @ d), StoreSize = (\<lambda>s. int (length s)),
     NewOfSize = (\<lambda>s n. replicate (nat n) 0)\<rparr>"

lemma demo_store_is_bytes: "store_is_bytes demo_store (\<lambda>s. s)"
  by (simp add: store_is_bytes_def demo_store_def)

end
