(* ===== verification/Machine.thy ===== *)
theory Machine
  imports Prelude
begin

text \<open>
  Message loops. A goroutine \<open>for { data := read(); switch ... }\<close> is a step function: it
  takes the loop's local state and the message read, and continues with a new state,
  returns, or crashes; in each case it lists what it has sent. \<open>react\<close> runs a step
  function over the messages read, in order. The locale \<open>message_loop\<close> is the contract
  of a loop with an invariant, a condition \<open>pre\<close> on its messages, and a property of what it sends.
\<close>

datatype ('s, 'o) reaction =
    Continue 's "'o list"
  | Return "'o list"
  | Crash halt "'o list"

text \<open>What a node does with a connection, in the order it does it.\<close>

datatype conn_event =
    Send bytes
  | SendDirect bytes  \<comment> \<open>\<open>CachedConnection.SendDirect\<close>, ahead of the cache\<close>
  | Ready             \<comment> \<open>\<open>CachedConnection.Ready\<close>: the cache may be sent\<close>
  | CloseConn
  | Shutdown

text \<open>\<open>data, err := conn.Read()\<close>.\<close>

datatype read_event = ReadError | Read bytes

datatype 's outcome = Running 's | Returned | Crashed halt

fun sent :: "('s, 'o) reaction \<Rightarrow> 'o list" where
  "sent (Continue s os) = os"
| "sent (Return os) = os"
| "sent (Crash h os) = os"

fun react :: "('s \<Rightarrow> 'e \<Rightarrow> ('s, 'o) reaction) \<Rightarrow> 's \<Rightarrow> 'e list \<Rightarrow> 'o list \<times> 's outcome" where
  "react step s [] = ([], Running s)"
| "react step s (e # es) =
     (case step s e of
        Continue s' os \<Rightarrow> (case react step s' es of (os', r) \<Rightarrow> (os @ os', r))
      | Return os \<Rightarrow> (os, Returned)
      | Crash h os \<Rightarrow> (os, Crashed h))"

lemma react_append:
  "react step s (xs @ ys) =
     (case react step s xs of
        (os, Running s') \<Rightarrow> (case react step s' ys of (os', r) \<Rightarrow> (os @ os', r))
      | (os, r) \<Rightarrow> (os, r))"
proof (induction xs arbitrary: s)
  case Nil
  then show ?case by (simp split: prod.splits)
next
  case (Cons x xs)
  then show ?case by (auto split: reaction.splits prod.splits outcome.splits)
qed

locale message_loop =
  fixes step :: "'s \<Rightarrow> 'e \<Rightarrow> ('s, 'o) reaction"
    and inv :: "'s \<Rightarrow> bool"
    and pre :: "'e \<Rightarrow> bool"
    and good :: "'o \<Rightarrow> bool"
  assumes step_inv: "inv s \<Longrightarrow> pre e \<Longrightarrow> step s e = Continue s' os \<Longrightarrow> inv s'"
    and step_good: "inv s \<Longrightarrow> pre e \<Longrightarrow> x \<in> set (sent (step s e)) \<Longrightarrow> good x"
begin

lemma react_inv:
  "inv s \<Longrightarrow> list_all pre es \<Longrightarrow> react step s es = (os, Running s') \<Longrightarrow> inv s'"
proof (induction es arbitrary: s os)
  case Nil
  then show ?case by simp
next
  case (Cons e es)
  then show ?case
    by (auto split: reaction.splits prod.splits dest: step_inv)
qed

lemma react_good: "inv s \<Longrightarrow> list_all pre es \<Longrightarrow> list_all good (fst (react step s es))"
proof (induction es arbitrary: s)
  case Nil
  then show ?case by simp
next
  case (Cons e es)
  have sent_good: "list_all good (sent (step s e))"
    using step_good Cons.prems by (auto simp: list_all_iff)
  show ?case
  proof (cases "step s e")
    case (Continue s' os)
    with Cons.prems have "inv s'" by (auto dest: step_inv)
    from Cons.IH [OF this] Cons.prems have "list_all good (fst (react step s' es))" by simp
    with Continue sent_good show ?thesis by (simp add: case_prod_unfold)
  qed (use sent_good in auto)
qed

end

text \<open>A loop whose step never ends it runs through any sequence of messages.\<close>

locale running_loop = message_loop +
  assumes step_runs: "inv s \<Longrightarrow> pre e \<Longrightarrow> \<exists>s' os. step s e = Continue s' os"
begin

lemma react_runs: "inv s \<Longrightarrow> list_all pre es \<Longrightarrow> \<exists>s' os. react step s es = (os, Running s') \<and> inv s'"
proof (induction es arbitrary: s)
  case Nil
  then show ?case by simp
next
  case (Cons e es)
  then obtain s1 os1 where 1: "step s e = Continue s1 os1" using step_runs by fastforce
  with Cons.prems have "inv s1" by (auto intro: step_inv)
  with Cons obtain s2 os2 where "react step s1 es = (os2, Running s2)" "inv s2"
    by fastforce
  with 1 show ?case by auto
qed

end

end
