(* ===== verification/Social_Chain.thy ===== *)
theory Social_Chain
  imports Ext Machine
begin

text \<open>
  \<open>social/interface.go\<close> and \<open>social/chain.go\<close>: the chain of blocks of a social protocol,
  from the live block to the committed state.

  \<open>stateful\<close> is the interface the protocol implements (\<open>Merger\<close>, \<open>Blocker\<close> and
  \<open>Stateful\<close>): a committed state \<open>'s\<close>, validators \<open>'b\<close> made from it, and mutations \<open>'m\<close>.
  A validator holds a reference to the committed state, so \<open>BlockValidate\<close> takes the state
  as it is when the action is validated, and gives the validator after it. \<open>Merge\<close> gives its
  result and, since the interface does not exclude that it writes into the mutations it is
  called on, these as they are afterwards.
  \<open>social_chain\<close> is \<open>SocialBlockChain\<close>; its methods take it and give it back. The mutex is
  taken by the callers (\<open>Lock\<close> and \<open>Unlock\<close> around each handler in \<open>social/node.go\<close>), so
  the methods here run one at a time.
\<close>

section \<open>The protocol's interface\<close>

record ('s, 'b, 'm) stateful =
  Merge :: "'m \<Rightarrow> 'm list \<Rightarrow> 'm \<times> 'm"  \<comment> \<open>the result, and the receiver after the call\<close>
  BlockValidate :: "'s \<Rightarrow> 'b \<Rightarrow> bytes \<Rightarrow> bool \<times> 'b"
  Mutations :: "'b \<Rightarrow> 'm"
  Validator :: "'s \<Rightarrow> 'b"
  Incorporate :: "'s \<Rightarrow> 'm \<Rightarrow> 's"
  Recover :: "'s \<Rightarrow> 's"
  NoMutations :: 'm  \<comment> \<open>the zero value of the type parameter \<open>M\<close>\<close>

text \<open>The four status constants, in the order of \<open>iota\<close>; the code compares them with \<open>>=\<close>.\<close>

datatype status = StatusLive | StatusDone | StatusSealed | StatusCommit

fun status_code :: "status \<Rightarrow> nat" where
  "status_code StatusLive = 0"
| "status_code StatusDone = 1"
| "status_code StatusSealed = 2"
| "status_code StatusCommit = 3"

instantiation status :: linorder
begin

definition less_eq_status :: "status \<Rightarrow> status \<Rightarrow> bool" where
  "less_eq_status a b \<longleftrightarrow> status_code a \<le> status_code b"

definition less_status :: "status \<Rightarrow> status \<Rightarrow> bool" where
  "less_status a b \<longleftrightarrow> status_code a < status_code b"

instance
proof
  fix x y z :: status
  show "x < y \<longleftrightarrow> x \<le> y \<and> \<not> y \<le> x"
    by (auto simp: less_eq_status_def less_status_def)
  show "x \<le> x" by (simp add: less_eq_status_def)
  show "x \<le> y \<Longrightarrow> y \<le> z \<Longrightarrow> x \<le> z" by (simp add: less_eq_status_def)
  show "x \<le> y \<Longrightarrow> y \<le> x \<Longrightarrow> x = y"
    by (cases x; cases y; simp add: less_eq_status_def)
  show "x \<le> y \<or> y \<le> x" by (auto simp: less_eq_status_def)
qed

end

lemma StatusSealed_le_iff: "StatusSealed \<le> x \<longleftrightarrow> x = StatusSealed \<or> x = StatusCommit"
  by (cases x) (auto simp: less_eq_status_def)

lemma StatusCommit_le_iff: "StatusCommit \<le> x \<longleftrightarrow> x = StatusCommit"
  by (cases x) (auto simp: less_eq_status_def)

record ('m, 'a) social_block =
  sb_Epoch :: u64
  sb_Checkpoint :: u64
  sb_Origin :: hash
  sb_Actions :: 'a
  sb_Invalidated :: "hash list"
  sb_Status :: status
  sb_mutations :: 'm

record ('s, 'b, 'm, 'a) social_chain =
  sc_epoch :: u64
  sc_live :: "('m, 'a) social_block option"
  sc_validator :: 'b
  sc_commit :: 's
  sc_commitEpoch :: u64
  sc_recentBlocks :: "('m, 'a) social_block list"
  sc_Transform :: "(bytes \<Rightarrow> bytes) option"
  sc_checksumEpoch :: u64

datatype chain_error =
    NonSequentialBlock u64 u64
  | BlockNotFound u64
  | AlreadySealed u64
  | AlreadyCommitted u64
  | NotSealed u64
  | NonSequentialCommit u64 u64
  | RollbackToCommit u64 u64
  | RollbackNotFound u64

text \<open>Everything the methods call: the protocol, the action container, the hash function.\<close>

record ('s, 'b, 'm, 'a) social_env =
  env_state :: "('s, 'b, 'm) stateful"
  env_actions :: "'a actionarray"
  env_crypto :: crypto

section \<open>The operations\<close>

text \<open>\<open>Clone\<close> copies the action array and leaves \<open>mutations\<close> at its zero value.\<close>

definition sb_Clone ::
  "('s, 'b, 'm, 'a) social_env \<Rightarrow> ('m, 'a) social_block \<Rightarrow> ('m, 'a) social_block" where
  "sb_Clone E b = \<lparr>sb_Epoch = sb_Epoch b, sb_Checkpoint = sb_Checkpoint b, sb_Origin = sb_Origin b,
     sb_Actions = ActionsClone (env_actions E) (sb_Actions b), sb_Invalidated = sb_Invalidated b,
     sb_Status = sb_Status b, sb_mutations = NoMutations (env_state E)\<rparr>"

definition NewSocialBlockChain ::
  "('s, 'b, 'm, 'a) social_env \<Rightarrow> 's \<Rightarrow> u64 \<Rightarrow> ('s, 'b, 'm, 'a) social_chain" where
  "NewSocialBlockChain E st epoch = \<lparr>sc_epoch = epoch, sc_live = None,
     sc_validator = Validator (env_state E) st, sc_commit = st, sc_commitEpoch = epoch,
     sc_recentBlocks = [], sc_Transform = None, sc_checksumEpoch = 0\<rparr>"

definition sc_Validate ::
  "('s, 'b, 'm, 'a) social_env \<Rightarrow> ('s, 'b, 'm, 'a) social_chain \<Rightarrow> bytes \<Rightarrow>
     bool \<times> ('s, 'b, 'm, 'a) social_chain" where
  "sc_Validate E s action0 =
     (let action = (case sc_Transform s of None \<Rightarrow> action0 | Some f \<Rightarrow> f action0)
      in case sc_live s of
           None \<Rightarrow> (False, s)
         | Some l \<Rightarrow>
             if length action > 0 then
               (case BlockValidate (env_state E) (sc_commit s) (sc_validator s) action of (ok, v) \<Rightarrow>
                  if ok then
                    (True, s\<lparr>sc_validator := v,
                       sc_live := Some (l\<lparr>sb_Actions := ActionsAppend (env_actions E) (sb_Actions l) action\<rparr>)\<rparr>)
                  else (False, s\<lparr>sc_validator := v\<rparr>))
             else (False, s))"

definition sc_NextBlock ::
  "('s, 'b, 'm, 'a) social_env \<Rightarrow> ('s, 'b, 'm, 'a) social_chain \<Rightarrow> u64 \<Rightarrow>
     chain_error option \<times> ('s, 'b, 'm, 'a) social_chain" where
  "sc_NextBlock E s epoch =
     (if epoch \<noteq> sc_epoch s + 1 then (Some (NonSequentialBlock (sc_epoch s) epoch), s)
      else
        let recent = (case sc_live s of
              None \<Rightarrow> sc_recentBlocks s
            | Some l \<Rightarrow> sc_recentBlocks s @
                [l\<lparr>sb_Status := StatusDone, sb_mutations := Mutations (env_state E) (sc_validator s)\<rparr>]);
            e = sc_epoch s + 1
        in (None, s\<lparr>sc_recentBlocks := recent, sc_epoch := e,
              sc_live := Some \<lparr>sb_Epoch = e, sb_Checkpoint = sc_commitEpoch s, sb_Origin = no_hash (env_crypto E),
                 sb_Actions = NewActionArray (env_actions E), sb_Invalidated = [],
                 sb_Status = StatusLive, sb_mutations = NoMutations (env_state E)\<rparr>,
              sc_validator := Validator (env_state E) (sc_commit s)\<rparr>))"

definition sc_findBlock ::
  "('s, 'b, 'm, 'a) social_chain \<Rightarrow> u64 \<Rightarrow> ('m, 'a) social_block option" where
  "sc_findBlock s epoch = find (\<lambda>b. sb_Epoch b = epoch) (sc_recentBlocks s)"

text \<open>
  In the branch of the live block the variable \<open>sealed\<close> keeps its initial value \<open>nil\<close>, so
  the block is moved and the call reports that it was not found.
\<close>

definition sc_SealBlock ::
  "('s, 'b, 'm, 'a) social_env \<Rightarrow> ('s, 'b, 'm, 'a) social_chain \<Rightarrow> u64 \<Rightarrow> hash \<Rightarrow>
     (chain_error + hash) \<times> ('s, 'b, 'm, 'a) social_chain" where
  "sc_SealBlock E s epoch h =
     (let is_live = (case sc_live s of None \<Rightarrow> None | Some l \<Rightarrow> if sb_Epoch l = epoch then Some l else None);
          sealed = (case is_live of Some l \<Rightarrow> None | None \<Rightarrow> sc_findBlock s epoch);
          s1 = (case is_live of
                  Some l \<Rightarrow> s\<lparr>sc_recentBlocks := sc_recentBlocks s @ [l], sc_live := None\<rparr>
                | None \<Rightarrow> s)
      in case sealed of
           None \<Rightarrow> (Inl (BlockNotFound epoch), s1)
         | Some b \<Rightarrow>
             if StatusSealed \<le> sb_Status b then (Inl (AlreadySealed epoch), s1)
             else (Inr (ActionsHash (env_actions E) (sb_Actions b)),
                   s1\<lparr>sc_recentBlocks := update_first (\<lambda>b. sb_Epoch b = epoch)
                        (\<lambda>b. b\<lparr>sb_Status := StatusSealed, sb_Origin := h\<rparr>) (sc_recentBlocks s1)\<rparr>))"

text \<open>
  \<open>revalidate\<close>: the loop over \<open>actions\<close>. The validator is asked only where the hash is not
  among the invalidated ones, as \<open>||\<close> evaluates its right side only then.
\<close>

fun revalidate_loop ::
  "('s, 'b, 'm, 'a) social_env \<Rightarrow> 's \<Rightarrow> hash list \<Rightarrow> 'b \<Rightarrow> hash list \<Rightarrow> bytes list \<Rightarrow>
     hash list \<times> 'b" where
  "revalidate_loop E st notvalid v acc [] = (acc, v)"
| "revalidate_loop E st notvalid v acc (action # rest) =
     (let h = Hasher (env_crypto E) action
      in if h \<in> set notvalid then revalidate_loop E st notvalid v (acc @ [h]) rest
         else (case BlockValidate (env_state E) st v action of (ok, v') \<Rightarrow>
                 revalidate_loop E st notvalid v' (if ok then acc else acc @ [h]) rest))"

definition all_actions :: "'a actionarray \<Rightarrow> 'a \<Rightarrow> bytes list" where
  "all_actions A a = map (\<lambda>n. ActionsGet A a (int n)) [0..<nat (ActionsLen A a)]"

definition sc_revalidate ::
  "('s, 'b, 'm, 'a) social_env \<Rightarrow> ('s, 'b, 'm, 'a) social_chain \<Rightarrow> 'a \<Rightarrow> hash list \<Rightarrow> hash list \<times> 'm" where
  "sc_revalidate E s actions invalidated =
     (case revalidate_loop E (sc_commit s) invalidated (Validator (env_state E) (sc_commit s)) []
             (all_actions (env_actions E) actions)
      of (bad, v) \<Rightarrow> (bad, Mutations (env_state E) v))"

text \<open>\<open>Commit\<close> walks \<open>recentBlocks\<close>; \<open>walked\<close> are the blocks already passed.\<close>

fun commit_loop ::
  "('s, 'b, 'm, 'a) social_env \<Rightarrow> ('s, 'b, 'm, 'a) social_chain \<Rightarrow> u64 \<Rightarrow> hash list \<Rightarrow>
     ('m, 'a) social_block list \<Rightarrow> ('m, 'a) social_block list \<Rightarrow>
     (chain_error + hash list) \<times> ('s, 'b, 'm, 'a) social_chain" where
  "commit_loop E s epoch invalidated walked [] = (Inl (BlockNotFound epoch), s)"
| "commit_loop E s epoch invalidated walked (b # rest) =
     (if sb_Epoch b = epoch then
        if sb_Status b = StatusCommit then (Inl (AlreadyCommitted epoch), s)
        else if sb_Status b \<noteq> StatusSealed then (Inl (NotSealed epoch), s)
        else
          (case sc_revalidate E s (sb_Actions b) invalidated of (bad, m) \<Rightarrow>
             (Inr bad,
              s\<lparr>sc_recentBlocks := walked @
                  b\<lparr>sb_Status := StatusCommit, sb_Invalidated := bad, sb_mutations := m\<rparr> # rest,
                sc_commit := Incorporate (env_state E) (sc_commit s) m,
                sc_commitEpoch := sb_Epoch b\<rparr>))
      else if sb_Status b \<noteq> StatusCommit then (Inl (NonSequentialCommit (sb_Epoch b) epoch), s)
      else commit_loop E s epoch invalidated (walked @ [b]) rest)"

definition sc_Commit ::
  "('s, 'b, 'm, 'a) social_env \<Rightarrow> ('s, 'b, 'm, 'a) social_chain \<Rightarrow> u64 \<Rightarrow> hash list \<Rightarrow>
     (chain_error + hash list) \<times> ('s, 'b, 'm, 'a) social_chain" where
  "sc_Commit E s epoch invalidated = commit_loop E s epoch invalidated [] (sc_recentBlocks s)"

text \<open>\<open>s.recentBlocks[:n]\<close> at the first block of the epoch: that block is dropped too.\<close>

definition sc_Rollback ::
  "('s, 'b, 'm, 'a) social_chain \<Rightarrow> u64 \<Rightarrow> chain_error option \<times> ('s, 'b, 'm, 'a) social_chain" where
  "sc_Rollback s epoch =
     (if epoch < sc_commitEpoch s then (Some (RollbackToCommit epoch (sc_commitEpoch s)), s)
      else if \<exists>b \<in> set (sc_recentBlocks s). sb_Epoch b = epoch then
        (None, s\<lparr>sc_recentBlocks := takeWhile (\<lambda>b. sb_Epoch b \<noteq> epoch) (sc_recentBlocks s),
                 sc_live := None, sc_epoch := epoch\<rparr>)
      else (Some (RollbackNotFound epoch), s))"

text \<open>
  \<open>Recovery\<close>: the loop over \<open>recentBlocks\<close> up to the block of \<open>epoch\<close>. The result of \<open>Merge\<close>
  is not used. \<open>mutations\<close> is the value of the block after the checksum point, so what \<open>Merge\<close>
  writes through it that block shows too.
\<close>

definition share_mutations :: "u64 \<Rightarrow> 'm \<Rightarrow> ('m, 'a) social_block list \<Rightarrow> ('m, 'a) social_block list" where
  "share_mutations e m bs = map (\<lambda>b. if sb_Epoch b = e then b\<lparr>sb_mutations := m\<rparr> else b) bs"

fun recovery_loop ::
  "('s, 'b, 'm, 'a) social_env \<Rightarrow> u64 \<Rightarrow> u64 \<Rightarrow> 'm \<Rightarrow>
     ('m, 'a) social_block list \<Rightarrow> ('m, 'a) social_block list \<Rightarrow> 'm \<times> ('m, 'a) social_block list" where
  "recovery_loop E checksum epoch m walked [] = (m, walked)"
| "recovery_loop E checksum epoch m walked (b # rest) =
     (let (m', walked') =
            (if sb_Epoch b = checksum + 1 then (sb_mutations b, walked)
             else if sb_Epoch b > checksum + 1 \<and> sb_Epoch b \<le> epoch then
               (let (ignored, receiver) = Merge (env_state E) m [sb_mutations b]
                in (receiver, share_mutations (checksum + 1) receiver walked))
             else (m, walked))
      in if sb_Epoch b = epoch then (m', walked')
         else recovery_loop E checksum epoch m' (walked' @ [b]) rest)"

definition sc_Recovery ::
  "('s, 'b, 'm, 'a) social_env \<Rightarrow> ('s, 'b, 'm, 'a) social_chain \<Rightarrow> u64 \<Rightarrow> ('s, 'b, 'm, 'a) social_chain" where
  "sc_Recovery E s epoch =
     (if epoch < sc_checksumEpoch s then s
      else if epoch \<ge> sc_commitEpoch s then s
      else
        (case recovery_loop E (sc_checksumEpoch s) epoch (NoMutations (env_state E)) [] (sc_recentBlocks s)
         of (m, recent) \<Rightarrow>
           s\<lparr>sc_recentBlocks := recent,
             sc_commit := Incorporate (env_state E) (Recover (env_state E) (sc_commit s)) m,
             sc_commitEpoch := epoch, sc_live := None\<rparr>))"

text \<open>
  \<open>Sync\<close>: under the lock the pointers of the recent blocks to send are collected, and the
  live block is cloned. The goroutine reads the blocks afterwards, without the lock, while
  other handlers may seal or commit them: \<open>sync_messages\<close> takes a block as it is at each of
  the four points where it is read (the epoch and the actions; the status and the hash for
  the seal; the status for the commit; the invalidated actions), and \<open>later i k b\<close> is what
  the \<open>i\<close>-th pointer, to the block \<open>b\<close>, shows at the point \<open>k\<close>. The clone is not shared.
\<close>

definition sync_blocks ::
  "('s, 'b, 'm, 'a) social_env \<Rightarrow> ('s, 'b, 'm, 'a) social_chain \<Rightarrow> u64 \<Rightarrow>
     (bool \<times> ('m, 'a) social_block) list" where
  "sync_blocks E s epoch =
     map (Pair True) (filter (\<lambda>b. sb_Epoch b > epoch \<and> sb_Epoch b \<le> sc_epoch s) (sc_recentBlocks s)) @
     (case sc_live s of None \<Rightarrow> [] | Some l \<Rightarrow> [(False, sb_Clone E l)])"

definition sync_messages ::
  "util \<Rightarrow> chainmsg \<Rightarrow> ('s, 'b, 'm, 'a) social_env \<Rightarrow> (nat \<Rightarrow> ('m, 'a) social_block) \<Rightarrow> bytes list" where
  "sync_messages U C E r =
     [PutUint64 U (sb_Epoch (r 0)) [MsgNewBlock C],
      MsgActionArray C # ActionsSerialize (env_actions E) (sb_Actions (r 0))] @
     (if StatusSealed \<le> sb_Status (r 1) then
        [PutHash U (ActionsHash (env_actions E) (sb_Actions (r 1))) (PutUint64 U (sb_Epoch (r 1)) [MsgSealBlock C])]
      else []) @
     (if StatusCommit \<le> sb_Status (r 2) then
        [PutHashArray U (sb_Invalidated (r 3)) (PutUint64 U (sb_Epoch (r 3)) [MsgCommitBlock C])]
      else [])"

definition sc_Sync ::
  "util \<Rightarrow> chainmsg \<Rightarrow> ('s, 'b, 'm, 'a) social_env \<Rightarrow>
     (nat \<Rightarrow> nat \<Rightarrow> ('m, 'a) social_block \<Rightarrow> ('m, 'a) social_block) \<Rightarrow>
     ('s, 'b, 'm, 'a) social_chain \<Rightarrow> u64 \<Rightarrow> conn_event list" where
  "sc_Sync U C E later s epoch =
     map SendDirect (concat (map (\<lambda>(i, shared, b). sync_messages U C E (\<lambda>k. if shared then later i k b else b))
       (enumerate 0 (sync_blocks E s epoch)))) @ [Ready]"

text \<open>When nothing happens to the blocks meanwhile, the messages are those of the blocks at the call.\<close>

lemma sync_quiet:
  fixes E :: "('s, 'b, 'm, 'a) social_env"
  shows "sc_Sync U C E (\<lambda>i k b. b) s epoch =
     map SendDirect (concat (map (\<lambda>(shared, b). sync_messages U C E (\<lambda>k. b)) (sync_blocks E s epoch))) @ [Ready]"
proof -
  have "concat (map (\<lambda>(i, shared, b). f b) (enumerate n xs)) = concat (map (\<lambda>(shared, b). f b) xs)"
    for f :: "('m, 'a) social_block \<Rightarrow> bytes list" and xs :: "(bool \<times> ('m, 'a) social_block) list" and n
    by (induction xs arbitrary: n) auto
  from this [of "\<lambda>b. sync_messages U C E (\<lambda>k. b)" 0 "sync_blocks E s epoch"] show ?thesis
    by (simp add: sc_Sync_def)
qed

section \<open>The invariant\<close>

text \<open>
  Block epochs strictly increase along \<open>recentBlocks\<close> and up to the live block, which has
  the chain's epoch; the blocks up to the commit epoch are committed and no others.
\<close>

definition chain_inv :: "('s, 'b, 'm, 'a) social_chain \<Rightarrow> bool" where
  "chain_inv s \<longleftrightarrow>
     sorted_wrt (<) (map sb_Epoch (sc_recentBlocks s)) \<and>
     (\<forall>b \<in> set (sc_recentBlocks s). sb_Epoch b \<le> sc_epoch s \<and>
        (sb_Status b = StatusCommit \<longleftrightarrow> sb_Epoch b \<le> sc_commitEpoch s)) \<and>
     sc_commitEpoch s \<le> sc_epoch s \<and>
     (case sc_live s of None \<Rightarrow> True
      | Some l \<Rightarrow> sb_Epoch l = sc_epoch s \<and> sb_Status l = StatusLive \<and> sc_commitEpoch s < sb_Epoch l \<and>
          (\<forall>b \<in> set (sc_recentBlocks s). sb_Epoch b < sb_Epoch l))"

lemma chain_invI:
  assumes "sorted_wrt (<) (map sb_Epoch (sc_recentBlocks s))"
    and "\<And>b. b \<in> set (sc_recentBlocks s) \<Longrightarrow> sb_Epoch b \<le> sc_epoch s"
    and "\<And>b. b \<in> set (sc_recentBlocks s) \<Longrightarrow> sb_Status b = StatusCommit \<longleftrightarrow> sb_Epoch b \<le> sc_commitEpoch s"
    and "sc_commitEpoch s \<le> sc_epoch s"
    and "\<And>l. sc_live s = Some l \<Longrightarrow> sb_Epoch l = sc_epoch s \<and> sb_Status l = StatusLive \<and>
           sc_commitEpoch s < sb_Epoch l \<and> (\<forall>b \<in> set (sc_recentBlocks s). sb_Epoch b < sb_Epoch l)"
  shows "chain_inv s"
  using assms by (auto simp: chain_inv_def split: option.splits)

lemma chain_invD:
  assumes "chain_inv s"
  shows "sorted_wrt (<) (map sb_Epoch (sc_recentBlocks s))"
    "b \<in> set (sc_recentBlocks s) \<Longrightarrow> sb_Epoch b \<le> sc_epoch s"
    "b \<in> set (sc_recentBlocks s) \<Longrightarrow> sb_Status b = StatusCommit \<longleftrightarrow> sb_Epoch b \<le> sc_commitEpoch s"
    "sc_commitEpoch s \<le> sc_epoch s"
    "sc_live s = Some l \<Longrightarrow> sb_Epoch l = sc_epoch s"
    "sc_live s = Some l \<Longrightarrow> sb_Status l = StatusLive"
    "sc_live s = Some l \<Longrightarrow> sc_commitEpoch s < sb_Epoch l"
    "sc_live s = Some l \<Longrightarrow> b \<in> set (sc_recentBlocks s) \<Longrightarrow> sb_Epoch b < sb_Epoch l"
  using assms by (auto simp: chain_inv_def split: option.splits)

lemma chain_inv_new: "chain_inv (NewSocialBlockChain E st epoch)"
  by (simp add: chain_inv_def NewSocialBlockChain_def)

lemma chain_inv_Validate: "chain_inv s \<Longrightarrow> chain_inv (snd (sc_Validate E s action))"
  by (auto simp: chain_inv_def sc_Validate_def Let_def split: option.splits prod.splits)

lemma chain_inv_NextBlock:
  assumes inv: "chain_inv s" and "epoch \<noteq> 0"
  shows "chain_inv (snd (sc_NextBlock E s epoch))"
proof (cases "epoch = sc_epoch s + 1")
  case True
  note D = chain_invD [OF inv]
  have lt: "sc_epoch s < sc_epoch s + 1" using assms(2) True by (simp add: u64_less_succ)
  have below: "sb_Epoch b < sc_epoch s + 1" if "b \<in> set (sc_recentBlocks s)" for b
    using D(2) [OF that] lt by (rule le_less_trans)
  have commit: "sc_commitEpoch s < sc_epoch s + 1" using D(4) lt by (rule le_less_trans)
  show ?thesis
  proof (cases "sc_live s")
    case None
    then show ?thesis using True lt below commit D(1,3)
      by (intro chain_invI) (auto simp: sc_NextBlock_def Let_def less_imp_le)
  next
    case (Some l)
    note L = D(5-8)[OF Some]
    show ?thesis using True lt below commit D(1,3) L Some
      by (intro chain_invI)
        (auto simp: sc_NextBlock_def Let_def sorted_wrt_append_snoc less_imp_le)
  qed
qed (use inv in \<open>simp add: sc_NextBlock_def\<close>)

lemma chain_inv_SealBlock:
  assumes inv: "chain_inv s"
  shows "chain_inv (snd (sc_SealBlock E s epoch h))"
proof (cases "\<exists>l. sc_live s = Some l \<and> sb_Epoch l = epoch")
  case True
  then obtain l where l: "sc_live s = Some l" "sb_Epoch l = epoch" by blast
  note D = chain_invD [OF inv]
  show ?thesis using l D(1-4) D(5-8)[OF l(1)]
    by (intro chain_invI) (auto simp: sc_SealBlock_def Let_def sorted_wrt_append_snoc)
next
  case False
  let ?seal = "\<lambda>b. b\<lparr>sb_Status := StatusSealed, sb_Origin := h\<rparr>"
  note D = chain_invD [OF inv]
  have live: "(case sc_live s of None \<Rightarrow> None | Some l \<Rightarrow> if sb_Epoch l = epoch then Some l else None) = None"
    using False by (auto split: option.splits)
  show ?thesis
  proof (cases "sc_findBlock s epoch")
    case None
    with live inv show ?thesis by (simp add: sc_SealBlock_def)
  next
    case (Some b)
    show ?thesis
    proof (cases "StatusSealed \<le> sb_Status b")
      case True
      with live Some inv show ?thesis by (simp add: sc_SealBlock_def)
    next
      case open_b: False
      let ?recent = "update_first (\<lambda>b. sb_Epoch b = epoch) ?seal (sc_recentBlocks s)"
      have b: "b \<in> set (sc_recentBlocks s)" "sb_Epoch b = epoch"
        using Some find_SomeD [of _ "sc_recentBlocks s" b] by (auto simp: sc_findBlock_def)
      have "\<not> epoch \<le> sc_commitEpoch s"
        using D(3) [OF b(1)] b(2) open_b by (auto simp: StatusSealed_le_iff)
      then have mem: "c \<in> set ?recent \<Longrightarrow> sb_Epoch c \<le> sc_epoch s \<and>
          (sb_Status c = StatusCommit \<longleftrightarrow> sb_Epoch c \<le> sc_commitEpoch s) \<and>
          (\<exists>d \<in> set (sc_recentBlocks s). sb_Epoch d = sb_Epoch c)" for c
        using set_update_first [of "\<lambda>b. sb_Epoch b = epoch" ?seal "sc_recentBlocks s"] D(2,3)
        by fastforce
      have "map sb_Epoch ?recent = map sb_Epoch (sc_recentBlocks s)"
        by (rule map_update_first) simp
      moreover have "sc_SealBlock E s epoch h =
          (Inr (ActionsHash (env_actions E) (sb_Actions b)), s\<lparr>sc_recentBlocks := ?recent\<rparr>)"
        using live Some open_b by (simp add: sc_SealBlock_def)
      ultimately show ?thesis using mem D(1,4-8)
        by (intro chain_invI) (auto, metis)
    qed
  qed
qed

text \<open>What a successful commit does: the blocks before it are committed, the block is sealed.\<close>

lemma commit_loop_Inr:
  assumes "commit_loop E s epoch invalidated walked bs = (Inr bad, s')"
  shows "\<exists>pre b post m. bs = pre @ b # post \<and>
     (\<forall>c \<in> set pre. sb_Status c = StatusCommit \<and> sb_Epoch c \<noteq> epoch) \<and>
     sb_Epoch b = epoch \<and> sb_Status b = StatusSealed \<and>
     sc_revalidate E s (sb_Actions b) invalidated = (bad, m) \<and>
     s' = s\<lparr>sc_recentBlocks := walked @ pre @
              b\<lparr>sb_Status := StatusCommit, sb_Invalidated := bad, sb_mutations := m\<rparr> # post,
            sc_commit := Incorporate (env_state E) (sc_commit s) m, sc_commitEpoch := epoch\<rparr>"
  using assms
proof (induction bs arbitrary: walked)
  case Nil
  then show ?case by simp
next
  case (Cons b rest)
  show ?case
  proof (cases "sb_Epoch b = epoch")
    case True
    with Cons.prems show ?thesis
      by (intro exI [where x = "[]"]) (auto split: if_splits prod.splits)
  next
    case False
    with Cons.prems have st: "sb_Status b = StatusCommit"
      and *: "commit_loop E s epoch invalidated (walked @ [b]) rest = (Inr bad, s')"
      by (auto split: if_splits)
    from Cons.IH [OF *] obtain pre c post m where
      "rest = pre @ c # post" "\<forall>d \<in> set pre. sb_Status d = StatusCommit \<and> sb_Epoch d \<noteq> epoch"
      "sb_Epoch c = epoch" "sb_Status c = StatusSealed"
      "sc_revalidate E s (sb_Actions c) invalidated = (bad, m)"
      "s' = s\<lparr>sc_recentBlocks := (walked @ [b]) @ pre @
              c\<lparr>sb_Status := StatusCommit, sb_Invalidated := bad, sb_mutations := m\<rparr> # post,
            sc_commit := Incorporate (env_state E) (sc_commit s) m, sc_commitEpoch := epoch\<rparr>"
      by blast
    with st False show ?thesis
      by (intro exI [where x = "b # pre"] exI [where x = c] exI [where x = post] exI [where x = m]) auto
  qed
qed

lemma commit_loop_Inl: "commit_loop E s epoch invalidated walked bs = (Inl err, s') \<Longrightarrow> s' = s"
  by (induction bs arbitrary: walked) (auto split: if_splits prod.splits)

lemma commitE:
  assumes "sc_Commit E s epoch invalidated = (Inr bad, s')"
  obtains pre b post m where "sc_recentBlocks s = pre @ b # post"
    and "\<forall>c \<in> set pre. sb_Status c = StatusCommit \<and> sb_Epoch c \<noteq> epoch"
    and "sb_Epoch b = epoch" and "sb_Status b = StatusSealed"
    and "sc_revalidate E s (sb_Actions b) invalidated = (bad, m)"
    and "s' = s\<lparr>sc_recentBlocks := pre @ b\<lparr>sb_Status := StatusCommit, sb_Invalidated := bad, sb_mutations := m\<rparr> # post,
            sc_commit := Incorporate (env_state E) (sc_commit s) m, sc_commitEpoch := epoch\<rparr>"
  using commit_loop_Inr [OF assms [unfolded sc_Commit_def], unfolded append_Nil] by blast

lemma commit_failed: "sc_Commit E s epoch invalidated = (Inl err, s') \<Longrightarrow> s' = s"
  unfolding sc_Commit_def by (rule commit_loop_Inl)

lemma chain_inv_Commit:
  assumes inv: "chain_inv s"
  shows "chain_inv (snd (sc_Commit E s epoch invalidated))"
proof (cases "sc_Commit E s epoch invalidated")
  case (Pair r s')
  show ?thesis
  proof (cases r)
    case (Inl err)
    with Pair inv commit_failed show ?thesis by (metis snd_conv)
  next
    case (Inr bad)
    from commitE [OF Pair [unfolded Inr]] obtain pre b post m where split: "sc_recentBlocks s = pre @ b # post"
      and pre: "\<forall>c \<in> set pre. sb_Status c = StatusCommit \<and> sb_Epoch c \<noteq> epoch"
      and b: "sb_Epoch b = epoch" "sb_Status b = StatusSealed"
      and s': "s' = s\<lparr>sc_recentBlocks := pre @
              b\<lparr>sb_Status := StatusCommit, sb_Invalidated := bad, sb_mutations := m\<rparr> # post,
            sc_commit := Incorporate (env_state E) (sc_commit s) m, sc_commitEpoch := epoch\<rparr>"
      by metis
    note D = chain_invD [OF inv]
    have order: "\<forall>c \<in> set pre. sb_Epoch c < epoch" "\<forall>c \<in> set post. epoch < sb_Epoch c"
      using D(1) split b by (auto simp: sorted_wrt_append)
    have late: "sc_commitEpoch s < epoch" using D(3) [of b] split b by auto
    have "sb_Status c \<noteq> StatusCommit" if "c \<in> set post" for c
      using D(3) [of c] split that order(2) late by auto
    then show ?thesis using D(1,2,4-8) split order pre b s' Pair
      by (intro chain_invI) (auto simp: sorted_wrt_append not_le)
  qed
qed

lemma chain_inv_take:
  assumes "chain_inv s"
  shows "sorted_wrt (<) (map sb_Epoch (takeWhile P (sc_recentBlocks s)))"
    and "b \<in> set (takeWhile P (sc_recentBlocks s)) \<Longrightarrow> b \<in> set (sc_recentBlocks s)"
proof -
  have "takeWhile P (sc_recentBlocks s) @ dropWhile P (sc_recentBlocks s) = sc_recentBlocks s"
    by (rule takeWhile_dropWhile_id)
  then show "sorted_wrt (<) (map sb_Epoch (takeWhile P (sc_recentBlocks s)))"
    using chain_invD(1) [OF assms] by (metis map_append sorted_wrt_append)
  show "b \<in> set (takeWhile P (sc_recentBlocks s)) \<Longrightarrow> b \<in> set (sc_recentBlocks s)"
    by (rule set_takeWhileD [THEN conjunct1])
qed

lemma before_epoch:
  assumes "sorted_wrt (<) (map sb_Epoch bs)" and "\<exists>b \<in> set bs. sb_Epoch b = epoch"
    and "c \<in> set (takeWhile (\<lambda>b. sb_Epoch b \<noteq> epoch) bs)"
  shows "sb_Epoch c < epoch"
  using assms by (induction bs) (auto split: if_splits)

lemma chain_inv_Rollback:
  assumes inv: "chain_inv s"
  shows "chain_inv (snd (sc_Rollback s epoch))"
proof (cases "epoch < sc_commitEpoch s \<or> \<not> (\<exists>b \<in> set (sc_recentBlocks s). sb_Epoch b = epoch)")
  case True
  with inv show ?thesis by (auto simp: sc_Rollback_def)
next
  case False
  note D = chain_invD [OF inv]
  from False D(1) before_epoch have "sb_Epoch c < epoch"
    if "c \<in> set (takeWhile (\<lambda>b. sb_Epoch b \<noteq> epoch) (sc_recentBlocks s))" for c
    using that by blast
  with False D(3) chain_inv_take [OF inv] show ?thesis
    by (intro chain_invI) (auto simp: sc_Rollback_def less_imp_le)
qed

lemma takeWhile_before:
  "sorted_wrt (<) (map sb_Epoch bs) \<Longrightarrow> \<exists>b \<in> set bs. sb_Epoch b = epoch \<Longrightarrow>
      takeWhile (\<lambda>b. sb_Epoch b \<noteq> epoch) bs = filter (\<lambda>b. sb_Epoch b < epoch) bs"
  by (induction bs) (auto simp: empty_filter_conv not_less less_imp_le)

text \<open>
  What the walk of \<open>Recovery\<close> leaves: the blocks before the one of the epoch, with their epochs
  and status, and the mutations of the block after the checksum point as the merges left them.
\<close>

abbreviation place_status :: "('m, 'a) social_block \<Rightarrow> u64 \<times> status" where
  "place_status b \<equiv> (sb_Epoch b, sb_Status b)"

lemma share_places [simp]: "map place_status (share_mutations e m bs) = map place_status bs"
  by (auto simp: share_mutations_def)

lemma share_share [simp]: "share_mutations e m (share_mutations e m' bs) = share_mutations e m bs"
  by (auto simp: share_mutations_def)

lemma share_append [simp]: "share_mutations e m (xs @ ys) = share_mutations e m xs @ share_mutations e m ys"
  by (simp add: share_mutations_def)

lemma share_others: "\<forall>b \<in> set bs. sb_Epoch b \<noteq> e \<Longrightarrow> share_mutations e m bs = bs"
  by (simp add: share_mutations_def map_idI)

lemma recovery_loop_places:
  "map place_status (snd (recovery_loop E checksum epoch m walked bs)) =
     map place_status (walked @ takeWhile (\<lambda>b. sb_Epoch b \<noteq> epoch) bs)"
proof (induction bs arbitrary: m walked)
  case (Cons b bs)
  show ?case using Cons.IH by (auto simp: Let_def split: prod.splits)
qed simp

definition merged_after :: "('s, 'b, 'm, 'a) social_env \<Rightarrow> 'm \<Rightarrow> ('m, 'a) social_block list \<Rightarrow> 'm" where
  "merged_after E m bs = foldl (\<lambda>m b. snd (Merge (env_state E) m [sb_mutations b])) m bs"

lemma recovery_loop_after:
  assumes "sorted_wrt (<) (map sb_Epoch bs)" and "\<forall>b \<in> set bs. checksum + 1 < sb_Epoch b"
    and "\<exists>c \<in> set bs. sb_Epoch c = epoch" and "share_mutations (checksum + 1) m walked = walked"
  shows "recovery_loop E checksum epoch m walked bs =
    (merged_after E m (filter (\<lambda>b. sb_Epoch b \<le> epoch) bs),
     share_mutations (checksum + 1) (merged_after E m (filter (\<lambda>b. sb_Epoch b \<le> epoch) bs))
       (walked @ takeWhile (\<lambda>b. sb_Epoch b \<noteq> epoch) bs))"
  using assms
proof (induction bs arbitrary: m walked)
  case Nil
  then show ?case by simp
next
  case (Cons b bs)
  define m2 where "m2 = snd (Merge (env_state E) m [sb_mutations b])"
  have late: "checksum + 1 < sb_Epoch b" "\<forall>c \<in> set bs. sb_Epoch b < sb_Epoch c" using Cons.prems by auto
  have le: "sb_Epoch b \<le> epoch" using Cons.prems(3) late(2) by (auto intro: less_imp_le)
  have ne: "sb_Epoch b \<noteq> checksum + 1" using late(1) by auto
  show ?case
  proof (cases "sb_Epoch b = epoch")
    case True
    with late(2) have "filter (\<lambda>c. sb_Epoch c \<le> epoch) bs = []" by (auto simp: filter_empty_conv)
    with True late(1) ne show ?thesis by (simp add: merged_after_def case_prod_unfold Let_def)
  next
    case False
    let ?walked = "share_mutations (checksum + 1) m2 walked @ [b]"
    have fixed: "share_mutations (checksum + 1) m2 ?walked = ?walked"
      using late(1) by (simp add: share_others)
    have "recovery_loop E checksum epoch m walked (b # bs) = recovery_loop E checksum epoch m2 ?walked bs"
      using late(1) le False ne by (simp add: m2_def case_prod_unfold Let_def)
    also have "\<dots> = (merged_after E m2 (filter (\<lambda>b. sb_Epoch b \<le> epoch) bs),
        share_mutations (checksum + 1) (merged_after E m2 (filter (\<lambda>b. sb_Epoch b \<le> epoch) bs))
          (?walked @ takeWhile (\<lambda>b. sb_Epoch b \<noteq> epoch) bs))"
      using Cons.prems False fixed by (intro Cons.IH) auto
    finally show ?thesis using le False by (simp add: m2_def merged_after_def)
  qed
qed

lemma recovery_loop_spec:
  assumes "sorted_wrt (<) (map sb_Epoch bs)" and "b \<in> set bs" and "sb_Epoch b = checksum + 1"
    and "sb_Epoch b \<le> epoch" and "\<exists>c \<in> set bs. sb_Epoch c = epoch"
    and "\<forall>w \<in> set walked. sb_Epoch w \<noteq> checksum + 1"
    and m: "m = merged_after E (sb_mutations b) (filter (\<lambda>d. sb_Epoch b < sb_Epoch d \<and> sb_Epoch d \<le> epoch) bs)"
  shows "recovery_loop E checksum epoch m0 walked bs =
    (m, share_mutations (sb_Epoch b) m (walked @ takeWhile (\<lambda>d. sb_Epoch d \<noteq> epoch) bs))"
  using assms(1-6) unfolding m
proof (induction bs arbitrary: walked)
  case Nil
  then show ?case by simp
next
  case (Cons a bs)
  show ?case
  proof (cases "b = a")
    case True
    have later: "\<forall>d \<in> set bs. checksum + 1 < sb_Epoch d" using Cons.prems True by auto
    then have f: "filter (\<lambda>d. sb_Epoch b < sb_Epoch d \<and> sb_Epoch d \<le> epoch) (a # bs) =
        filter (\<lambda>d. sb_Epoch d \<le> epoch) bs"
      using Cons.prems(3) True by (auto intro!: filter_cong)
    show ?thesis
    proof (cases "sb_Epoch a = epoch")
      case eq: True
      with later Cons.prems(3) True have "filter (\<lambda>d. sb_Epoch d \<le> epoch) bs = []"
        by (auto simp: filter_empty_conv)
      with eq f Cons.prems(3,6) True show ?thesis by (simp add: merged_after_def share_others)
    next
      case False
      have fixed: "share_mutations (checksum + 1) (sb_mutations b) (walked @ [a]) = walked @ [a]"
        using Cons.prems(3,6) True by (simp add: share_others) (simp add: share_mutations_def)
      have "recovery_loop E checksum epoch m0 walked (a # bs) =
          recovery_loop E checksum epoch (sb_mutations b) (walked @ [a]) bs"
        using Cons.prems(3) True False by simp
      also have "\<dots> = (merged_after E (sb_mutations b) (filter (\<lambda>b. sb_Epoch b \<le> epoch) bs),
          share_mutations (checksum + 1) (merged_after E (sb_mutations b) (filter (\<lambda>b. sb_Epoch b \<le> epoch) bs))
            ((walked @ [a]) @ takeWhile (\<lambda>b. sb_Epoch b \<noteq> epoch) bs))"
        using Cons.prems True False later fixed by (intro recovery_loop_after) auto
      finally show ?thesis using f Cons.prems(3) False by simp
    qed
  next
    case False
    with Cons.prems have b: "b \<in> set bs" "sb_Epoch a < sb_Epoch b" by auto
    with Cons.prems(4) have ne: "sb_Epoch a \<noteq> epoch" by auto
    have "recovery_loop E checksum epoch m0 walked (a # bs) = recovery_loop E checksum epoch m0 (walked @ [a]) bs"
      using b(2) Cons.prems(3) ne by auto
    also have "\<dots> = (merged_after E (sb_mutations b) (filter (\<lambda>d. sb_Epoch b < sb_Epoch d \<and> sb_Epoch d \<le> epoch) bs),
        share_mutations (sb_Epoch b) (merged_after E (sb_mutations b) (filter (\<lambda>d. sb_Epoch b < sb_Epoch d \<and> sb_Epoch d \<le> epoch) bs))
          ((walked @ [a]) @ takeWhile (\<lambda>d. sb_Epoch d \<noteq> epoch) bs))"
      using Cons.prems b ne by (intro Cons.IH) auto
    finally show ?thesis using b(2) ne by auto
  qed
qed

lemma sc_Recovery_blocks:
  assumes "sc_checksumEpoch s \<le> epoch" and "epoch < sc_commitEpoch s"
  shows "map place_status (sc_recentBlocks (sc_Recovery E s epoch)) =
      map place_status (takeWhile (\<lambda>b. sb_Epoch b \<noteq> epoch) (sc_recentBlocks s))"
    and "sc_commitEpoch (sc_Recovery E s epoch) = epoch"
    and "sc_live (sc_Recovery E s epoch) = None"
    and "sc_epoch (sc_Recovery E s epoch) = sc_epoch s"
  using assms recovery_loop_places
    [of E "sc_checksumEpoch s" epoch "NoMutations (env_state E)" "[]" "sc_recentBlocks s"]
  by (auto simp: sc_Recovery_def not_le split: prod.splits)

text \<open>The invariants are about the epochs and the status of the recent blocks only.\<close>

lemma same_places:
  assumes "map place_status bs = map place_status cs"
  shows "map sb_Epoch bs = map sb_Epoch cs" and "length bs = length cs"
    and "b \<in> set bs \<Longrightarrow> \<exists>c \<in> set cs. sb_Epoch c = sb_Epoch b \<and> sb_Status c = sb_Status b"
proof -
  show "map sb_Epoch bs = map sb_Epoch cs" using arg_cong [OF assms, of "map fst"] by (simp add: comp_def)
  show "length bs = length cs" using arg_cong [OF assms, of length] by simp
  have "set (map place_status bs) = set (map place_status cs)" using assms by (rule arg_cong)
  then show "b \<in> set bs \<Longrightarrow> \<exists>c \<in> set cs. sb_Epoch c = sb_Epoch b \<and> sb_Status c = sb_Status b" by force
qed

lemma chain_inv_Recovery:
  assumes inv: "chain_inv s"
    and found: "sc_checksumEpoch s \<le> epoch \<and> epoch < sc_commitEpoch s \<longrightarrow>
                  (\<exists>b \<in> set (sc_recentBlocks s). sb_Epoch b = epoch)"
  shows "chain_inv (sc_Recovery E s epoch)"
proof (cases "sc_checksumEpoch s \<le> epoch \<and> epoch < sc_commitEpoch s")
  case True
  note D = chain_invD [OF inv] and R = sc_Recovery_blocks [of s epoch E]
  note same = same_places [OF R(1)]
  have early: "sb_Epoch c < epoch \<and> sb_Epoch c \<le> sc_epoch s \<and> sb_Status c = StatusCommit"
    if c: "c \<in> set (takeWhile (\<lambda>b. sb_Epoch b \<noteq> epoch) (sc_recentBlocks s))" for c
    using before_epoch [OF D(1) found [rule_format, OF True] c] D(2,3) chain_inv_take(2) [OF inv c] True
    by auto
  have all: "sb_Epoch b < epoch \<and> sb_Epoch b \<le> sc_epoch s \<and> sb_Status b = StatusCommit"
    if "b \<in> set (sc_recentBlocks (sc_Recovery E s epoch))" for b
    using same(3) [OF _ _ that] early True by fastforce
  show ?thesis
  proof (rule chain_invI)
    show "sorted_wrt (<) (map sb_Epoch (sc_recentBlocks (sc_Recovery E s epoch)))"
      using same(1) True chain_inv_take(1) [OF inv] by simp
    show "sc_commitEpoch (sc_Recovery E s epoch) \<le> sc_epoch (sc_Recovery E s epoch)"
      using True D(4) R by auto
  qed (use True R all in \<open>auto simp: less_imp_le\<close>)
next
  case False
  with inv show ?thesis by (auto simp: sc_Recovery_def not_le)
qed

section \<open>Runs\<close>

datatype chain_op =
    OpValidate bytes
  | OpNextBlock u64
  | OpSealBlock u64 hash
  | OpCommit u64 "hash list"
  | OpRollback u64
  | OpRecovery u64

fun sc_apply ::
  "('s, 'b, 'm, 'a) social_env \<Rightarrow> ('s, 'b, 'm, 'a) social_chain \<Rightarrow> chain_op \<Rightarrow> ('s, 'b, 'm, 'a) social_chain" where
  "sc_apply E s (OpValidate a) = snd (sc_Validate E s a)"
| "sc_apply E s (OpNextBlock e) = snd (sc_NextBlock E s e)"
| "sc_apply E s (OpSealBlock e h) = snd (sc_SealBlock E s e h)"
| "sc_apply E s (OpCommit e hs) = snd (sc_Commit E s e hs)"
| "sc_apply E s (OpRollback e) = snd (sc_Rollback s e)"
| "sc_apply E s (OpRecovery e) = sc_Recovery E s e"

text \<open>
  Epoch 0 is the genesis block's and is never announced: \<open>NextBlock(0)\<close> would be accepted
  only after the epoch \<open>2 ^ 64 - 1\<close>. A recovery goes to an epoch whose block is still among
  the recent ones, which \<open>Recovery\<close> does not check.
\<close>

fun op_allowed :: "('s, 'b, 'm, 'a) social_chain \<Rightarrow> chain_op \<Rightarrow> bool" where
  "op_allowed s (OpNextBlock e) \<longleftrightarrow> e \<noteq> 0"
| "op_allowed s (OpRecovery e) \<longleftrightarrow>
     e < sc_checksumEpoch s \<or> sc_commitEpoch s \<le> e \<or> (\<exists>b \<in> set (sc_recentBlocks s). sb_Epoch b = e)"
| "op_allowed s _ \<longleftrightarrow> True"

lemma chain_inv_apply: "chain_inv s \<Longrightarrow> op_allowed s op \<Longrightarrow> chain_inv (sc_apply E s op)"
  by (cases op) (auto simp: chain_inv_Validate chain_inv_NextBlock chain_inv_SealBlock
      chain_inv_Commit chain_inv_Rollback intro!: chain_inv_Recovery)

text \<open>
  The committed history of a run: the epoch and the mutations of each commit that
  succeeds, in the order of the run.
\<close>

fun commit_record ::
  "('s, 'b, 'm, 'a) social_env \<Rightarrow> ('s, 'b, 'm, 'a) social_chain \<Rightarrow> chain_op \<Rightarrow> (u64 \<times> 'm) list" where
  "commit_record E s (OpCommit e hs) =
     (case sc_Commit E s e hs of
        (Inl err, s') \<Rightarrow> []
      | (Inr bad, s') \<Rightarrow> map (\<lambda>b. (sb_Epoch b, sb_mutations b))
                          (filter (\<lambda>b. sb_Epoch b = e) (sc_recentBlocks s')))"
| "commit_record E s _ = []"

fun sc_history ::
  "('s, 'b, 'm, 'a) social_env \<Rightarrow> ('s, 'b, 'm, 'a) social_chain \<Rightarrow> chain_op list \<Rightarrow> (u64 \<times> 'm) list" where
  "sc_history E s [] = []"
| "sc_history E s (op # ops) = commit_record E s op @ sc_history E (sc_apply E s op) ops"

fun sc_run ::
  "('s, 'b, 'm, 'a) social_env \<Rightarrow> ('s, 'b, 'm, 'a) social_chain \<Rightarrow> chain_op list \<Rightarrow> ('s, 'b, 'm, 'a) social_chain" where
  "sc_run E s [] = s"
| "sc_run E s (op # ops) = sc_run E (sc_apply E s op) ops"

text \<open>A run of allowed operations without recoveries.\<close>

fun forward_run ::
  "('s, 'b, 'm, 'a) social_env \<Rightarrow> ('s, 'b, 'm, 'a) social_chain \<Rightarrow> chain_op list \<Rightarrow> bool" where
  "forward_run E s [] \<longleftrightarrow> True"
| "forward_run E s (op # ops) \<longleftrightarrow>
     (\<forall>e. op \<noteq> OpRecovery e) \<and> op_allowed s op \<and> forward_run E (sc_apply E s op) ops"

definition replay :: "('s, 'b, 'm, 'a) social_env \<Rightarrow> (u64 \<times> 'm) list \<Rightarrow> 's \<Rightarrow> 's" where
  "replay E hist st = fold (\<lambda>(e, m) st. Incorporate (env_state E) st m) hist st"

lemma commit_unchanged_ops:
  assumes "\<forall>e hs. op \<noteq> OpCommit e hs" and "\<forall>e. op \<noteq> OpRecovery e"
  shows "sc_commit (sc_apply E s op) = sc_commit s \<and> sc_commitEpoch (sc_apply E s op) = sc_commitEpoch s"
  using assms
  by (cases op) (auto simp: sc_Validate_def sc_NextBlock_def sc_SealBlock_def sc_Rollback_def Let_def
      split: option.splits prod.splits)

lemma commit_record_step:
  assumes inv: "chain_inv s" and "\<forall>e. op \<noteq> OpRecovery e"
  shows "(commit_record E s op = [] \<and> sc_commit (sc_apply E s op) = sc_commit s \<and>
            sc_commitEpoch (sc_apply E s op) = sc_commitEpoch s) \<or>
         (\<exists>e m. commit_record E s op = [(e, m)] \<and> sc_commitEpoch s < e \<and>
            sc_commit (sc_apply E s op) = Incorporate (env_state E) (sc_commit s) m \<and>
            sc_commitEpoch (sc_apply E s op) = e)"
proof (cases "\<exists>e hs. op = OpCommit e hs")
  case True
  then obtain e hs where op: "op = OpCommit e hs" by blast
  obtain r s' where c: "sc_Commit E s e hs = (r, s')" by fastforce
  show ?thesis
  proof (cases r)
    case (Inl err)
    with c commit_failed have "s' = s" by metis
    with Inl c op show ?thesis by simp
  next
    case (Inr bad)
    from commitE [OF c [unfolded Inr]] obtain pre b post m where split: "sc_recentBlocks s = pre @ b # post"
      and b: "sb_Epoch b = e" "sb_Status b = StatusSealed"
      and s': "s' = s\<lparr>sc_recentBlocks := pre @
              b\<lparr>sb_Status := StatusCommit, sb_Invalidated := bad, sb_mutations := m\<rparr> # post,
            sc_commit := Incorporate (env_state E) (sc_commit s) m, sc_commitEpoch := e\<rparr>"
      by metis
    have "\<forall>x \<in> set pre. sb_Epoch x \<noteq> e" "\<forall>x \<in> set post. sb_Epoch x \<noteq> e"
      using chain_invD(1) [OF inv] split b(1) by (auto simp: sorted_wrt_append)
    then have "filter (\<lambda>b. sb_Epoch b = e) pre = []" "filter (\<lambda>b. sb_Epoch b = e) post = []"
      by (simp_all add: filter_empty_conv)
    moreover have "sc_commitEpoch s < e"
      using chain_invD(3) [OF inv, of b] split b by auto
    ultimately show ?thesis using op c Inr s' b(1) by simp
  qed
next
  case False
  then have "commit_record E s op = []" by (cases op) auto
  with False assms(2) commit_unchanged_ops [of op E s] show ?thesis by blast
qed

lemma replay_history:
  assumes "chain_inv s" and "forward_run E s ops"
  shows "sc_commit (sc_run E s ops) = replay E (sc_history E s ops) (sc_commit s) \<and>
    sorted_wrt (<) (map fst (sc_history E s ops)) \<and>
    (\<forall>e \<in> set (map fst (sc_history E s ops)). sc_commitEpoch s < e) \<and>
    chain_inv (sc_run E s ops)"
  using assms
proof (induction ops arbitrary: s)
  case Nil
  then show ?case by (simp add: replay_def)
next
  case (Cons op ops)
  let ?s1 = "sc_apply E s op"
  from Cons.prems have ok: "\<forall>e. op \<noteq> OpRecovery e" "op_allowed s op" "forward_run E ?s1 ops"
    by auto
  have IH: "sc_commit (sc_run E ?s1 ops) = replay E (sc_history E ?s1 ops) (sc_commit ?s1) \<and>
    sorted_wrt (<) (map fst (sc_history E ?s1 ops)) \<and>
    (\<forall>e \<in> set (map fst (sc_history E ?s1 ops)). sc_commitEpoch ?s1 < e) \<and>
    chain_inv (sc_run E ?s1 ops)"
    by (rule Cons.IH [OF chain_inv_apply [OF Cons.prems(1) ok(2)] ok(3)])
  from commit_record_step [OF Cons.prems(1) ok(1), of E] show ?case
  proof (elim disjE exE conjE)
    assume "commit_record E s op = []" "sc_commit ?s1 = sc_commit s" "sc_commitEpoch ?s1 = sc_commitEpoch s"
    with IH show ?case by simp
  next
    fix e m
    assume "commit_record E s op = [(e, m)]" "sc_commitEpoch s < e"
      "sc_commit ?s1 = Incorporate (env_state E) (sc_commit s) m" "sc_commitEpoch ?s1 = e"
    with IH show ?case by (auto simp: replay_def intro: less_trans)
  qed
qed

section \<open>What holds of every run\<close>

text \<open>
  \<open>Recovery\<close> does not check that the epoch it goes to has a block among the recent ones.
  When it has not, no block is dropped and the commit epoch goes back behind committed
  blocks, so \<open>chain_inv\<close> is lost. What is left in every run, whatever the recoveries: the
  order of the epochs, the committed blocks first, none uncommitted up to the commit epoch.
\<close>

definition chain_order :: "('s, 'b, 'm, 'a) social_chain \<Rightarrow> bool" where
  "chain_order s \<longleftrightarrow>
     sorted_wrt (<) (map sb_Epoch (sc_recentBlocks s)) \<and>
     sorted_wrt (\<lambda>a b. sb_Status b = StatusCommit \<longrightarrow> sb_Status a = StatusCommit) (sc_recentBlocks s) \<and>
     (\<forall>b \<in> set (sc_recentBlocks s). sb_Epoch b \<le> sc_epoch s \<and>
        (sb_Status b = StatusCommit \<or> sc_commitEpoch s < sb_Epoch b)) \<and>
     sc_commitEpoch s \<le> sc_epoch s \<and>
     (case sc_live s of None \<Rightarrow> True
      | Some l \<Rightarrow> sb_Epoch l = sc_epoch s \<and> sb_Status l = StatusLive \<and> sc_commitEpoch s < sb_Epoch l \<and>
          (\<forall>b \<in> set (sc_recentBlocks s). sb_Epoch b < sb_Epoch l))"

lemma chain_orderI:
  assumes "sorted_wrt (<) (map sb_Epoch (sc_recentBlocks s))"
    and "sorted_wrt (\<lambda>a b. sb_Status b = StatusCommit \<longrightarrow> sb_Status a = StatusCommit) (sc_recentBlocks s)"
    and "\<And>b. b \<in> set (sc_recentBlocks s) \<Longrightarrow> sb_Epoch b \<le> sc_epoch s"
    and "\<And>b. b \<in> set (sc_recentBlocks s) \<Longrightarrow> sb_Status b \<noteq> StatusCommit \<Longrightarrow> sc_commitEpoch s < sb_Epoch b"
    and "sc_commitEpoch s \<le> sc_epoch s"
    and "\<And>l. sc_live s = Some l \<Longrightarrow> sb_Epoch l = sc_epoch s \<and> sb_Status l = StatusLive \<and>
           sc_commitEpoch s < sb_Epoch l \<and> (\<forall>b \<in> set (sc_recentBlocks s). sb_Epoch b < sb_Epoch l)"
  shows "chain_order s"
  using assms by (auto simp: chain_order_def split: option.splits)

lemma chain_orderD:
  assumes "chain_order s"
  shows "sorted_wrt (<) (map sb_Epoch (sc_recentBlocks s))"
    "sorted_wrt (\<lambda>a b. sb_Status b = StatusCommit \<longrightarrow> sb_Status a = StatusCommit) (sc_recentBlocks s)"
    "b \<in> set (sc_recentBlocks s) \<Longrightarrow> sb_Epoch b \<le> sc_epoch s"
    "b \<in> set (sc_recentBlocks s) \<Longrightarrow> sb_Status b \<noteq> StatusCommit \<Longrightarrow> sc_commitEpoch s < sb_Epoch b"
    "sc_commitEpoch s \<le> sc_epoch s"
    "sc_live s = Some l \<Longrightarrow> sb_Epoch l = sc_epoch s"
    "sc_live s = Some l \<Longrightarrow> sb_Status l = StatusLive"
    "sc_live s = Some l \<Longrightarrow> sc_commitEpoch s < sb_Epoch l"
    "sc_live s = Some l \<Longrightarrow> b \<in> set (sc_recentBlocks s) \<Longrightarrow> sb_Epoch b < sb_Epoch l"
  using assms by (auto simp: chain_order_def split: option.splits)

lemma chain_order_new: "chain_order (NewSocialBlockChain E st epoch)"
  by (simp add: chain_order_def NewSocialBlockChain_def)

lemma chain_order_Validate: "chain_order s \<Longrightarrow> chain_order (snd (sc_Validate E s action))"
  by (auto simp: chain_order_def sc_Validate_def Let_def split: option.splits prod.splits)

lemma chain_order_NextBlock:
  assumes ord: "chain_order s" and "epoch \<noteq> 0"
  shows "chain_order (snd (sc_NextBlock E s epoch))"
proof (cases "epoch = sc_epoch s + 1")
  case True
  note D = chain_orderD [OF ord]
  have lt: "sc_epoch s < sc_epoch s + 1" using assms(2) True by (simp add: u64_less_succ)
  have below: "sb_Epoch b < sc_epoch s + 1" if "b \<in> set (sc_recentBlocks s)" for b
    using D(3) [OF that] lt by (rule le_less_trans)
  have commit: "sc_commitEpoch s < sc_epoch s + 1" using D(5) lt by (rule le_less_trans)
  show ?thesis
  proof (cases "sc_live s")
    case None
    then show ?thesis using True lt below commit D(1,2,4)
      by (intro chain_orderI) (auto simp: sc_NextBlock_def Let_def less_imp_le)
  next
    case (Some l)
    note L = D(6-9)[OF Some]
    show ?thesis using True lt below commit D(1,2,4) L Some
      by (intro chain_orderI)
        (auto simp: sc_NextBlock_def Let_def sorted_wrt_append_snoc sorted_wrt_append less_imp_le)
  qed
qed (use ord in \<open>simp add: sc_NextBlock_def\<close>)

text \<open>Sealing keeps the epochs and which blocks are committed.\<close>

lemma chain_order_same:
  assumes ord: "chain_order s" and len: "length bs = length (sc_recentBlocks s)"
    and same: "\<And>i. i < length bs \<Longrightarrow> sb_Epoch (bs ! i) = sb_Epoch (sc_recentBlocks s ! i) \<and>
        (sb_Status (bs ! i) = StatusCommit \<longleftrightarrow> sb_Status (sc_recentBlocks s ! i) = StatusCommit)"
  shows "chain_order (s\<lparr>sc_recentBlocks := bs\<rparr>)"
proof -
  note D = chain_orderD [OF ord]
  have epochs: "map sb_Epoch bs = map sb_Epoch (sc_recentBlocks s)"
    using len same by (auto intro: nth_equalityI)
  have mem: "\<exists>c \<in> set (sc_recentBlocks s). sb_Epoch c = sb_Epoch b \<and>
      (sb_Status b = StatusCommit \<longleftrightarrow> sb_Status c = StatusCommit)" if "b \<in> set bs" for b
    using that len same by (metis in_set_conv_nth)
  have "sorted_wrt (\<lambda>a b. sb_Status b = StatusCommit \<longrightarrow> sb_Status a = StatusCommit) bs"
    using D(2) len same by (simp add: sorted_wrt_iff_nth_less)
  moreover have "\<And>b. b \<in> set bs \<Longrightarrow> sb_Epoch b \<le> sc_epoch s"
    using mem D(3) by metis
  moreover have "\<And>b. b \<in> set bs \<Longrightarrow> sb_Status b \<noteq> StatusCommit \<Longrightarrow> sc_commitEpoch s < sb_Epoch b"
    using mem D(4) by metis
  moreover have "\<And>l b. sc_live s = Some l \<Longrightarrow> b \<in> set bs \<Longrightarrow> sb_Epoch b < sb_Epoch l"
    using mem D(9) by metis
  ultimately show ?thesis using epochs D(1,5-8)
    by (intro chain_orderI) auto
qed

lemma chain_order_SealBlock:
  assumes ord: "chain_order s"
  shows "chain_order (snd (sc_SealBlock E s epoch h))"
proof (cases "\<exists>l. sc_live s = Some l \<and> sb_Epoch l = epoch")
  case True
  then obtain l where l: "sc_live s = Some l" "sb_Epoch l = epoch" by blast
  note D = chain_orderD [OF ord]
  show ?thesis using l D(1-5) D(6-9)[OF l(1)]
    by (intro chain_orderI) (auto simp: sc_SealBlock_def Let_def sorted_wrt_append_snoc sorted_wrt_append)
next
  case False
  then have live: "(case sc_live s of None \<Rightarrow> None | Some l \<Rightarrow> if sb_Epoch l = epoch then Some l else None) = None"
    by (auto split: option.splits)
  show ?thesis
  proof (cases "\<exists>b. sc_findBlock s epoch = Some b \<and> \<not> StatusSealed \<le> sb_Status b")
    case False
    with live ord show ?thesis by (auto simp: sc_SealBlock_def split: option.splits)
  next
    case True
    then obtain b where b: "sc_findBlock s epoch = Some b" "\<not> StatusSealed \<le> sb_Status b" by blast
    let ?f = "\<lambda>b. sb_Epoch b = epoch" and ?seal = "\<lambda>b. b\<lparr>sb_Status := StatusSealed, sb_Origin := h\<rparr>"
    have one: "length (update_first ?f ?seal xs) = length xs \<and>
        (\<forall>i < length xs. sb_Epoch (update_first ?f ?seal xs ! i) = sb_Epoch (xs ! i) \<and>
          (sb_Status (update_first ?f ?seal xs ! i) = StatusCommit \<longleftrightarrow> sb_Status (xs ! i) = StatusCommit))"
      if "find ?f xs = Some b" for xs
      using that b(2)
      by (induction xs) (auto simp: nth_Cons StatusSealed_le_iff split: nat.splits if_splits)
    have "sc_SealBlock E s epoch h = (Inr (ActionsHash (env_actions E) (sb_Actions b)),
        s\<lparr>sc_recentBlocks := update_first ?f ?seal (sc_recentBlocks s)\<rparr>)"
      using live b by (simp add: sc_SealBlock_def)
    moreover have "chain_order (s\<lparr>sc_recentBlocks := update_first ?f ?seal (sc_recentBlocks s)\<rparr>)"
      by (rule chain_order_same [OF ord]) (use one [OF b(1) [unfolded sc_findBlock_def]] in simp_all)
    ultimately show ?thesis by simp
  qed
qed

lemma chain_order_Commit:
  assumes ord: "chain_order s"
  shows "chain_order (snd (sc_Commit E s epoch invalidated))"
proof (cases "sc_Commit E s epoch invalidated")
  case (Pair r s')
  show ?thesis
  proof (cases r)
    case (Inl err)
    with Pair ord commit_failed show ?thesis by (metis snd_conv)
  next
    case (Inr bad)
    from commitE [OF Pair [unfolded Inr]] obtain pre b post m where split: "sc_recentBlocks s = pre @ b # post"
      and pre: "\<forall>c \<in> set pre. sb_Status c = StatusCommit \<and> sb_Epoch c \<noteq> epoch"
      and b: "sb_Epoch b = epoch" "sb_Status b = StatusSealed"
      and s': "s' = s\<lparr>sc_recentBlocks := pre @
              b\<lparr>sb_Status := StatusCommit, sb_Invalidated := bad, sb_mutations := m\<rparr> # post,
            sc_commit := Incorporate (env_state E) (sc_commit s) m, sc_commitEpoch := epoch\<rparr>"
      by metis
    note D = chain_orderD [OF ord]
    have "\<forall>c \<in> set pre. sb_Epoch c < epoch" "\<forall>c \<in> set post. epoch < sb_Epoch c"
      using D(1) split b by (auto simp: sorted_wrt_append)
    moreover have "\<forall>c \<in> set post. sb_Status c \<noteq> StatusCommit"
      using D(2) split b(2) by (auto simp: sorted_wrt_append)
    ultimately show ?thesis using D(1-3,5-9) split pre b s' Pair
      by (intro chain_orderI) (auto simp: sorted_wrt_append)
  qed
qed

lemma chain_order_cut:
  assumes ord: "chain_order s" and "e \<le> sc_epoch s" and "c \<le> e" and "c \<le> sc_commitEpoch s"
    and "\<And>b. b \<in> set (takeWhile P (sc_recentBlocks s)) \<Longrightarrow> sb_Epoch b \<le> e"
  shows "chain_order (s\<lparr>sc_recentBlocks := takeWhile P (sc_recentBlocks s), sc_commit := st,
    sc_commitEpoch := c, sc_live := None, sc_epoch := e\<rparr>)"
proof -
  note D = chain_orderD [OF ord]
  have split: "takeWhile P (sc_recentBlocks s) @ dropWhile P (sc_recentBlocks s) = sc_recentBlocks s"
    by (rule takeWhile_dropWhile_id)
  have mem: "b \<in> set (takeWhile P (sc_recentBlocks s)) \<Longrightarrow> b \<in> set (sc_recentBlocks s)" for b
    by (rule set_takeWhileD [THEN conjunct1])
  have "sorted_wrt (<) (map sb_Epoch (takeWhile P (sc_recentBlocks s)))"
    using D(1) split by (metis map_append sorted_wrt_append)
  moreover have "sorted_wrt (\<lambda>a b. sb_Status b = StatusCommit \<longrightarrow> sb_Status a = StatusCommit)
      (takeWhile P (sc_recentBlocks s))"
    using D(2) split by (metis sorted_wrt_append)
  moreover have "\<And>b. b \<in> set (takeWhile P (sc_recentBlocks s)) \<Longrightarrow> sb_Status b \<noteq> StatusCommit \<Longrightarrow> c < sb_Epoch b"
    using mem D(4) assms(4) by (metis le_less_trans)
  ultimately show ?thesis using assms(3,5) by (intro chain_orderI) auto
qed

lemma chain_order_Rollback:
  assumes ord: "chain_order s"
  shows "chain_order (snd (sc_Rollback s epoch))"
proof (cases "epoch < sc_commitEpoch s \<or> \<not> (\<exists>b \<in> set (sc_recentBlocks s). sb_Epoch b = epoch)")
  case True
  with ord show ?thesis by (auto simp: sc_Rollback_def)
next
  case False
  note D = chain_orderD [OF ord]
  from False D(1) before_epoch have "sb_Epoch c \<le> epoch"
    if "c \<in> set (takeWhile (\<lambda>b. sb_Epoch b \<noteq> epoch) (sc_recentBlocks s))" for c
    using that by (blast intro: less_imp_le)
  moreover have "epoch \<le> sc_epoch s" using False D(3) by auto
  ultimately have "chain_order (s\<lparr>sc_recentBlocks := takeWhile (\<lambda>b. sb_Epoch b \<noteq> epoch) (sc_recentBlocks s),
      sc_commit := sc_commit s, sc_commitEpoch := sc_commitEpoch s, sc_live := None, sc_epoch := epoch\<rparr>)"
    using False by (intro chain_order_cut [OF ord]) auto
  with False show ?thesis by (auto simp: sc_Rollback_def)
qed

lemma chain_order_places:
  assumes "chain_order (s\<lparr>sc_recentBlocks := bs\<rparr>)" and same: "map place_status cs = map place_status bs"
  shows "chain_order (s\<lparr>sc_recentBlocks := cs\<rparr>)"
proof -
  have "chain_order ((s\<lparr>sc_recentBlocks := bs\<rparr>)\<lparr>sc_recentBlocks := cs\<rparr>)"
  proof (rule chain_order_same [OF assms(1)])
    fix i assume i: "i < length cs"
    then have "i < length bs" using same_places(2) [OF same] by simp
    then have "place_status (cs ! i) = place_status (bs ! i)"
      using arg_cong [OF same, of "\<lambda>l. l ! i"] i by simp
    then show "sb_Epoch (cs ! i) = sb_Epoch (sc_recentBlocks (s\<lparr>sc_recentBlocks := bs\<rparr>) ! i) \<and>
        (sb_Status (cs ! i) = StatusCommit \<longleftrightarrow> sb_Status (sc_recentBlocks (s\<lparr>sc_recentBlocks := bs\<rparr>) ! i) = StatusCommit)"
      by simp
  qed (use same_places(2) [OF same] in simp)
  then show ?thesis by simp
qed

lemma chain_order_Recovery:
  assumes ord: "chain_order s"
  shows "chain_order (sc_Recovery E s epoch)"
proof (cases "sc_checksumEpoch s \<le> epoch \<and> epoch < sc_commitEpoch s")
  case True
  note D = chain_orderD [OF ord]
  obtain m recent where loop: "recovery_loop E (sc_checksumEpoch s) epoch (NoMutations (env_state E)) []
      (sc_recentBlocks s) = (m, recent)" by fastforce
  have places: "map place_status recent = map place_status (takeWhile (\<lambda>b. sb_Epoch b \<noteq> epoch) (sc_recentBlocks s))"
    using recovery_loop_places [of E "sc_checksumEpoch s" epoch "NoMutations (env_state E)" "[]" "sc_recentBlocks s"]
      loop by simp
  let ?cut = "s\<lparr>sc_recentBlocks := takeWhile (\<lambda>b. sb_Epoch b \<noteq> epoch) (sc_recentBlocks s),
      sc_commit := Incorporate (env_state E) (Recover (env_state E) (sc_commit s)) m,
      sc_commitEpoch := epoch, sc_live := None, sc_epoch := sc_epoch s\<rparr>"
  have "chain_order ?cut"
    using True D(3,5) set_takeWhileD by (intro chain_order_cut [OF ord]) fastforce+
  then have "chain_order (?cut\<lparr>sc_recentBlocks := takeWhile (\<lambda>b. sb_Epoch b \<noteq> epoch) (sc_recentBlocks s)\<rparr>)"
    by (cases s) simp
  then have "chain_order (?cut\<lparr>sc_recentBlocks := recent\<rparr>)"
    by (rule chain_order_places [OF _ places])
  moreover have "sc_Recovery E s epoch = ?cut\<lparr>sc_recentBlocks := recent\<rparr>"
    using True loop by (cases s) (auto simp: sc_Recovery_def)
  ultimately show ?thesis by simp
next
  case False
  with ord show ?thesis by (auto simp: sc_Recovery_def not_le)
qed

lemma chain_order_apply:
  "chain_order s \<Longrightarrow> op \<noteq> OpNextBlock 0 \<Longrightarrow> chain_order (sc_apply E s op)"
  by (cases op) (auto simp: chain_order_Validate chain_order_NextBlock chain_order_SealBlock
      chain_order_Commit chain_order_Rollback chain_order_Recovery)

text \<open>Epoch 0 is accepted by \<open>NextBlock\<close> only after the epoch \<open>2 ^ 64 - 1\<close>.\<close>

lemma sc_epoch_apply:
  assumes "chain_order s" and "unat (sc_epoch s) + 1 < 2 ^ 64"
  shows "unat (sc_epoch (sc_apply E s op)) \<le> unat (sc_epoch s) + 1 \<and>
    (op = OpNextBlock 0 \<longrightarrow> sc_apply E s op = s)"
proof (cases op)
  case (OpNextBlock e)
  have u: "unat (sc_epoch s + 1) = unat (sc_epoch s) + 1"
    using assms(2) by (simp add: unat_word_ariths)
  then have "sc_epoch s + 1 \<noteq> 0" by (metis add_is_0 one_neq_zero unat_0)
  with u show ?thesis by (auto simp: OpNextBlock sc_NextBlock_def Let_def)
next
  case (OpRollback e)
  with chain_orderD(3) [OF assms(1)] show ?thesis
    by (fastforce simp: sc_Rollback_def word_le_nat_alt le_SucI)
next
  case (OpCommit e hs)
  obtain r s' where c: "sc_Commit E s e hs = (r, s')" by fastforce
  have "sc_epoch s' = sc_epoch s"
  proof (cases r)
    case (Inl err)
    with c commit_failed show ?thesis by metis
  next
    case (Inr bad)
    from commitE [OF c [unfolded Inr]] show ?thesis by fastforce
  qed
  with OpCommit c show ?thesis by simp
qed (auto simp: sc_Validate_def sc_SealBlock_def sc_Recovery_def Let_def split: option.splits prod.splits if_splits)

text \<open>The recoveries of a run find a block of their epoch, unless they are refused.\<close>

fun recoveries_known ::
  "('s, 'b, 'm, 'a) social_env \<Rightarrow> ('s, 'b, 'm, 'a) social_chain \<Rightarrow> chain_op list \<Rightarrow> bool" where
  "recoveries_known E s [] \<longleftrightarrow> True"
| "recoveries_known E s (op # ops) \<longleftrightarrow>
     (\<forall>e. op = OpRecovery e \<longrightarrow> op_allowed s op) \<and> recoveries_known E (sc_apply E s op) ops"

lemma run_order:
  assumes "chain_order s" and "unat (sc_epoch s) + length ops < 2 ^ 64"
  shows "chain_order (sc_run E s ops) \<and>
    (chain_inv s \<longrightarrow> recoveries_known E s ops \<longrightarrow> chain_inv (sc_run E s ops))"
  using assms
proof (induction ops arbitrary: s)
  case Nil
  then show ?case by simp
next
  case (Cons op ops)
  let ?s1 = "sc_apply E s op"
  have "unat (sc_epoch s) + 1 < 2 ^ 64" using Cons.prems(2) by simp
  note E = sc_epoch_apply [OF Cons.prems(1) this, of E op]
  have "chain_order ?s1" using E chain_order_apply [OF Cons.prems(1)] Cons.prems(1) by metis
  moreover have "unat (sc_epoch ?s1) + length ops < 2 ^ 64" using E Cons.prems(2) by simp
  ultimately have IH: "chain_order (sc_run E ?s1 ops) \<and>
      (chain_inv ?s1 \<longrightarrow> recoveries_known E ?s1 ops \<longrightarrow> chain_inv (sc_run E ?s1 ops))"
    by (rule Cons.IH)
  have "chain_inv ?s1" if "chain_inv s" "recoveries_known E s (op # ops)"
  proof (cases "op = OpNextBlock 0")
    case True
    with E that(1) show ?thesis by simp
  next
    case False
    with that(2) have "op_allowed s op" by (cases op) auto
    with that(1) show ?thesis by (rule chain_inv_apply)
  qed
  with IH show ?case by simp
qed

section \<open>Revalidation\<close>

text \<open>The validator after a list of actions, and the actions a revalidation reports.\<close>

fun validate_all ::
  "('s, 'b, 'm, 'a) social_env \<Rightarrow> 's \<Rightarrow> 'b \<Rightarrow> bytes list \<Rightarrow> 'b" where
  "validate_all E st v [] = v"
| "validate_all E st v (a # rest) = validate_all E st (snd (BlockValidate (env_state E) st v a)) rest"

definition rejected_at ::
  "('s, 'b, 'm, 'a) social_env \<Rightarrow> 's \<Rightarrow> hash list \<Rightarrow> 'b \<Rightarrow> bytes list \<Rightarrow> nat \<Rightarrow> bool" where
  "rejected_at E st invalidated v xs i \<longleftrightarrow>
     Hasher (env_crypto E) (xs ! i) \<in> set invalidated \<or>
     \<not> fst (BlockValidate (env_state E) st
          (validate_all E st v (filter (\<lambda>a. Hasher (env_crypto E) a \<notin> set invalidated) (take i xs))) (xs ! i))"

definition reported ::
  "('s, 'b, 'm, 'a) social_env \<Rightarrow> 's \<Rightarrow> hash list \<Rightarrow> 'b \<Rightarrow> bytes list \<Rightarrow> hash list" where
  "reported E st invalidated v xs =
     concat (map (\<lambda>i. if rejected_at E st invalidated v xs i then [Hasher (env_crypto E) (xs ! i)] else [])
                 [0..<length xs])"

lemma reported_Cons:
  "reported E st nv v (a # xs) =
     (if Hasher (env_crypto E) a \<in> set nv then Hasher (env_crypto E) a # reported E st nv v xs
      else (case BlockValidate (env_state E) st v a of (ok, v') \<Rightarrow>
              (if ok then [] else [Hasher (env_crypto E) a]) @ reported E st nv v' xs))"
proof -
  have "[0..<length (a # xs)] = 0 # map Suc [0..<length xs]"
    by (simp add: map_Suc_upt upt_conv_Cons del: upt_Suc)
  then have "reported E st nv v (a # xs) =
      (if rejected_at E st nv v (a # xs) 0 then [Hasher (env_crypto E) a] else []) @
      concat (map (\<lambda>i. if rejected_at E st nv v (a # xs) (Suc i) then [Hasher (env_crypto E) (xs ! i)] else [])
                [0..<length xs])"
    by (simp only: reported_def list.map map_map comp_def concat.simps nth_Cons_0 nth_Cons_Suc)
  then show ?thesis
    by (simp add: reported_def rejected_at_def split: prod.splits)
qed

lemma revalidate_loop_spec:
  "revalidate_loop E st nv v acc xs =
     (acc @ reported E st nv v xs,
      validate_all E st v (filter (\<lambda>a. Hasher (env_crypto E) a \<notin> set nv) xs))"
proof (induction xs arbitrary: v acc)
  case Nil
  then show ?case by (simp add: reported_def)
next
  case (Cons a xs)
  then show ?case by (auto simp: reported_Cons Let_def split: prod.splits)
qed

text \<open>
  The live validation: \<open>accepted\<close> are the actions that entered the live block, after
  \<open>Transform\<close>. \<open>refusals_kept\<close> says of a run that no action it refuses changed the
  validator; the interface does not ask it of a protocol.
\<close>

fun validate_list ::
  "('s, 'b, 'm, 'a) social_env \<Rightarrow> ('s, 'b, 'm, 'a) social_chain \<Rightarrow> bytes list \<Rightarrow> ('s, 'b, 'm, 'a) social_chain" where
  "validate_list E s [] = s"
| "validate_list E s (a # rest) = validate_list E (snd (sc_Validate E s a)) rest"

fun refusals_kept ::
  "('s, 'b, 'm, 'a) social_env \<Rightarrow> ('s, 'b, 'm, 'a) social_chain \<Rightarrow> bytes list \<Rightarrow> bool" where
  "refusals_kept E s [] \<longleftrightarrow> True"
| "refusals_kept E s (a # rest) \<longleftrightarrow>
     (\<not> fst (sc_Validate E s a) \<longrightarrow> sc_validator (snd (sc_Validate E s a)) = sc_validator s) \<and>
     refusals_kept E (snd (sc_Validate E s a)) rest"

lemma reported_disjoint:
  assumes "\<forall>x \<in> set xs. Hasher (env_crypto E) x \<notin> set nv"
  shows "reported E st nv v xs = reported E st [] v xs"
  using assms
proof (induction xs arbitrary: v)
  case Nil
  then show ?case by (simp add: reported_def)
next
  case (Cons a xs)
  then show ?case by (auto simp: reported_Cons split: prod.splits)
qed

lemma all_actions_view:
  assumes "actions_are_lists A view"
  shows "all_actions A a = view a"
  unfolding all_actions_def
  by (rule nth_equalityI) (simp_all add: actions_are_listsD [OF assms])

lemma validate_all_append: "validate_all E st v (xs @ ys) = validate_all E st (validate_all E st v xs) ys"
  by (induction xs arbitrary: v) auto

definition agrees :: "('s, 'b, 'm, 'a) social_env \<Rightarrow> ('a \<Rightarrow> bytes list) \<Rightarrow> ('s, 'b, 'm, 'a) social_chain \<Rightarrow> bool" where
  "agrees E view s \<longleftrightarrow> (\<forall>l. sc_live s = Some l \<longrightarrow>
     sc_validator s = validate_all E (sc_commit s) (Validator (env_state E) (sc_commit s)) (view (sb_Actions l)) \<and>
     reported E (sc_commit s) [] (Validator (env_state E) (sc_commit s)) (view (sb_Actions l)) = [])"

lemma reported_snoc:
  "reported E st [] v (xs @ [a]) = reported E st [] v xs @
     (if fst (BlockValidate (env_state E) st (validate_all E st v xs) a) then [] else [Hasher (env_crypto E) a])"
proof (induction xs arbitrary: v)
  case Nil
  then show ?case by (simp add: reported_def rejected_at_def)
next
  case (Cons x xs)
  then show ?case by (auto simp: reported_Cons split: prod.splits)
qed

lemma agrees_Validate:
  assumes A: "actions_are_lists (env_actions E) view"
    and keep: "\<not> fst (sc_Validate E s a) \<longrightarrow> sc_validator (snd (sc_Validate E s a)) = sc_validator s"
    and "agrees E view s"
  shows "agrees E view (snd (sc_Validate E s a)) \<and> sc_commit (snd (sc_Validate E s a)) = sc_commit s"
proof (cases "sc_live s")
  case None
  with assms(3) show ?thesis by (simp add: sc_Validate_def Let_def)
next
  case (Some l)
  define x where "x = (case sc_Transform s of None \<Rightarrow> a | Some f \<Rightarrow> f a)"
  obtain ok v where bv: "BlockValidate (env_state E) (sc_commit s) (sc_validator s) x = (ok, v)"
    by fastforce
  have old: "sc_validator s = validate_all E (sc_commit s) (Validator (env_state E) (sc_commit s)) (view (sb_Actions l))"
    "reported E (sc_commit s) [] (Validator (env_state E) (sc_commit s)) (view (sb_Actions l)) = []"
    using assms(3) Some by (auto simp: agrees_def)
  show ?thesis
  proof (cases "length x > 0 \<and> ok")
    case True
    then have "snd (sc_Validate E s a) = s\<lparr>sc_validator := v,
        sc_live := Some (l\<lparr>sb_Actions := ActionsAppend (env_actions E) (sb_Actions l) x\<rparr>)\<rparr>"
      using Some bv by (simp add: sc_Validate_def x_def Let_def)
    then show ?thesis using old bv True
      by (simp add: agrees_def actions_are_listsD [OF A] validate_all_append reported_snoc)
  next
    case False
    then have "snd (sc_Validate E s a) = s \<or> snd (sc_Validate E s a) = s\<lparr>sc_validator := v\<rparr> \<and> \<not> ok"
      using Some bv by (auto simp: sc_Validate_def x_def Let_def)
    moreover have "\<not> fst (sc_Validate E s a)"
      using Some bv False by (auto simp: sc_Validate_def x_def Let_def)
    ultimately show ?thesis using assms(3) keep by (auto simp: agrees_def)
  qed
qed

lemma agrees_list:
  assumes "actions_are_lists (env_actions E) view" and "refusals_kept E s xs" and "agrees E view s"
  shows "agrees E view (validate_list E s xs) \<and> sc_commit (validate_list E s xs) = sc_commit s"
  using assms(2,3)
proof (induction xs arbitrary: s)
  case Nil
  then show ?case by simp
next
  case (Cons a xs)
  from Cons.prems(1) have "\<not> fst (sc_Validate E s a) \<longrightarrow> sc_validator (snd (sc_Validate E s a)) = sc_validator s"
    and rest: "refusals_kept E (snd (sc_Validate E s a)) xs"
    by simp_all
  from agrees_Validate [OF assms(1) this(1) Cons.prems(2)] Cons.IH [OF rest] show ?case by simp
qed

section \<open>Commit against its specification\<close>

text \<open>The walk of \<open>Commit\<close>, said over the list: it is decided by the first block not committed.\<close>

definition commit_spec ::
  "('s, 'b, 'm, 'a) social_env \<Rightarrow> ('s, 'b, 'm, 'a) social_chain \<Rightarrow> u64 \<Rightarrow> hash list \<Rightarrow>
     (chain_error + hash list) \<times> ('s, 'b, 'm, 'a) social_chain" where
  "commit_spec E s epoch invalidated =
     (if \<exists>b \<in> set (sc_recentBlocks s). sb_Epoch b = epoch \<and> sb_Status b = StatusCommit
      then (Inl (AlreadyCommitted epoch), s)
      else case find (\<lambda>b. sb_Status b \<noteq> StatusCommit) (sc_recentBlocks s) of
        None \<Rightarrow> (Inl (BlockNotFound epoch), s)
      | Some b \<Rightarrow>
          if sb_Epoch b \<noteq> epoch then (Inl (NonSequentialCommit (sb_Epoch b) epoch), s)
          else if sb_Status b \<noteq> StatusSealed then (Inl (NotSealed epoch), s)
          else (case sc_revalidate E s (sb_Actions b) invalidated of (bad, m) \<Rightarrow>
            (Inr bad,
             s\<lparr>sc_recentBlocks := update_first (\<lambda>c. sb_Epoch c = epoch)
                 (\<lambda>c. c\<lparr>sb_Status := StatusCommit, sb_Invalidated := bad, sb_mutations := m\<rparr>)
                 (sc_recentBlocks s),
               sc_commit := Incorporate (env_state E) (sc_commit s) m,
               sc_commitEpoch := epoch\<rparr>)))"

lemma find_last: "\<forall>y \<in> set xs. f y \<noteq> f x \<Longrightarrow> find (\<lambda>y. f y = f x) (xs @ [x]) = Some x"
  by (induction xs) auto

lemma update_first_append:
  "update_first p f (xs @ ys) =
     (if \<exists>x \<in> set xs. p x then update_first p f xs @ ys else xs @ update_first p f ys)"
  by (induction xs) auto

lemma commit_loop_spec:
  assumes "sorted_wrt (<) (map sb_Epoch (walked @ bs))"
    and "\<And>b c. b \<in> set bs \<Longrightarrow> c \<in> set bs \<Longrightarrow> sb_Status c = StatusCommit \<Longrightarrow> sb_Epoch b \<le> sb_Epoch c \<Longrightarrow>
           sb_Status b = StatusCommit"
    and "\<forall>c \<in> set walked. sb_Status c = StatusCommit \<and> sb_Epoch c \<noteq> epoch"
    and "sc_recentBlocks s = walked @ bs"
  shows "commit_loop E s epoch invalidated walked bs = commit_spec E s epoch invalidated"
  using assms
proof (induction bs arbitrary: walked)
  case Nil
  then have "find (\<lambda>b. sb_Status b \<noteq> StatusCommit) (sc_recentBlocks s) = None"
    by (auto simp: find_None_iff)
  with Nil show ?case by (auto simp: commit_spec_def)
next
  case (Cons b rest)
  have later: "sb_Epoch b < sb_Epoch c" if "c \<in> set rest" for c
    using Cons.prems(1) that by (auto simp: sorted_wrt_append)
  have no_walk: "find (\<lambda>b. sb_Status b \<noteq> StatusCommit) (walked @ b # rest) =
      (if sb_Status b \<noteq> StatusCommit then Some b else find (\<lambda>b. sb_Status b \<noteq> StatusCommit) rest)"
    using Cons.prems(3) by (induction walked) auto
  show ?case
  proof (cases "sb_Status b = StatusCommit \<and> sb_Epoch b \<noteq> epoch")
    case True
    then have "commit_loop E s epoch invalidated walked (b # rest) =
        commit_loop E s epoch invalidated (walked @ [b]) rest" by simp
    also have "\<dots> = commit_spec E s epoch invalidated"
    proof (rule Cons.IH)
      show "sorted_wrt (<) (map sb_Epoch ((walked @ [b]) @ rest))" using Cons.prems(1) by simp
      show "sc_recentBlocks s = (walked @ [b]) @ rest" using Cons.prems(4) by simp
      show "\<forall>c \<in> set (walked @ [b]). sb_Status c = StatusCommit \<and> sb_Epoch c \<noteq> epoch"
        using Cons.prems(3) True by simp
    qed (meson Cons.prems(2) list.set_intros(2))
    finally show ?thesis .
  next
    case False
    show ?thesis
    proof (cases "sb_Status b = StatusCommit")
      case True
      with False Cons.prems(4) show ?thesis by (auto simp: commit_spec_def)
    next
      case open_b: False
      have none: "\<not> (\<exists>c \<in> set (sc_recentBlocks s). sb_Epoch c = epoch \<and> sb_Status c = StatusCommit)"
      proof
        assume "\<exists>c \<in> set (sc_recentBlocks s). sb_Epoch c = epoch \<and> sb_Status c = StatusCommit"
        then obtain c where c: "c \<in> set (b # rest)" "sb_Status c = StatusCommit" "sb_Epoch c = epoch"
          using Cons.prems(3,4) by auto
        then have "sb_Epoch b \<le> sb_Epoch c" using later by (auto simp: less_imp_le)
        with Cons.prems(2) [of b c] c open_b show False by simp
      qed
      have first: "find (\<lambda>b. sb_Status b \<noteq> StatusCommit) (sc_recentBlocks s) = Some b"
        using no_walk open_b Cons.prems(4) by simp
      have upd: "update_first (\<lambda>c. sb_Epoch c = epoch) f (sc_recentBlocks s) = walked @ f b # rest"
        if "sb_Epoch b = epoch" for f
        using that Cons.prems(3) by (simp add: Cons.prems(4) update_first_append)
      have spec: "commit_spec E s epoch invalidated =
         (if sb_Epoch b \<noteq> epoch then (Inl (NonSequentialCommit (sb_Epoch b) epoch), s)
          else if sb_Status b \<noteq> StatusSealed then (Inl (NotSealed epoch), s)
          else (case sc_revalidate E s (sb_Actions b) invalidated of (bad, m) \<Rightarrow>
            (Inr bad,
             s\<lparr>sc_recentBlocks := update_first (\<lambda>c. sb_Epoch c = epoch)
                 (\<lambda>c. c\<lparr>sb_Status := StatusCommit, sb_Invalidated := bad, sb_mutations := m\<rparr>)
                 (sc_recentBlocks s),
               sc_commit := Incorporate (env_state E) (sc_commit s) m,
               sc_commitEpoch := epoch\<rparr>)))"
        unfolding commit_spec_def if_not_P [OF none] first option.case ..
      show ?thesis
      proof (cases "sb_Epoch b = epoch")
        case True
        show ?thesis unfolding spec upd [OF True] using open_b True by simp
      next
        case False
        with open_b show ?thesis unfolding spec by simp
      qed
    qed
  qed
qed

lemma sc_Commit_spec:
  assumes "chain_inv s"
  shows "sc_Commit E s epoch invalidated = commit_spec E s epoch invalidated"
  unfolding sc_Commit_def
proof (rule commit_loop_spec)
  fix b c
  assume "b \<in> set (sc_recentBlocks s)" "c \<in> set (sc_recentBlocks s)"
    "sb_Status c = StatusCommit" "sb_Epoch b \<le> sb_Epoch c"
  then show "sb_Status b = StatusCommit"
    using chain_invD(3) [OF assms] by (metis order_trans)
qed (use chain_invD(1) [OF assms] in auto)

section \<open>A concrete protocol\<close>

text \<open>
  A protocol for the witnesses: an action is valid once; mutations are the lists of
  actions, the state lists what was incorporated.
\<close>

definition demo_protocol :: "(bytes list, bytes list, bytes list) stateful" where
  "demo_protocol = \<lparr>Merge = (\<lambda>m ms. (m @ concat ms, m)),
     BlockValidate = (\<lambda>st v a. if a \<in> set v \<or> a \<in> set st then (False, v) else (True, v @ [a])),
     Mutations = (\<lambda>v. v), Validator = (\<lambda>st. []), Incorporate = (\<lambda>st m. st @ m),
     Recover = (\<lambda>st. []), NoMutations = []\<rparr>"

definition demo_env :: "(bytes list, bytes list, bytes list, bytes list) social_env" where
  "demo_env = \<lparr>env_state = demo_protocol, env_actions = demo_actions, env_crypto = demo_crypto\<rparr>"

lemmas demo_defs = demo_env_def demo_protocol_def demo_actions_def demo_crypto_def

definition demo_chain :: "(bytes list, bytes list, bytes list, bytes list) social_chain" where
  "demo_chain = NewSocialBlockChain demo_env [] 0"

text \<open>Two blocks announced, two actions in the first, which is sealed.\<close>

definition demo_ops :: "chain_op list" where
  "demo_ops = [OpNextBlock 1, OpValidate [7], OpValidate [8, 9], OpNextBlock 2, OpSealBlock 1 [5, 5]]"

lemma demo_chain_inv: "chain_inv demo_chain"
  by (simp add: demo_chain_def chain_inv_new)

lemma demo_forward: "forward_run demo_env demo_chain demo_ops"
  by (simp add: demo_ops_def)

lemma demo_run_inv: "chain_inv (sc_run demo_env demo_chain demo_ops)"
  using replay_history [OF demo_chain_inv demo_forward] by blast

section \<open>Properties\<close>

text \<open>C1: In every run of a new chain, whatever the operations and the recoveries, provided
  the epoch counter does not wrap in it: block epochs strictly increase up to the live block,
  which has the chain's epoch, the committed blocks come first, and no block up to the commit
  epoch is uncommitted (\<open>chain_order\<close>). If moreover every recovery that is not refused goes
  to an epoch whose block is still among the recent ones, which \<open>Recovery\<close> does not check,
  then exactly the blocks up to the commit epoch are committed (\<open>chain_inv\<close>). The example
  shows a recovery to an epoch without a block, after which a block is committed and the
  commit epoch is before it.\<close>

theorem social_chain_invariant:
  assumes "unat epoch + length ops < 2 ^ 64"
  shows "chain_order (sc_run E (NewSocialBlockChain E st epoch) ops) \<and>
    (recoveries_known E (NewSocialBlockChain E st epoch) ops \<longrightarrow>
       chain_inv (sc_run E (NewSocialBlockChain E st epoch) ops))"
  using run_order [of "NewSocialBlockChain E st epoch" ops E, OF chain_order_new] assms
  by (simp add: NewSocialBlockChain_def chain_inv_new [unfolded NewSocialBlockChain_def])

definition unknown_recovery :: "chain_op list" where
  "unknown_recovery = [OpNextBlock 1, OpNextBlock 2, OpSealBlock 1 [], OpCommit 1 [], OpRecovery 0]"

theorem social_chain_invariant_witness:
  "chain_inv (sc_run demo_env demo_chain (demo_ops @ [OpCommit 1 []])) \<and>
   chain_order (sc_run demo_env demo_chain unknown_recovery) \<and>
   \<not> chain_inv (sc_run demo_env demo_chain unknown_recovery) \<and>
   sc_commitEpoch (sc_run demo_env demo_chain unknown_recovery) = 0 \<and>
   map (\<lambda>b. (sb_Epoch b, sb_Status b)) (sc_recentBlocks (sc_run demo_env demo_chain unknown_recovery)) =
     [(1, StatusCommit)]"
proof -
  let ?s = "sc_run demo_env demo_chain unknown_recovery"
  have good: "recoveries_known demo_env demo_chain (demo_ops @ [OpCommit 1 []])"
    by (simp add: demo_ops_def)
  have state: "sc_commitEpoch ?s = 0 \<and>
      map (\<lambda>b. (sb_Epoch b, sb_Status b)) (sc_recentBlocks ?s) = [(1, StatusCommit)]"
    by code_simp
  then obtain b where "sc_recentBlocks ?s = [b]" "sb_Epoch b = 1" "sb_Status b = StatusCommit" by auto
  with state have "\<not> chain_inv ?s" by (simp add: chain_inv_def)
  moreover have "chain_order ?s"
    using social_chain_invariant [of 0 unknown_recovery demo_env "[]"]
    by (simp add: demo_chain_def unknown_recovery_def)
  moreover have "chain_inv (sc_run demo_env demo_chain (demo_ops @ [OpCommit 1 []]))"
    using social_chain_invariant [of 0 "demo_ops @ [OpCommit 1 []]" demo_env "[]"] good
    by (simp add: demo_chain_def demo_ops_def)
  ultimately show ?thesis using state by blast
qed

text \<open>C2: Over any run without recoveries, the commits happen in strictly increasing epoch
  order, all after the commit epoch the run starts from, and the committed state is the
  initial one with exactly the mutations of the commits incorporated, in that order.\<close>

theorem commit_history:
  assumes "chain_inv s" and "forward_run E s ops"
  shows "sc_commit (sc_run E s ops) = replay E (sc_history E s ops) (sc_commit s) \<and>
    sorted_wrt (<) (sc_commitEpoch s # map fst (sc_history E s ops))"
  using replay_history [OF assms] by simp

theorem commit_history_witness:
  "sc_commit (sc_run demo_env demo_chain (demo_ops @ [OpCommit 1 []])) = [[7], [8, 9]] \<and>
   sc_history demo_env demo_chain (demo_ops @ [OpCommit 1 []]) = [(1, [[7], [8, 9]])] \<and>
   sorted_wrt (<) (sc_commitEpoch demo_chain # map fst (sc_history demo_env demo_chain (demo_ops @ [OpCommit 1 []])))"
proof -
  have "forward_run demo_env demo_chain (demo_ops @ [OpCommit 1 []])"
    by (simp add: demo_ops_def)
  note * = commit_history [OF demo_chain_inv this]
  have "sc_history demo_env demo_chain (demo_ops @ [OpCommit 1 []]) = [(1, [[7], [8, 9]])]"
    by code_simp
  with * show ?thesis by (simp add: replay_def demo_chain_def NewSocialBlockChain_def demo_defs)
qed

text \<open>C3: \<open>Commit\<close> on every branch: it is decided by the first block not yet committed. If
  that block has the epoch and is sealed, it is revalidated, marked committed in place and
  its mutations are incorporated; otherwise the call reports the error of that branch and
  changes nothing.\<close>

theorem Commit_spec:
  assumes "chain_inv s"
  shows "sc_Commit E s epoch invalidated = commit_spec E s epoch invalidated"
  using sc_Commit_spec [OF assms] .

theorem Commit_spec_witness:
  "sc_Commit demo_env (sc_run demo_env demo_chain demo_ops) 1 [] =
     commit_spec demo_env (sc_run demo_env demo_chain demo_ops) 1 []"
  using Commit_spec [OF demo_run_inv] .

text \<open>C4: Revalidation of a block reports, in order, exactly the hashes of the actions that were
  announced as invalidated or that the validator refuses, where the validator has seen only
  the earlier actions not announced as invalidated; the mutations are that validator's.\<close>

theorem revalidate_spec:
  "sc_revalidate E s a invalidated =
     (let xs = all_actions (env_actions E) a; v = Validator (env_state E) (sc_commit s)
      in (reported E (sc_commit s) invalidated v xs,
          Mutations (env_state E) (validate_all E (sc_commit s) v
             (filter (\<lambda>x. Hasher (env_crypto E) x \<notin> set invalidated) xs))))"
  by (simp add: sc_revalidate_def revalidate_loop_spec Let_def)

text \<open>C5: Live validation agrees with revalidation, under three conditions the code leaves to
  the protocol and to the caller: the committed state has not changed since the live block
  was opened (the run from \<open>NextBlock\<close> holds only validations), no action refused in the run
  changed the validator, and none of the block's actions is announced as invalidated. Then
  revalidating the live block reports none of its actions and gives the live validator's
  mutations.\<close>

theorem live_validation_agrees:
  assumes "actions_are_lists (env_actions E) view" and "sc_NextBlock E s0 epoch = (None, s)"
    and "refusals_kept E s xs" and "sc_live (validate_list E s xs) = Some l"
    and "\<forall>x \<in> set (view (sb_Actions l)). Hasher (env_crypto E) x \<notin> set invalidated"
  shows "sc_revalidate E (validate_list E s xs) (sb_Actions l) invalidated =
     ([], Mutations (env_state E) (sc_validator (validate_list E s xs)))"
proof -
  have "agrees E view s"
    using assms(2) actions_are_listsD(1) [OF assms(1)]
    by (auto simp: sc_NextBlock_def agrees_def reported_def Let_def split: if_splits)
  then have "agrees E view (validate_list E s xs)"
    using agrees_list [OF assms(1,3)] by blast
  moreover have "filter (\<lambda>x. Hasher (env_crypto E) x \<notin> set invalidated) (view (sb_Actions l)) = view (sb_Actions l)"
    using assms(5) by (simp add: filter_id_conv)
  ultimately show ?thesis using assms(4)
    by (simp add: agrees_def sc_revalidate_def revalidate_loop_spec all_actions_view [OF assms(1)]
        reported_disjoint [OF assms(5)])
qed

theorem live_validation_agrees_witness:
  "sc_revalidate demo_env (validate_list demo_env (sc_apply demo_env demo_chain (OpNextBlock 1)) [[7], [8, 9], [7]])
     [[7], [8, 9]] [[6, 6]] = ([], [[7], [8, 9]])"
proof -
  let ?s = "sc_apply demo_env demo_chain (OpNextBlock 1)"
  note defs = sc_NextBlock_def sc_Validate_def demo_chain_def NewSocialBlockChain_def Let_def demo_defs
  have n: "sc_NextBlock demo_env demo_chain 1 = (None, ?s)" by (simp add: defs)
  obtain l where l: "sc_live (validate_list demo_env ?s [[7], [8, 9], [7]]) = Some l" "sb_Actions l = [[7], [8, 9]]"
    by (simp add: defs)
  have a: "actions_are_lists (env_actions demo_env) (\<lambda>a. a)"
    using demo_actions_are_lists by (simp add: demo_env_def)
  have k: "refusals_kept demo_env ?s [[7], [8, 9], [7]]" by (simp add: defs)
  have h: "\<forall>x \<in> set (sb_Actions l). Hasher (env_crypto demo_env) x \<notin> set [[6, 6]]"
    using l(2) by (simp add: demo_defs)
  have "sc_validator (validate_list demo_env ?s [[7], [8, 9], [7]]) = [[7], [8, 9]]" by (simp add: defs)
  with live_validation_agrees [OF a n k l(1) h] l(2) show ?thesis by (simp add: demo_defs)
qed

text \<open>C6: Sealing the live block fails: the block is moved to the recent ones unsealed, there is
  no live block any more, and the error says the block was not found. Sealing it a second
  time succeeds and changes only its status and origin.\<close>

theorem SealBlock_live:
  assumes "chain_inv s" and "sc_live s = Some l"
  shows "sc_SealBlock E s (sb_Epoch l) h =
           (Inl (BlockNotFound (sb_Epoch l)), s\<lparr>sc_recentBlocks := sc_recentBlocks s @ [l], sc_live := None\<rparr>) \<and>
         sc_SealBlock E (snd (sc_SealBlock E s (sb_Epoch l) h)) (sb_Epoch l) h2 =
           (Inr (ActionsHash (env_actions E) (sb_Actions l)),
            s\<lparr>sc_recentBlocks := sc_recentBlocks s @ [l\<lparr>sb_Status := StatusSealed, sb_Origin := h2\<rparr>], sc_live := None\<rparr>)"
proof -
  have others: "\<forall>b \<in> set (sc_recentBlocks s). sb_Epoch b \<noteq> sb_Epoch l"
    using chain_invD(8) [OF assms] by (metis less_irrefl)
  then have "find (\<lambda>b. sb_Epoch b = sb_Epoch l) (sc_recentBlocks s @ [l]) = Some l"
    by (rule find_last)
  with others assms(2) chain_invD(6) [OF assms] show ?thesis
    by (auto simp: sc_SealBlock_def sc_findBlock_def StatusSealed_le_iff update_first_append)
qed

theorem SealBlock_live_witness:
  "fst (sc_SealBlock demo_env (sc_apply demo_env demo_chain (OpNextBlock 1)) 1 [9, 9]) = Inl (BlockNotFound 1)"
proof -
  let ?s = "sc_apply demo_env demo_chain (OpNextBlock 1)"
  have inv: "chain_inv ?s" by (rule chain_inv_apply) (simp_all add: demo_chain_inv)
  obtain l where "sc_live ?s = Some l" "sb_Epoch l = 1"
    by (simp add: sc_NextBlock_def demo_chain_def NewSocialBlockChain_def Let_def)
  with SealBlock_live [OF inv, of l demo_env "[9, 9]"] show ?thesis by simp
qed

text \<open>C7: After a successful rollback to an epoch the chain is at that epoch with no live block
  and only earlier blocks, the committed state is untouched, the next block accepted is the
  following one, and the block of the epoch itself can no longer be committed.\<close>

theorem Rollback_spec:
  assumes "chain_inv s" and "sc_Rollback s epoch = (None, s')"
  shows "sc_epoch s' = epoch \<and> sc_live s' = None \<and> sc_commit s' = sc_commit s \<and>
    sc_recentBlocks s' = filter (\<lambda>b. sb_Epoch b < epoch) (sc_recentBlocks s) \<and>
    (fst (sc_NextBlock E s' e) = None \<longleftrightarrow> e = epoch + 1) \<and>
    (\<exists>err. sc_Commit E s' epoch invalidated = (Inl err, s'))"
proof -
  have ex: "\<exists>b \<in> set (sc_recentBlocks s). sb_Epoch b = epoch"
    and s': "s' = s\<lparr>sc_recentBlocks := takeWhile (\<lambda>b. sb_Epoch b \<noteq> epoch) (sc_recentBlocks s),
                 sc_live := None, sc_epoch := epoch\<rparr>"
    using assms(2) by (auto simp: sc_Rollback_def split: if_splits)
  have blocks: "sc_recentBlocks s' = filter (\<lambda>b. sb_Epoch b < epoch) (sc_recentBlocks s)"
    using takeWhile_before [OF chain_invD(1) [OF assms(1)] ex] s' by simp
  obtain r s2 where c: "sc_Commit E s' epoch invalidated = (r, s2)" by fastforce
  have "\<exists>err. r = Inl err"
  proof (cases r)
    case (Inr bad)
    with c have "\<exists>b \<in> set (sc_recentBlocks s'). sb_Epoch b = epoch"
      using commit_loop_Inr [of E s' epoch invalidated "[]"] by (fastforce simp: sc_Commit_def)
    with blocks show ?thesis by auto
  qed simp
  with c blocks s' show ?thesis
    by (auto simp: sc_NextBlock_def sc_Commit_def Let_def dest: commit_loop_Inl)
qed

theorem Rollback_spec_witness:
  "sc_recentBlocks (snd (sc_Rollback (sc_run demo_env demo_chain demo_ops) 1)) = [] \<and>
   sc_epoch (snd (sc_Rollback (sc_run demo_env demo_chain demo_ops) 1)) = 1"
proof -
  let ?s = "sc_run demo_env demo_chain demo_ops"
  have "fst (sc_Rollback ?s 1) = None \<and> map sb_Epoch (sc_recentBlocks ?s) = [1]" by code_simp
  then have r: "sc_Rollback ?s 1 = (None, snd (sc_Rollback ?s 1))" and e: "map sb_Epoch (sc_recentBlocks ?s) = [1]"
    by (metis prod.collapse, simp)
  from e obtain b where "sc_recentBlocks ?s = [b]" "sb_Epoch b = 1" by auto
  with Rollback_spec [OF demo_run_inv r, of demo_env 0 "[]"] show ?thesis by simp
qed


text \<open>Two blocks committed, then a recovery to the second: the state holds the first one's
  mutations only.\<close>

definition demo_ops2 :: "chain_op list" where
  "demo_ops2 = demo_ops @ [OpCommit 1 [], OpValidate [6], OpNextBlock 3, OpSealBlock 2 [], OpCommit 2 [],
     OpValidate [4], OpNextBlock 4, OpSealBlock 3 [], OpCommit 3 []]"

lemma demo_merge: "\<forall>x xs. snd (Merge (env_state demo_env) x xs) = x"
  by (simp add: demo_defs)


end
