(* ===== verification/Proto_Block.thy ===== *)
theory Proto_Block
  imports Ext
begin

text \<open>
  \<open>social/block.go\<close>: a block of a social protocol, the builder that writes its bytes as the
  block is formed, sealed and finalized, and its serializer and parser.
\<close>

record protocol_block =
  pb_Epoch :: u64
  pb_Actions :: "bytes list"
  pb_Invalidated :: "hash list"
  pb_Hash :: hash
  pb_Publisher :: token
  pb_Siganture :: signature

record protocol_builder =
  bd_data :: bytes
  bd_status :: byte

definition bd_Building :: "protocol_builder \<Rightarrow> bool" where
  "bd_Building p \<longleftrightarrow> bd_status p = 0"

definition bd_Sealed :: "protocol_builder \<Rightarrow> bool" where
  "bd_Sealed p \<longleftrightarrow> bd_status p = 1"

definition bd_Commit :: "protocol_builder \<Rightarrow> bool" where
  "bd_Commit p \<longleftrightarrow> bd_status p = 2"

definition NewProtocolBuilder :: "util \<Rightarrow> u64 \<Rightarrow> protocol_builder" where
  "NewProtocolBuilder U epoch = \<lparr>bd_data = PutUint64 U epoch [], bd_status = 0\<rparr>"

definition bd_AddAction :: "util \<Rightarrow> bytes \<Rightarrow> protocol_builder \<Rightarrow> protocol_builder" where
  "bd_AddAction U action p = p\<lparr>bd_data := PutByteArray U action (bd_data p)\<rparr>"

definition bd_Seal :: "util \<Rightarrow> crypto \<Rightarrow> protocol_builder \<Rightarrow> hash \<times> protocol_builder" where
  "bd_Seal U C p =
     (let d = PutByteArray U [] (bd_data p)
      in (Hasher C d, p\<lparr>bd_status := 1, bd_data := d\<rparr>))"

definition bd_Finalize ::
  "util \<Rightarrow> crypto \<Rightarrow> hash list \<Rightarrow> privkey \<Rightarrow> protocol_builder \<Rightarrow> protocol_builder" where
  "bd_Finalize U C invalidate publisher p =
     (let d1 = PutHashArray U invalidate (bd_data p);
          h = Hasher C d1;
          d2 = PutHash U h d1;
          d3 = PutToken U (PublicKey C publisher) d2;
          d4 = PutSignature U (Sign C publisher h) d3
      in p\<lparr>bd_data := d4, bd_status := 2\<rparr>)"

definition bd_Bytes :: "protocol_builder \<Rightarrow> bytes" where
  "bd_Bytes p = bd_data p"

definition pb_Serialize :: "util \<Rightarrow> protocol_block \<Rightarrow> bytes" where
  "pb_Serialize U p =
     (let b1 = PutUint64 U (pb_Epoch p) [];
          b2 = fold (PutByteArray U) (pb_Actions p) b1;
          b3 = PutByteArray U [] b2;
          b4 = PutHashArray U (pb_Invalidated p) b3;
          b5 = PutHash U (pb_Hash p) b4;
          b6 = PutToken U (pb_Publisher p) b5
      in PutSignature U (pb_Siganture p) b6)"

text \<open>
  The parser. Its loop assigns the slice that \<open>ParseByteArray\<close> gives to \<open>data\<close> itself, so
  from the first action on it reads from that action; it ends at the first empty slice,
  and may not end, so its result is an \<open>option\<close>.
\<close>

partial_function (option) parse_actions ::
  "util \<Rightarrow> slice \<Rightarrow> int \<Rightarrow> bytes list \<Rightarrow> (bytes list \<times> slice \<times> int) option" where
  "parse_actions U data position acc =
     (let r = ParseByteArray U data position
      in if length (visible (fst r)) = 0 then Some (acc, fst r, snd r)
         else parse_actions U (fst r) (snd r) (acc @ [visible (fst r)]))"

definition ParseProtocolBlockWithPosition ::
  "util \<Rightarrow> crypto \<Rightarrow> slice \<Rightarrow> int \<Rightarrow> (protocol_block option \<times> int) go option" where
  "ParseProtocolBlockWithPosition U C data position =
     (if position \<ge> int (length (visible data)) then Some (Inr (None, position))
      else case ParseUint64 U (visible data) position of (epoch, p1) \<Rightarrow>
        (case parse_actions U data p1 [] of
           None \<Rightarrow> None
         | Some (acts, d, p2) \<Rightarrow>
             (case ParseHashArray U (visible d) p2 of (inval, p3) \<Rightarrow>
              (case slice_to d p3 of
                 Inl h \<Rightarrow> Some (Inl h)
               | Inr prefix \<Rightarrow>
                   (case ParseHash U (visible d) p3 of (h, p4) \<Rightarrow>
                      if Hasher C prefix \<noteq> h then Some (Inr (None, int (length (visible d)) + 1))
                      else (case ParseToken U (visible d) p4 of (pub, p5) \<Rightarrow>
                            (case ParseSignature U (visible d) p5 of (sig, p6) \<Rightarrow>
                               if Verify C pub (Hasher C prefix) sig then Some (Inr (None, p6))
                               else Some (Inr (Some \<lparr>pb_Epoch = epoch, pb_Actions = acts,
                                      pb_Invalidated = inval, pb_Hash = h, pb_Publisher = pub,
                                      pb_Siganture = sig\<rparr>, p6)))))))))"

definition ParseProtocolBlock :: "util \<Rightarrow> crypto \<Rightarrow> slice \<Rightarrow> protocol_block option go option" where
  "ParseProtocolBlock U C data =
     map_option (\<lambda>r. go_bind r (\<lambda>(b, p). Inr b)) (ParseProtocolBlockWithPosition U C data 0)"

section \<open>The builder writes what the serializer writes\<close>

lemma fold_AddAction:
  "fold (bd_AddAction U) actions p = p\<lparr>bd_data := fold (PutByteArray U) actions (bd_data p)\<rparr>"
  by (induction actions arbitrary: p) (simp_all add: bd_AddAction_def)

text \<open>The builder's whole life: opened, filled, sealed, finalized.\<close>

definition build_block ::
  "util \<Rightarrow> crypto \<Rightarrow> u64 \<Rightarrow> bytes list \<Rightarrow> hash list \<Rightarrow> privkey \<Rightarrow> protocol_builder" where
  "build_block U C epoch actions inval pk =
     bd_Finalize U C inval pk (snd (bd_Seal U C (fold (bd_AddAction U) actions (NewProtocolBuilder U epoch))))"

text \<open>The bytes both of them hash: everything before the hash.\<close>

definition hashed_part :: "util \<Rightarrow> u64 \<Rightarrow> bytes list \<Rightarrow> hash list \<Rightarrow> bytes" where
  "hashed_part U epoch actions inval =
     PutHashArray U inval (PutByteArray U [] (fold (PutByteArray U) actions (PutUint64 U epoch [])))"

lemma build_block_data:
  "bd_data (build_block U C epoch actions inval pk) =
     PutSignature U (Sign C pk (Hasher C (hashed_part U epoch actions inval)))
       (PutToken U (PublicKey C pk)
         (PutHash U (Hasher C (hashed_part U epoch actions inval)) (hashed_part U epoch actions inval)))"
  by (simp add: build_block_def bd_Finalize_def bd_Seal_def fold_AddAction NewProtocolBuilder_def
      hashed_part_def Let_def)

section \<open>The parser\<close>

lemma parse_actions_exit:
  assumes ret: "parse_actions U data position acc = Some (acts, d, p)"
  shows "visible d = []"
proof -
  have "length (visible (fst (snd (acts, d, p)))) = 0"
  proof (rule parse_actions.raw_induct [where P = "\<lambda>U data position acc r. length (visible (fst (snd r))) = 0", OF _ ret])
    fix f U data position acc r
    assume IH: "\<And>U data position acc r. f U data position acc = Some r \<Longrightarrow> length (visible (fst (snd r))) = 0"
      and eq: "(let r = ParseByteArray U data position
        in if length (visible (fst r)) = 0 then Some (acc, fst r, snd r)
           else f U (fst r) (snd r) (acc @ [visible (fst r)])) = Some r"
    show "length (visible (fst (snd r))) = 0"
      using eq IH by (cases "length (visible (fst (ParseByteArray U data position))) = 0") (auto simp: Let_def)
  qed
  then show ?thesis by simp
qed

section \<open>Properties\<close>

text \<open>C9: A block written by the builder (opened, actions added, sealed, finalized) has the bytes
  that \<open>Serialize\<close> writes for the block with those fields, the hash of the bytes before the
  hash, and the publisher's signature of that hash.\<close>

theorem builder_serializes:
  "bd_Bytes (build_block U C epoch actions inval pk) =
     (let h = Hasher C (hashed_part U epoch actions inval)
      in pb_Serialize U \<lparr>pb_Epoch = epoch, pb_Actions = actions, pb_Invalidated = inval,
           pb_Hash = h, pb_Publisher = PublicKey C pk, pb_Siganture = Sign C pk h\<rparr>) \<and>
   bd_Commit (build_block U C epoch actions inval pk)"
  by (simp add: bd_Bytes_def build_block_data pb_Serialize_def hashed_part_def Let_def)
    (simp add: bd_Commit_def build_block_def bd_Finalize_def Let_def)

text \<open>C10: Whatever the data, a block that the parser returns has a signature that its publisher's
  token does not verify, and its hash, invalidated hashes, publisher and signature were read
  from an empty slice, not from the data.\<close>

theorem parsed_block_unverified:
  assumes "ParseProtocolBlockWithPosition U C data position = Some (Inr (Some b, q))"
  shows "\<not> Verify C (pb_Publisher b) (pb_Hash b) (pb_Siganture b) \<and>
    (\<exists>p1 p2 p3 p4. pb_Invalidated b = fst (ParseHashArray U [] p1) \<and> pb_Hash b = fst (ParseHash U [] p2) \<and>
       pb_Publisher b = fst (ParseToken U [] p3) \<and> pb_Siganture b = fst (ParseSignature U [] p4))"
proof -
  obtain epoch p1 where 1: "ParseUint64 U (visible data) position = (epoch, p1)" by fastforce
  from assms 1 obtain acts d p2 where 2: "parse_actions U data p1 [] = Some (acts, d, p2)"
    by (auto simp: ParseProtocolBlockWithPosition_def split: if_splits option.splits)
  then have d: "visible d = []" by (rule parse_actions_exit)
  obtain inval p3 where 3: "ParseHashArray U [] p2 = (inval, p3)" by fastforce
  obtain h p4 where 4: "ParseHash U [] p3 = (h, p4)" by fastforce
  obtain pub p5 where 5: "ParseToken U [] p4 = (pub, p5)" by fastforce
  obtain sig p6 where 6: "ParseSignature U [] p5 = (sig, p6)" by fastforce
  from assms 1 2 3 4 5 6 d
  have "b = \<lparr>pb_Epoch = epoch, pb_Actions = acts, pb_Invalidated = inval, pb_Hash = h,
      pb_Publisher = pub, pb_Siganture = sig\<rparr>" "\<not> Verify C pub h sig"
    by (auto simp: ParseProtocolBlockWithPosition_def split: if_splits sum.splits)
  then show ?thesis by (auto intro: exI [where x = p2] exI [where x = p3] exI [where x = p4] exI [where x = p5] simp: 3 4 5 6)
qed

text \<open>A hash function under which the parser does return a block: its hash is what is read from
  an empty slice.\<close>

definition null_crypto :: crypto where
  "null_crypto = demo_crypto\<lparr>Hasher := (\<lambda>d. []), Verify := (\<lambda>t d s. s \<noteq> [])\<rparr>"

theorem parsed_block_unverified_witness:
  "\<exists>b q. ParseProtocolBlockWithPosition demo_util null_crypto (slice_of (replicate 24 0)) 0 = Some (Inr (Some b, q)) \<and>
     \<not> Verify null_crypto (pb_Publisher b) (pb_Hash b) (pb_Siganture b)"
proof -
  have "\<exists>b q. ParseProtocolBlockWithPosition demo_util null_crypto (slice_of (replicate 24 0)) 0 = Some (Inr (Some b, q))"
    by (simp add: ParseProtocolBlockWithPosition_def parse_actions.simps demo_util_def demo_get_def demo_slice_def
        demo_fixed_def slice_of_def slice_to_def null_crypto_def demo_crypto_def Let_def numeral_eq_Suc)
  then show ?thesis using parsed_block_unverified by blast
qed

end
