(* ===== verification/Messages.thy ===== *)
theory Messages
  imports Ext
begin

text \<open>
  \<open>social/messages.go\<close>: the messages a social validator sends to its listeners, and
  \<open>NewSyncRequest\<close> of \<open>topos/messages.go\<close>. The locale \<open>message_codec\<close> is the contract of
  an encoder and its parser; each pair of the file is interpreted on it.
\<close>

datatype message_error = DataTooShort

definition NewBlockSocial :: "util \<Rightarrow> chainmsg \<Rightarrow> u64 \<Rightarrow> bytes" where
  "NewBlockSocial U M epoch = PutUint64 U epoch [MsgNewBlock M]"

definition ParseNewBlockSocial :: "util \<Rightarrow> bytes \<Rightarrow> message_error + u64" where
  "ParseNewBlockSocial U data =
     (if length data < 9 then Inl DataTooShort else Inr (fst (ParseUint64 U data 1)))"

definition ActionSocial :: "chainmsg \<Rightarrow> bytes \<Rightarrow> bytes" where
  "ActionSocial M action = [MsgAction M] @ action"

definition SealBlockSocial :: "util \<Rightarrow> chainmsg \<Rightarrow> u64 \<Rightarrow> hash \<Rightarrow> bytes" where
  "SealBlockSocial U M epoch h = PutHash U h (PutUint64 U epoch [MsgBlockSealed M])"

definition ParseSealBlockSocial :: "util \<Rightarrow> crypto \<Rightarrow> bytes \<Rightarrow> message_error + u64 \<times> hash" where
  "ParseSealBlockSocial U C data =
     (if int (length data) \<noteq> 9 + HashSize C then Inl DataTooShort
      else Inr (fst (ParseUint64 U data 1), fst (ParseHash U data 9)))"

definition CommitBlockSocial :: "util \<Rightarrow> chainmsg \<Rightarrow> u64 \<Rightarrow> hash list \<Rightarrow> bytes" where
  "CommitBlockSocial U M epoch invalidated =
     PutHashArray U invalidated (PutUint64 U epoch [MsgBlockCommitted M])"

definition ParseCommitBlockSocial :: "util \<Rightarrow> bytes \<Rightarrow> message_error + u64 \<times> hash list" where
  "ParseCommitBlockSocial U data =
     (if length data < 9 then Inl DataTooShort
      else Inr (fst (ParseUint64 U data 1), fst (ParseHashArray U data 9)))"

definition NewSyncRequest :: "util \<Rightarrow> chainmsg \<Rightarrow> u64 \<Rightarrow> bytes" where
  "NewSyncRequest U M epoch = PutUint64 U epoch [MsgSyncRequest M]"

section \<open>Encoders and parsers\<close>

text \<open>
  \<open>ok u\<close> is what is expected of the helpers \<open>u\<close>, \<open>fits u x\<close> says that \<open>x\<close> can be encoded,
  \<open>kind u\<close> is the first byte of the encoding.
\<close>

locale message_codec =
  fixes ok :: "'u \<Rightarrow> bool"
    and fits :: "'u \<Rightarrow> 'x \<Rightarrow> bool"
    and kind :: "'u \<Rightarrow> byte"
    and enc :: "'u \<Rightarrow> 'x \<Rightarrow> bytes"
    and dec :: "'u \<Rightarrow> bytes \<Rightarrow> 'e + 'x"
  assumes decode: "ok u \<Longrightarrow> fits u x \<Longrightarrow> dec u (enc u x) = Inr x"
    and head: "ok u \<Longrightarrow> fits u x \<Longrightarrow> \<exists>rest. enc u x = kind u # rest"
begin

lemma enc_inject:
  assumes "ok u" "fits u x" "fits u y" "enc u x = enc u y"
  shows "x = y"
  using decode [OF assms(1,2)] decode [OF assms(1,3)] assms(4) by (metis sum.inject(2))

lemma enc_not_Nil: "ok u \<Longrightarrow> fits u x \<Longrightarrow> enc u x \<noteq> []"
  using head by fastforce

lemma enc_hd: "ok u \<Longrightarrow> fits u x \<Longrightarrow> hd (enc u x) = kind u"
  using head by fastforce

lemma decode_stream: "ok u \<Longrightarrow> \<forall>x \<in> set xs. fits u x \<Longrightarrow> map (dec u) (map (enc u) xs) = map Inr xs"
  using decode by simp

end

text \<open>Two encoders with different first bytes never produce the same message.\<close>

locale message_pair = a: message_codec ok fits1 kind1 enc1 dec1 + b: message_codec ok fits2 kind2 enc2 dec2
  for ok :: "'u \<Rightarrow> bool" and fits1 :: "'u \<Rightarrow> 'x \<Rightarrow> bool" and kind1 enc1
    and dec1 :: "'u \<Rightarrow> bytes \<Rightarrow> 'e + 'x"
    and fits2 :: "'u \<Rightarrow> 'y \<Rightarrow> bool" and kind2 enc2 and dec2 :: "'u \<Rightarrow> bytes \<Rightarrow> 'f + 'y" +
  assumes kinds: "ok u \<Longrightarrow> kind1 u \<noteq> kind2 u"
begin

lemma disjoint: "ok u \<Longrightarrow> fits1 u x \<Longrightarrow> fits2 u y \<Longrightarrow> enc1 u x \<noteq> enc2 u y"
  using a.enc_hd [of u x] b.enc_hd [of u y] kinds [of u] by metis

end

text \<open>The helpers and message bytes of the social messages, and what is expected of them.\<close>

record wire =
  w_util :: util
  w_msg :: chainmsg
  w_crypto :: crypto
  w_fits :: "hash list \<Rightarrow> bool"  \<comment> \<open>the hash arrays whose length fits the length prefix\<close>

definition distinct_messages :: "chainmsg \<Rightarrow> bool" where
  "distinct_messages M \<longleftrightarrow>
     distinct [MsgNewBlock M, MsgAction M, MsgActionArray M, MsgActionSubmit M, MsgSealBlock M,
       MsgCommitBlock M, MsgBlockSealed M, MsgBlockCommitted M, MsgSyncRequest M]"

text \<open>Putting an array of hashes appends to the buffer, also where its length does not fit.\<close>

definition puts_append :: "util \<Rightarrow> bool" where
  "puts_append U \<longleftrightarrow> (\<forall>d. (\<forall>hs. \<exists>e. PutHashArray U hs d = d @ e) \<and> (\<forall>h. \<exists>e. PutHash U h d = d @ e))"

definition wire_ok :: "wire \<Rightarrow> bool" where
  "wire_ok w \<longleftrightarrow> u64_codec (w_util w) \<and> hash_codec (w_util w) (w_crypto w) \<and>
     hashes_codec (w_util w) (w_fits w) \<and> distinct_messages (w_msg w)"

lemma put_u64_head:
  assumes "u64_codec U"
  obtains e where "PutUint64 U v [k] = k # e" "length e = 8" "\<And>post. ParseUint64 U (k # e @ post) 1 = (v, 9)"
proof -
  obtain e where e: "length e = 8" "\<And>d. PutUint64 U v d = d @ e"
    "\<And>d post. ParseUint64 U (d @ e @ post) (int (length d)) = (v, int (length d) + 8)"
    using u64_codecE [OF assms, where v = v] by metis
  show thesis using e(1,2) e(3) [of "[k]"] by (intro that [of e]) auto
qed

lemma sync_request_parses:
  assumes "u64_codec U"
  shows "length (PutUint64 U v [k]) = 9 \<and> hd (PutUint64 U v [k]) = k \<and>
    ParseUint64 U (PutUint64 U v [k]) 1 = (v, 9)"
proof -
  obtain e where e: "PutUint64 U v [k] = k # e" "length e = 8" "\<And>post. ParseUint64 U (k # e @ post) 1 = (v, 9)"
    using put_u64_head [OF assms, where v = v and k = k] by metis
  show ?thesis using e(2) e(3) [of "[]"] by (simp add: e(1))
qed

lemma new_block_parses:
  assumes "wire_ok w"
  shows "ParseNewBlockSocial (w_util w) (NewBlockSocial (w_util w) (w_msg w) e) = Inr e"
    and "\<exists>rest. NewBlockSocial (w_util w) (w_msg w) e = MsgNewBlock (w_msg w) # rest"
proof -
  have U: "u64_codec (w_util w)" using assms by (simp add: wire_ok_def)
  obtain b where b: "PutUint64 (w_util w) e [MsgNewBlock (w_msg w)] = MsgNewBlock (w_msg w) # b" "length b = 8"
    "\<And>post. ParseUint64 (w_util w) (MsgNewBlock (w_msg w) # b @ post) 1 = (e, 9)"
    using put_u64_head [OF U, where v = e and k = "MsgNewBlock (w_msg w)"] by metis
  show "ParseNewBlockSocial (w_util w) (NewBlockSocial (w_util w) (w_msg w) e) = Inr e"
    using b(2) b(3) [of "[]"] by (simp add: ParseNewBlockSocial_def NewBlockSocial_def b(1))
  show "\<exists>rest. NewBlockSocial (w_util w) (w_msg w) e = MsgNewBlock (w_msg w) # rest"
    by (simp add: NewBlockSocial_def b(1))
qed

lemma seal_parses:
  assumes "wire_ok w" and "int (length h) = HashSize (w_crypto w)"
  shows "ParseSealBlockSocial (w_util w) (w_crypto w) (SealBlockSocial (w_util w) (w_msg w) e h) = Inr (e, h)"
    and "\<exists>rest. SealBlockSocial (w_util w) (w_msg w) e h = MsgBlockSealed (w_msg w) # rest"
proof -
  let ?U = "w_util w" and ?k = "MsgBlockSealed (w_msg w)"
  have U: "u64_codec ?U" and H: "hash_codec ?U (w_crypto w)" using assms(1) by (auto simp: wire_ok_def)
  obtain b where b: "PutUint64 ?U e [?k] = ?k # b" "length b = 8"
    "\<And>post. ParseUint64 ?U (?k # b @ post) 1 = (e, 9)"
    using put_u64_head [OF U, where v = e and k = "?k"] by metis
  have h: "PutHash ?U h (?k # b) = (?k # b) @ h" "fst (ParseHash ?U ((?k # b) @ h @ []) (int (length (?k # b)))) = h"
    using H assms(2) unfolding hash_codec_def by blast+
  have "fst (ParseHash ?U (?k # b @ h) 9) = h" using h(2) b(2) by simp
  with b(2) b(3) [of h] h(1) assms(2)
  show "ParseSealBlockSocial ?U (w_crypto w) (SealBlockSocial ?U (w_msg w) e h) = Inr (e, h)"
    by (simp add: ParseSealBlockSocial_def SealBlockSocial_def b(1))
  show "\<exists>rest. SealBlockSocial ?U (w_msg w) e h = ?k # rest"
    using h(1) by (simp add: SealBlockSocial_def b(1))
qed

lemma commit_parses:
  assumes "wire_ok w" and "w_fits w hs"
  shows "ParseCommitBlockSocial (w_util w) (CommitBlockSocial (w_util w) (w_msg w) e hs) = Inr (e, hs)"
    and "\<exists>rest. CommitBlockSocial (w_util w) (w_msg w) e hs = MsgBlockCommitted (w_msg w) # rest"
proof -
  let ?U = "w_util w" and ?k = "MsgBlockCommitted (w_msg w)"
  have U: "u64_codec ?U" and H: "hashes_codec ?U (w_fits w)" using assms(1) by (auto simp: wire_ok_def)
  obtain b where b: "PutUint64 ?U e [?k] = ?k # b" "length b = 8"
    "\<And>post. ParseUint64 ?U (?k # b @ post) 1 = (e, 9)"
    using put_u64_head [OF U, where v = e and k = "?k"] by metis
  obtain x where x: "\<And>d. PutHashArray ?U hs d = d @ x"
    "\<And>d post. fst (ParseHashArray ?U (d @ x @ post) (int (length d))) = hs"
    using H assms(2) unfolding hashes_codec_def by metis
  have "fst (ParseHashArray ?U (?k # b @ x) 9) = hs" using x(2) [of "?k # b" "[]"] b(2) by simp
  with b(2) b(3) [of x] x(1)
  show "ParseCommitBlockSocial ?U (CommitBlockSocial ?U (w_msg w) e hs) = Inr (e, hs)"
    by (simp add: ParseCommitBlockSocial_def CommitBlockSocial_def b(1))
  show "\<exists>rest. CommitBlockSocial ?U (w_msg w) e hs = ?k # rest"
    using x(1) by (simp add: CommitBlockSocial_def b(1))
qed

interpretation new_block: message_codec wire_ok "\<lambda>w e. True" "\<lambda>w. MsgNewBlock (w_msg w)"
  "\<lambda>w e. NewBlockSocial (w_util w) (w_msg w) e" "\<lambda>w. ParseNewBlockSocial (w_util w)"
  by unfold_locales (simp_all add: new_block_parses)

interpretation seal_block: message_codec wire_ok "\<lambda>w (e, h). int (length h) = HashSize (w_crypto w)"
  "\<lambda>w. MsgBlockSealed (w_msg w)" "\<lambda>w (e, h). SealBlockSocial (w_util w) (w_msg w) e h"
  "\<lambda>w. ParseSealBlockSocial (w_util w) (w_crypto w)"
  by unfold_locales (auto simp: seal_parses)

interpretation commit_block: message_codec wire_ok "\<lambda>w (e, hs). w_fits w hs"
  "\<lambda>w. MsgBlockCommitted (w_msg w)" "\<lambda>w (e, hs). CommitBlockSocial (w_util w) (w_msg w) e hs"
  "\<lambda>w. ParseCommitBlockSocial (w_util w)"
  by unfold_locales (auto simp: commit_parses)

interpretation seal_commit: message_pair wire_ok
  "\<lambda>w (e, h). int (length h) = HashSize (w_crypto w)" "\<lambda>w. MsgBlockSealed (w_msg w)"
  "\<lambda>w (e, h). SealBlockSocial (w_util w) (w_msg w) e h" "\<lambda>w. ParseSealBlockSocial (w_util w) (w_crypto w)"
  "\<lambda>w (e, hs). w_fits w hs" "\<lambda>w. MsgBlockCommitted (w_msg w)"
  "\<lambda>w (e, hs). CommitBlockSocial (w_util w) (w_msg w) e hs" "\<lambda>w. ParseCommitBlockSocial (w_util w)"
  by unfold_locales (auto simp: wire_ok_def distinct_messages_def)

definition demo_wire :: wire where
  "demo_wire = \<lparr>w_util = demo_util, w_msg = demo_msg, w_crypto = demo_crypto,
     w_fits = (\<lambda>hs. length hs < 65536 \<and> (\<forall>h \<in> set hs. length h = 2))\<rparr>"

lemma demo_puts_append: "puts_append demo_util"
  by (simp add: puts_append_def demo_util_def demo_put_def)

lemma demo_wire_ok: "wire_ok demo_wire"
  by (simp add: wire_ok_def demo_wire_def demo_u64_codec demo_hash_codec demo_hashes_codec
      distinct_messages_def demo_msg_def)

section \<open>Properties\<close>

text \<open>C11: The messages of a social validator round-trip: whatever the epoch, hash and list of
  invalidated hashes (of sizes that can be encoded), the parsers give back what the encoders
  were given, and a seal message is never a commit message.\<close>

theorem social_messages_roundtrip:
  assumes "wire_ok w" and "int (length h) = HashSize (w_crypto w)" and "w_fits w hs"
  shows "ParseNewBlockSocial (w_util w) (NewBlockSocial (w_util w) (w_msg w) e) = Inr e \<and>
    ParseSealBlockSocial (w_util w) (w_crypto w) (SealBlockSocial (w_util w) (w_msg w) e h) = Inr (e, h) \<and>
    ParseCommitBlockSocial (w_util w) (CommitBlockSocial (w_util w) (w_msg w) e hs) = Inr (e, hs) \<and>
    SealBlockSocial (w_util w) (w_msg w) e h \<noteq> CommitBlockSocial (w_util w) (w_msg w) e2 hs"
  using new_block.decode [OF assms(1), of e] seal_block.decode [OF assms(1), of "(e, h)"]
    commit_block.decode [OF assms(1), of "(e, hs)"]
    seal_commit.disjoint [OF assms(1), of "(e, h)" "(e2, hs)"] assms(2,3)
  by simp

theorem social_messages_roundtrip_witness:
  "ParseSealBlockSocial demo_util demo_crypto (SealBlockSocial demo_util demo_msg 300 [1, 2]) = Inr (300, [1, 2]) \<and>
   ParseCommitBlockSocial demo_util (CommitBlockSocial demo_util demo_msg 300 [[3, 4], [5, 6]]) = Inr (300, [[3, 4], [5, 6]])"
proof -
  have "int (length [1, 2 :: byte]) = HashSize (w_crypto demo_wire)" "w_fits demo_wire [[3, 4], [5, 6]]"
    by (simp_all add: demo_wire_def demo_crypto_def)
  from social_messages_roundtrip [OF demo_wire_ok this, of 300] show ?thesis
    by (simp add: demo_wire_def)
qed

end
