(* ===== verification/Listener.thy ===== *)
theory Listener
  imports Machine Messages Proto_Block
begin

text \<open>
  \<open>SocialProtocolBlockListener\<close> of \<open>social/listener.go\<close>: the goroutine that assembles the
  blocks of a social protocol from a validator's messages and sends each one, when it is
  committed, on a channel.

  The code keeps pointers to the blocks, in the map \<open>blocks\<close>, in \<open>current\<close> and on the
  channel, and writes through them. The model has the blocks in \<open>l_heap\<close>, a pointer is an
  index into it, and \<open>SendBlock r b\<close> is the sending of pointer \<open>r\<close>, whose block is \<open>b\<close>
  when it is sent.
\<close>

record listener =
  l_heap :: "protocol_block list"
  l_blocks :: "u64 \<rightharpoonup> nat"
  l_current :: "nat option"

datatype listener_out =
    SendNil
  | SendBlock nat protocol_block
  | OnConn conn_event

definition new_listener :: listener where
  "new_listener = \<lparr>l_heap = [], l_blocks = Map.empty, l_current = None\<rparr>"

definition fresh_block :: "crypto \<Rightarrow> u64 \<Rightarrow> protocol_block" where
  "fresh_block C epoch = \<lparr>pb_Epoch = epoch, pb_Actions = [], pb_Invalidated = [],
     pb_Hash = no_hash C, pb_Publisher = no_token C, pb_Siganture = no_signature C\<rparr>"

text \<open>\<open>send <- nil\<close>, \<open>return\<close>, and the deferred \<open>conn.Shutdown()\<close>.\<close>

definition listener_stops :: "(listener, listener_out) reaction" where
  "listener_stops = Return [SendNil, OnConn Shutdown]"

definition write_block :: "nat \<Rightarrow> (protocol_block \<Rightarrow> protocol_block) \<Rightarrow> listener \<Rightarrow> listener" where
  "write_block r f s = s\<lparr>l_heap := (l_heap s)[r := f (l_heap s ! r)]\<rparr>"

definition on_new_block :: "wire \<Rightarrow> listener \<Rightarrow> bytes \<Rightarrow> (listener, listener_out) reaction" where
  "on_new_block w s data =
     (case ParseNewBlockSocial (w_util w) data of
        Inl err \<Rightarrow> listener_stops
      | Inr epoch \<Rightarrow>
          (let r = length (l_heap s)
           in Continue (s\<lparr>l_heap := l_heap s @ [fresh_block (w_crypto w) epoch],
                l_blocks := (l_blocks s)(epoch \<mapsto> r), l_current := Some r\<rparr>) []))"

definition on_action :: "listener \<Rightarrow> bytes \<Rightarrow> (listener, listener_out) reaction" where
  "on_action s action =
     (case l_current s of
        None \<Rightarrow> listener_stops
      | Some r \<Rightarrow> Continue (write_block r (\<lambda>b. b\<lparr>pb_Actions := pb_Actions b @ [action]\<rparr>) s) [])"

text \<open>\<open>if current.Epoch == epoch\<close> reads through \<open>current\<close>, which may be nil.\<close>

definition on_sealed :: "wire \<Rightarrow> listener \<Rightarrow> bytes \<Rightarrow> (listener, listener_out) reaction" where
  "on_sealed w s data =
     (case ParseSealBlockSocial (w_util w) (w_crypto w) data of
        Inl err \<Rightarrow> listener_stops
      | Inr (epoch, h) \<Rightarrow>
          (case l_current s of
             None \<Rightarrow> Crash NilPanic []
           | Some c \<Rightarrow>
               (let s1 = (if pb_Epoch (l_heap s ! c) = epoch then s\<lparr>l_current := None\<rparr> else s)
                in case l_blocks s epoch of
                     Some r \<Rightarrow> Continue (write_block r (\<lambda>b. b\<lparr>pb_Hash := h\<rparr>) s1) []
                   | None \<Rightarrow> listener_stops)))"

text \<open>A commit message that cannot be parsed is logged and handled as epoch 0 with no hashes.\<close>

definition on_committed :: "wire \<Rightarrow> listener \<Rightarrow> bytes \<Rightarrow> (listener, listener_out) reaction" where
  "on_committed w s data =
     (case (case ParseCommitBlockSocial (w_util w) data of Inl err \<Rightarrow> (0, []) | Inr r \<Rightarrow> r) of
        (epoch, invalidated) \<Rightarrow>
          (case l_blocks s epoch of
             Some r \<Rightarrow>
               (let s1 = write_block r (\<lambda>b. b\<lparr>pb_Invalidated := invalidated\<rparr>) s
                in Continue (s1\<lparr>l_blocks := (l_blocks s1)(epoch := None)\<rparr>) [SendBlock r (l_heap s1 ! r)])
           | None \<Rightarrow> listener_stops))"

definition listener_step :: "wire \<Rightarrow> listener \<Rightarrow> read_event \<Rightarrow> (listener, listener_out) reaction" where
  "listener_step w s ev =
     (case ev of
        ReadError \<Rightarrow> listener_stops
      | Read data \<Rightarrow>
          (case data of
             [] \<Rightarrow> Crash IndexPanic []
           | k # rest \<Rightarrow>
               if k = MsgNewBlock (w_msg w) then on_new_block w s data
               else if k = MsgAction (w_msg w) then on_action s rest
               else if k = MsgBlockSealed (w_msg w) then on_sealed w s data
               else if k = MsgBlockCommitted (w_msg w) then on_committed w s data
               else Continue s []))"

text \<open>The function: it dials, sends the sync request and starts the goroutine.\<close>

definition SocialProtocolBlockListener ::
  "wire \<Rightarrow> bool \<Rightarrow> bool \<Rightarrow> u64 \<Rightarrow> read_event list \<Rightarrow> listener_out list \<times> listener outcome" where
  "SocialProtocolBlockListener w dialed request_sent epoch reads =
     (if \<not> dialed then ([SendNil], Returned)
      else if \<not> request_sent then ([OnConn (Send (NewSyncRequest (w_util w) (w_msg w) epoch)), SendNil], Returned)
      else (case react (listener_step w) new_listener reads of
              (os, r) \<Rightarrow> (OnConn (Send (NewSyncRequest (w_util w) (w_msg w) epoch)) # os, r)))"

section \<open>The invariant\<close>

definition listener_inv :: "wire \<Rightarrow> listener \<Rightarrow> bool" where
  "listener_inv w s \<longleftrightarrow>
     (\<forall>e r. l_blocks s e = Some r \<longrightarrow> r < length (l_heap s) \<and> pb_Epoch (l_heap s ! r) = e) \<and>
     (\<forall>r. l_current s = Some r \<longrightarrow> r < length (l_heap s)) \<and>
     (\<forall>b \<in> set (l_heap s). pb_Publisher b = no_token (w_crypto w) \<and> pb_Siganture b = no_signature (w_crypto w))"

text \<open>What is delivered: a block without publisher and signature.\<close>

fun delivers_unsigned :: "wire \<Rightarrow> listener_out \<Rightarrow> bool" where
  "delivers_unsigned w (SendBlock r b) \<longleftrightarrow>
     pb_Publisher b = no_token (w_crypto w) \<and> pb_Siganture b = no_signature (w_crypto w)"
| "delivers_unsigned w _ \<longleftrightarrow> True"

lemma listener_inv_new: "listener_inv w new_listener"
  by (simp add: listener_inv_def new_listener_def)

lemma listener_inv_write:
  assumes "listener_inv w s" and "r < length (l_heap s)"
    and "\<And>b. pb_Epoch (f b) = pb_Epoch b" and "\<And>b. pb_Publisher (f b) = pb_Publisher b"
    and "\<And>b. pb_Siganture (f b) = pb_Siganture b"
  shows "listener_inv w (write_block r f s)"
  using assms by (auto simp: listener_inv_def write_block_def nth_list_update dest!: set_update_subset_insert [THEN subsetD])

lemma listener_inv_current: "listener_inv w s \<Longrightarrow> listener_inv w (s\<lparr>l_current := None\<rparr>)"
  by (simp add: listener_inv_def)

lemma listener_inv_forget: "listener_inv w s \<Longrightarrow> listener_inv w (s\<lparr>l_blocks := (l_blocks s)(e := None)\<rparr>)"
  by (simp add: listener_inv_def)

lemma on_new_block_inv: "listener_inv w s \<Longrightarrow> on_new_block w s data = Continue s' os \<Longrightarrow> listener_inv w s'"
  by (auto simp: on_new_block_def listener_stops_def listener_inv_def fresh_block_def Let_def nth_append
      less_Suc_eq split: sum.splits if_splits)

lemma on_action_inv: "listener_inv w s \<Longrightarrow> on_action s a = Continue s' os \<Longrightarrow> listener_inv w s'"
  by (auto simp: on_action_def listener_stops_def split: option.splits intro!: listener_inv_write)
    (simp add: listener_inv_def)

lemma on_sealed_inv:
  assumes "listener_inv w s" and "on_sealed w s data = Continue s' os"
  shows "listener_inv w s'"
proof -
  from assms(2) obtain e h c r where e: "ParseSealBlockSocial (w_util w) (w_crypto w) data = Inr (e, h)"
    "l_current s = Some c" "l_blocks s e = Some r"
    "s' = write_block r (\<lambda>b. b\<lparr>pb_Hash := h\<rparr>) (if pb_Epoch (l_heap s ! c) = e then s\<lparr>l_current := None\<rparr> else s)"
    by (auto simp: on_sealed_def listener_stops_def Let_def split: sum.splits prod.splits option.splits)
  have "r < length (l_heap s)" using assms(1) e(3) by (auto simp: listener_inv_def)
  then show ?thesis using assms(1) unfolding e(4)
    by (intro listener_inv_write) (auto intro: listener_inv_current)
qed

lemma on_committed_cases:
  assumes "listener_inv w s"
  obtains "on_committed w s data = listener_stops"
  | e inval r where "l_blocks s e = Some r" "r < length (l_heap s)"
    "on_committed w s data =
       Continue ((write_block r (\<lambda>b. b\<lparr>pb_Invalidated := inval\<rparr>) s)\<lparr>l_blocks := (l_blocks s)(e := None)\<rparr>)
         [SendBlock r ((l_heap s ! r)\<lparr>pb_Invalidated := inval\<rparr>)]"
proof -
  obtain e inval where p: "(case ParseCommitBlockSocial (w_util w) data of Inl err \<Rightarrow> (0, []) | Inr r \<Rightarrow> r) = (e, inval)"
    by fastforce
  show thesis
  proof (cases "l_blocks s e")
    case None
    with p show thesis by (intro that(1)) (simp add: on_committed_def)
  next
    case (Some r)
    moreover have "r < length (l_heap s)" using assms Some by (auto simp: listener_inv_def)
    ultimately show thesis using p
      by (intro that(2) [of e r inval]) (simp_all add: on_committed_def write_block_def Let_def)
  qed
qed

lemma on_committed_inv:
  assumes "listener_inv w s" and "on_committed w s data = Continue s' os"
  shows "listener_inv w s'"
proof (cases rule: on_committed_cases [OF assms(1), of data])
  case 1
  with assms(2) show ?thesis by (simp add: listener_stops_def)
next
  case (2 e inval r)
  have "listener_inv w (write_block r (\<lambda>b. b\<lparr>pb_Invalidated := inval\<rparr>) s)"
    by (rule listener_inv_write [OF assms(1) 2(2)]) simp_all
  from listener_inv_forget [OF this, of e] 2(3) assms(2) show ?thesis
    by (simp add: write_block_def)
qed

lemma listener_step_inv:
  assumes "listener_inv w s" and "listener_step w s ev = Continue s' os"
  shows "listener_inv w s'"
  using assms
  by (auto simp: listener_step_def listener_stops_def split: read_event.splits list.splits if_splits
      dest: on_new_block_inv on_action_inv on_sealed_inv on_committed_inv)

lemma listener_step_unsigned:
  assumes "listener_inv w s" and "x \<in> set (sent (listener_step w s ev))"
  shows "delivers_unsigned w x"
proof (cases x)
  case (SendBlock r b)
  with assms(2) obtain data where "x \<in> set (sent (on_committed w s data))"
    by (auto simp: listener_step_def listener_stops_def on_new_block_def on_action_def on_sealed_def Let_def
        split: read_event.splits list.splits if_splits sum.splits option.splits prod.splits)
  with SendBlock assms(1) show ?thesis
    by (cases rule: on_committed_cases [OF assms(1), of data]) (auto simp: listener_stops_def listener_inv_def)
qed auto

interpretation listener: message_loop "listener_step w" "listener_inv w" "\<lambda>_. True" "delivers_unsigned w" for w
  by unfold_locales (auto intro: listener_step_inv listener_step_unsigned)

section \<open>Assembling a block\<close>

abbreviation new_msg :: "wire \<Rightarrow> u64 \<Rightarrow> read_event" where
  "new_msg w e \<equiv> Read (NewBlockSocial (w_util w) (w_msg w) e)"

abbreviation action_msg :: "wire \<Rightarrow> bytes \<Rightarrow> read_event" where
  "action_msg w a \<equiv> Read (ActionSocial (w_msg w) a)"

abbreviation seal_msg :: "wire \<Rightarrow> u64 \<Rightarrow> hash \<Rightarrow> read_event" where
  "seal_msg w e h \<equiv> Read (SealBlockSocial (w_util w) (w_msg w) e h)"

abbreviation commit_msg :: "wire \<Rightarrow> u64 \<Rightarrow> hash list \<Rightarrow> read_event" where
  "commit_msg w e hs \<equiv> Read (CommitBlockSocial (w_util w) (w_msg w) e hs)"

lemma kinds:
  assumes "wire_ok w"
  shows "MsgAction (w_msg w) \<noteq> MsgNewBlock (w_msg w)" "MsgBlockSealed (w_msg w) \<noteq> MsgNewBlock (w_msg w)"
    "MsgBlockSealed (w_msg w) \<noteq> MsgAction (w_msg w)" "MsgBlockCommitted (w_msg w) \<noteq> MsgNewBlock (w_msg w)"
    "MsgBlockCommitted (w_msg w) \<noteq> MsgAction (w_msg w)" "MsgBlockCommitted (w_msg w) \<noteq> MsgBlockSealed (w_msg w)"
  using assms by (auto simp: wire_ok_def distinct_messages_def)

lemma step_new:
  assumes "wire_ok w"
  shows "listener_step w s (new_msg w e) =
    Continue (s\<lparr>l_heap := l_heap s @ [fresh_block (w_crypto w) e],
      l_blocks := (l_blocks s)(e \<mapsto> length (l_heap s)), l_current := Some (length (l_heap s))\<rparr>) []"
proof -
  obtain rest where "NewBlockSocial (w_util w) (w_msg w) e = MsgNewBlock (w_msg w) # rest"
    using new_block_parses(2) [OF assms] by blast
  then show ?thesis using new_block_parses(1) [OF assms, of e]
    by (simp add: listener_step_def on_new_block_def Let_def)
qed

lemma step_action:
  assumes "wire_ok w"
  shows "listener_step w s (action_msg w a) = on_action s a"
  using kinds [OF assms] by (simp add: listener_step_def ActionSocial_def)

lemma step_seal:
  assumes "wire_ok w" and "int (length h) = HashSize (w_crypto w)"
  shows "listener_step w s (seal_msg w e h) =
    (case l_current s of
       None \<Rightarrow> Crash NilPanic []
     | Some c \<Rightarrow>
         (let s1 = (if pb_Epoch (l_heap s ! c) = e then s\<lparr>l_current := None\<rparr> else s)
          in case l_blocks s e of
               Some r \<Rightarrow> Continue (write_block r (\<lambda>b. b\<lparr>pb_Hash := h\<rparr>) s1) []
             | None \<Rightarrow> listener_stops))"
proof -
  obtain rest where "SealBlockSocial (w_util w) (w_msg w) e h = MsgBlockSealed (w_msg w) # rest"
    using seal_parses(2) [OF assms] by blast
  then show ?thesis using seal_parses(1) [OF assms, of e] kinds [OF assms(1)]
    by (simp add: listener_step_def on_sealed_def)
qed

lemma step_commit:
  assumes "wire_ok w" and "w_fits w hs"
  shows "listener_step w s (commit_msg w e hs) =
    (case l_blocks s e of
       Some r \<Rightarrow> Continue ((write_block r (\<lambda>b. b\<lparr>pb_Invalidated := hs\<rparr>) s)\<lparr>l_blocks := (l_blocks s)(e := None)\<rparr>)
                   [SendBlock r (l_heap (write_block r (\<lambda>b. b\<lparr>pb_Invalidated := hs\<rparr>) s) ! r)]
     | None \<Rightarrow> listener_stops)"
proof -
  obtain rest where "CommitBlockSocial (w_util w) (w_msg w) e hs = MsgBlockCommitted (w_msg w) # rest"
    using commit_parses(2) [OF assms] by blast
  then show ?thesis using commit_parses(1) [OF assms, of e] kinds [OF assms(1)]
    by (simp add: listener_step_def on_committed_def write_block_def Let_def split: option.splits)
qed

text \<open>A run of actions while \<open>r\<close> is the current block.\<close>

lemma react_actions:
  assumes "wire_ok w" and "l_current s = Some r" and "r < length (l_heap s)"
  shows "react (listener_step w) s (map (action_msg w) acts @ rest) =
    react (listener_step w) (write_block r (\<lambda>b. b\<lparr>pb_Actions := pb_Actions b @ acts\<rparr>) s) rest"
  using assms(2,3)
proof (induction acts arbitrary: s)
  case Nil
  then show ?case by (simp add: write_block_def)
next
  case (Cons a acts)
  have "react (listener_step w) s (map (action_msg w) (a # acts) @ rest) =
      react (listener_step w) (write_block r (\<lambda>b. b\<lparr>pb_Actions := pb_Actions b @ [a]\<rparr>) s) (map (action_msg w) acts @ rest)"
    using Cons.prems by (simp add: step_action [OF assms(1)] on_action_def)
  also have "\<dots> = react (listener_step w) (write_block r (\<lambda>b. b\<lparr>pb_Actions := pb_Actions b @ acts\<rparr>)
      (write_block r (\<lambda>b. b\<lparr>pb_Actions := pb_Actions b @ [a]\<rparr>) s)) rest"
    using Cons.prems by (intro Cons.IH) (simp_all add: write_block_def)
  finally show ?case using Cons.prems by (simp add: write_block_def)
qed

lemma assembles:
  assumes "wire_ok w" and "int (length h) = HashSize (w_crypto w)" and "w_fits w hs" and "e2 \<noteq> e1"
  shows "react (listener_step w) s
      (new_msg w e1 # map (action_msg w) acts1 @ new_msg w e2 # map (action_msg w) acts2 @
       [seal_msg w e1 h, commit_msg w e1 hs]) =
    ([SendBlock (length (l_heap s))
        ((fresh_block (w_crypto w) e1)\<lparr>pb_Actions := acts1, pb_Hash := h, pb_Invalidated := hs\<rparr>)],
     Running (s\<lparr>l_heap := l_heap s @
         [(fresh_block (w_crypto w) e1)\<lparr>pb_Actions := acts1, pb_Hash := h, pb_Invalidated := hs\<rparr>,
          (fresh_block (w_crypto w) e2)\<lparr>pb_Actions := acts2\<rparr>],
       l_blocks := (l_blocks s)(e1 := None, e2 \<mapsto> Suc (length (l_heap s))),
       l_current := Some (Suc (length (l_heap s)))\<rparr>))"
proof -
  let ?r = "length (l_heap s)"
  let ?b1 = "(fresh_block (w_crypto w) e1)\<lparr>pb_Actions := acts1\<rparr>"
  let ?b2 = "(fresh_block (w_crypto w) e2)\<lparr>pb_Actions := acts2\<rparr>"
  define s2 where "s2 = s\<lparr>l_heap := l_heap s @ [?b1, ?b2], l_blocks := (l_blocks s)(e1 \<mapsto> ?r, e2 \<mapsto> Suc ?r),
    l_current := Some (Suc ?r)\<rparr>"
  have "react (listener_step w) s
      (new_msg w e1 # map (action_msg w) acts1 @ new_msg w e2 # map (action_msg w) acts2 @
       [seal_msg w e1 h, commit_msg w e1 hs]) = react (listener_step w) s2 [seal_msg w e1 h, commit_msg w e1 hs]"
    by (cases s) (simp add: step_new [OF assms(1)] react_actions [OF assms(1)] write_block_def s2_def
        nth_append list_update_append fresh_block_def)
  moreover have "pb_Epoch ?b2 \<noteq> e1" using assms(4) by (simp add: fresh_block_def)
  ultimately show ?thesis using assms(4)
    by (cases s) (simp add: step_seal [OF assms(1,2)] step_commit [OF assms(1,3)] s2_def write_block_def
        nth_append list_update_append fun_upd_twist)
qed

section \<open>Properties\<close>

text \<open>C12: Blocks are assembled across a pipeline: in any state, the messages of a validator that
  opens a block, sends its actions, opens the next one, sends its actions, and then seals
  and commits the first, make the listener deliver exactly one block, with the first block's
  actions, hash and invalidated hashes; the second stays current with its own actions.\<close>

theorem listener_assembles:
  assumes "wire_ok w" and "int (length h) = HashSize (w_crypto w)" and "w_fits w hs" and "e2 \<noteq> e1"
  shows "react (listener_step w) s
      (new_msg w e1 # map (action_msg w) acts1 @ new_msg w e2 # map (action_msg w) acts2 @
       [seal_msg w e1 h, commit_msg w e1 hs]) =
    ([SendBlock (length (l_heap s))
        ((fresh_block (w_crypto w) e1)\<lparr>pb_Actions := acts1, pb_Hash := h, pb_Invalidated := hs\<rparr>)],
     Running (s\<lparr>l_heap := l_heap s @
         [(fresh_block (w_crypto w) e1)\<lparr>pb_Actions := acts1, pb_Hash := h, pb_Invalidated := hs\<rparr>,
          (fresh_block (w_crypto w) e2)\<lparr>pb_Actions := acts2\<rparr>],
       l_blocks := (l_blocks s)(e1 := None, e2 \<mapsto> Suc (length (l_heap s))),
       l_current := Some (Suc (length (l_heap s)))\<rparr>))"
  using assembles [OF assms] .

theorem listener_assembles_witness:
  "fst (react (listener_step demo_wire) new_listener
      [new_msg demo_wire 1, action_msg demo_wire [7], new_msg demo_wire 2, action_msg demo_wire [8],
       seal_msg demo_wire 1 [5, 6], commit_msg demo_wire 1 [[3, 4]]]) =
   [SendBlock 0 \<lparr>pb_Epoch = 1, pb_Actions = [[7]], pb_Invalidated = [[3, 4]], pb_Hash = [5, 6],
      pb_Publisher = [0, 0], pb_Siganture = [0, 0]\<rparr>]"
proof -
  have "int (length [5, 6 :: byte]) = HashSize (w_crypto demo_wire)" "w_fits demo_wire [[3, 4]]" "(2 :: u64) \<noteq> 1"
    by (simp_all add: demo_wire_def demo_crypto_def)
  from listener_assembles [OF demo_wire_ok this, of new_listener "[[7]]" "[[8]]"] show ?thesis
    by (simp add: new_listener_def fresh_block_def no_hash_def no_token_def no_signature_def demo_wire_def
        demo_crypto_def numeral_2_eq_2)
qed

text \<open>A seal message received while no block is current, for example right after the current
  block was sealed, crashes the listener with a nil dereference, whatever epoch it names.\<close>

lemma listener_seal_crash:
  assumes "wire_ok w" and "int (length h) = HashSize (w_crypto w)" and "int (length h2) = HashSize (w_crypto w)"
  shows "react (listener_step w) s (new_msg w e # map (action_msg w) acts @ [seal_msg w e h, seal_msg w e2 h2]) =
    ([], Crashed NilPanic)"
  by (simp add: step_new [OF assms(1)] react_actions [OF assms(1)] step_seal [OF assms(1,2)]
      step_seal [OF assms(1,3)] write_block_def nth_append list_update_append fresh_block_def)

lemma listener_seal_crash_example:
  "react (listener_step demo_wire) new_listener
     [new_msg demo_wire 2, action_msg demo_wire [7], seal_msg demo_wire 2 [5, 6], seal_msg demo_wire 1 [5, 6]] =
   ([], Crashed NilPanic)"
proof -
  have "int (length [5, 6 :: byte]) = HashSize (w_crypto demo_wire)"
    by (simp add: demo_wire_def demo_crypto_def)
  from listener_seal_crash [OF demo_wire_ok this this, of new_listener 2 "[[7]]" 1] show ?thesis by simp
qed

text \<open>A block committed before it was sealed is delivered while the listener still holds it as
  the current block: a later action is written into the block already delivered.\<close>

lemma listener_late_action:
  assumes "wire_ok w" and "w_fits w hs"
  shows "\<exists>s'. react (listener_step w) new_listener
      (new_msg w e # map (action_msg w) acts @ [commit_msg w e hs, action_msg w a]) =
    ([SendBlock 0 ((fresh_block (w_crypto w) e)\<lparr>pb_Actions := acts, pb_Invalidated := hs\<rparr>)], Running s') \<and>
    l_heap s' ! 0 = (fresh_block (w_crypto w) e)\<lparr>pb_Actions := acts @ [a], pb_Invalidated := hs\<rparr>"
proof -
  define s where "s = new_listener"
  have s: "l_heap s = []" "l_blocks s = Map.empty" by (simp_all add: s_def new_listener_def)
  show ?thesis unfolding s_def [symmetric]
    by (simp add: step_new [OF assms(1)] react_actions [OF assms(1)] step_commit [OF assms(1,2)]
      step_action [OF assms(1)] on_action_def write_block_def fresh_block_def s)
qed

lemma listener_late_action_example:
  "\<exists>s'. react (listener_step demo_wire) new_listener
      [new_msg demo_wire 1, action_msg demo_wire [7], commit_msg demo_wire 1 [], action_msg demo_wire [9]] =
    ([SendBlock 0 ((fresh_block demo_crypto 1)\<lparr>pb_Actions := [[7]]\<rparr>)], Running s') \<and>
    pb_Actions (l_heap s' ! 0) = [[7], [9]]"
proof -
  have "w_fits demo_wire []" by (simp add: demo_wire_def)
  from listener_late_action [OF demo_wire_ok this, of 1 "[[7]]" "[9]"] show ?thesis
    by (auto simp: demo_wire_def fresh_block_def)
qed

end
