(* ===== verification/Breeze_Types.thy ===== *)
theory Breeze_Types
  imports Ext
begin

text \<open>
  The structs of \<open>breeze/consensus/chain\<close> whose fields the code reads, and the parsers and
  serializers of that package as one more record of parameters. A pointer field or result
  is an \<open>option\<close>, \<open>None\<close> being nil.
\<close>

record breeze_header =
  bh_Epoch :: u64
  bh_CheckPoint :: u64
  bh_CheckpointHash :: hash
  bh_Proposer :: token

record breeze_seal =
  bs_Hash :: hash
  bs_SealSignature :: signature

record breeze_commit =
  bc_Invalidated :: "hash list"
  bc_PublishedBy :: token
  bc_PublishSign :: signature

text \<open>\<open>chain.SealedBlock\<close> and \<open>chain.CommitBlock\<close>, which has one more field.\<close>

record 'a sealed_block =
  kb_Header :: breeze_header
  kb_Actions :: "'a option"
  kb_Seal :: breeze_seal

record 'a commit_block = "'a sealed_block" +
  kb_Commit :: "breeze_commit option"

record 'a breeze =
  ParseBlockHeader :: "bytes \<Rightarrow> breeze_header option"
  ParseBlockSeal :: "bytes \<Rightarrow> breeze_seal option"
  ParseBlockCommit :: "bytes \<Rightarrow> breeze_commit option"
  ParseSealedBlock :: "bytes \<Rightarrow> 'a sealed_block option"
  ParseCommitBlock :: "bytes \<Rightarrow> 'a commit_block option"
  SerializeCommitBlock :: "'a commit_block \<Rightarrow> bytes"
  SyncMessage :: "u64 \<Rightarrow> bytes"
  ParseActionsArray :: "bytes \<Rightarrow> int \<Rightarrow> bytes list \<times> int"
  BlockActionOffset :: int
  ActionProtocol :: "bytes \<Rightarrow> u32"  \<comment> \<open>\<open>actions.Protocol\<close>\<close>

section \<open>A concrete instance\<close>

text \<open>
  For the witnesses. A header is its epoch byte, a seal two bytes of hash and two of signature,
  a commit one byte per invalidated hash; a block has its header first and its actions, one
  byte each, from the second byte on.
\<close>

definition demo_header :: "byte \<Rightarrow> breeze_header" where
  "demo_header b = \<lparr>bh_Epoch = ucast b, bh_CheckPoint = 0, bh_CheckpointHash = [0, 0], bh_Proposer = [1, 1]\<rparr>"

definition demo_seal :: "bytes \<Rightarrow> breeze_seal" where
  "demo_seal d = \<lparr>bs_Hash = take 2 d, bs_SealSignature = drop 2 d\<rparr>"

definition demo_commit :: "bytes \<Rightarrow> breeze_commit" where
  "demo_commit d = \<lparr>bc_Invalidated = map (\<lambda>b. [b, b]) d, bc_PublishedBy = [1, 1], bc_PublishSign = [1, 1]\<rparr>"

definition demo_breeze :: "bytes list breeze" where
  "demo_breeze = \<lparr>
     ParseBlockHeader = (\<lambda>d. case d of [] \<Rightarrow> None | b # _ \<Rightarrow> Some (demo_header b)),
     ParseBlockSeal = (\<lambda>d. if length d < 2 then None else Some (demo_seal d)),
     ParseBlockCommit = (\<lambda>d. Some (demo_commit d)),
     ParseSealedBlock = (\<lambda>d. case d of [] \<Rightarrow> None
        | b # as \<Rightarrow> Some \<lparr>kb_Header = demo_header b, kb_Actions = Some (map (\<lambda>a. [a]) as), kb_Seal = demo_seal [5, 5, 1, 1]\<rparr>),
     ParseCommitBlock = (\<lambda>d. case d of [] \<Rightarrow> None
        | b # as \<Rightarrow> Some \<lparr>kb_Header = demo_header b, kb_Actions = Some (map (\<lambda>a. [a]) as), kb_Seal = demo_seal [5, 5, 1, 1],
            kb_Commit = Some (demo_commit [])\<rparr>),
     SerializeCommitBlock = (\<lambda>b. ucast (bh_Epoch (kb_Header b)) # concat (case kb_Actions b of None \<Rightarrow> [] | Some as \<Rightarrow> as)),
     SyncMessage = (\<lambda>e. 8 # le_bytes 8 (unat e)),
     ParseActionsArray = (\<lambda>d p. (map (\<lambda>a. [a]) (drop (nat p) d), int (length d))),
     BlockActionOffset = 1,
     ActionProtocol = (\<lambda>a. case a of [] \<Rightarrow> 0 | b # _ \<Rightarrow> ucast b)\<rparr>"

end
