(* ===== verification/Breeze.thy ===== *)
theory Breeze
  imports Machine Messages Breeze_Types
begin

text \<open>
  \<open>BreezeBlockListener\<close> of \<open>social/listener.go\<close>: the goroutine that turns the messages of a
  breeze node into signals for the node of a social protocol.

  A signal is sent by pointer, and the signals of a whole block are one object, assigned to
  between the sends. \<open>Store r sig\<close> is the object \<open>r\<close> after an assignment to a field,
  \<open>SendSignal r sig\<close> the sending of the pointer while the object is \<open>sig\<close>. The state of the
  loop is the number of objects it has allocated.
\<close>

datatype signal_kind =
  ErrSignal | NewBlockSignal | ActionSignal | ActionArraySignal | SealSignal | CommitSignal

record 'a block_signal =
  sg_Signal :: signal_kind
  sg_Epoch :: u64
  sg_Checkpoint :: u64
  sg_Hash :: hash
  sg_HashArray :: "hash list"
  sg_Token :: token
  sg_Signature :: signature
  sg_Action :: bytes
  sg_Actions :: "'a option"
  sg_Err :: bool

datatype 'a signal_event =
    Store nat "'a block_signal"
  | SendSignal nat "'a block_signal"
  | ToSource bytes  \<comment> \<open>\<open>conn.Send\<close>\<close>

text \<open>\<open>&BlockSignal{Signal: k}\<close>, the other fields zero.\<close>

definition zero_signal :: "crypto \<Rightarrow> signal_kind \<Rightarrow> 'a block_signal" where
  "zero_signal C k = \<lparr>sg_Signal = k, sg_Epoch = 0, sg_Checkpoint = 0, sg_Hash = no_hash C, sg_HashArray = [],
     sg_Token = no_token C, sg_Signature = no_signature C, sg_Action = [], sg_Actions = None, sg_Err = False\<rparr>"

definition header_signal :: "crypto \<Rightarrow> breeze_header \<Rightarrow> 'a block_signal" where
  "header_signal C h = (zero_signal C NewBlockSignal)\<lparr>sg_Epoch := bh_Epoch h, sg_Checkpoint := bh_CheckPoint h,
     sg_Hash := bh_CheckpointHash h, sg_Token := bh_Proposer h\<rparr>"

text \<open>One object sent, and a new one for the next message.\<close>

definition send_new :: "nat \<Rightarrow> 'a block_signal \<Rightarrow> (nat, 'a signal_event) reaction" where
  "send_new r sg = Continue (Suc r) [SendSignal r sg]"

text \<open>
  The signals of a sealed block: each line of the list is an assignment or a send of the
  code, in its order. The assignments before the first send are not seen by anybody.
\<close>

definition sealed_events :: "crypto \<Rightarrow> nat \<Rightarrow> breeze_header \<Rightarrow> 'a option \<Rightarrow> breeze_seal \<Rightarrow> 'a signal_event list" where
  "sealed_events C r header acts seal =
     (let s1 = header_signal C header;
          s2 = s1\<lparr>sg_Signal := ActionArraySignal\<rparr>;
          s3 = s2\<lparr>sg_Actions := acts\<rparr>;
          s4 = s3\<lparr>sg_Signal := SealSignal\<rparr>;
          s5 = s4\<lparr>sg_Hash := bs_Hash seal\<rparr>;
          s6 = s5\<lparr>sg_Signature := bs_SealSignature seal\<rparr>
      in [SendSignal r s1, Store r s2, Store r s3, SendSignal r s3,
          Store r s4, Store r s5, Store r s6, SendSignal r s6])"

definition commit_events :: "crypto \<Rightarrow> nat \<Rightarrow> breeze_header \<Rightarrow> 'a option \<Rightarrow> breeze_seal \<Rightarrow> breeze_commit \<Rightarrow> 'a signal_event list" where
  "commit_events C r header acts seal commit =
     (let s6 = (header_signal C header)\<lparr>sg_Signal := SealSignal, sg_Actions := acts, sg_Hash := bs_Hash seal,
                 sg_Signature := bs_SealSignature seal\<rparr>;
          s7 = s6\<lparr>sg_Signal := CommitSignal\<rparr>;
          s8 = s7\<lparr>sg_HashArray := bc_Invalidated commit\<rparr>;
          s9 = s8\<lparr>sg_Token := bc_PublishedBy commit\<rparr>;
          s10 = s9\<lparr>sg_Signature := bc_PublishSign commit\<rparr>
      in sealed_events C r header acts seal @ [Store r s7, Store r s8, Store r s9, Store r s10, SendSignal r s10])"

definition breeze_step :: "wire \<Rightarrow> 'a breeze \<Rightarrow> nat \<Rightarrow> read_event \<Rightarrow> (nat, 'a signal_event) reaction" where
  "breeze_step w B r ev =
     (case ev of
        ReadError \<Rightarrow> Return [SendSignal r ((zero_signal (w_crypto w) ErrSignal)\<lparr>sg_Err := True\<rparr>)]
      | Read msg \<Rightarrow>
          (case msg of
             [] \<Rightarrow> Crash IndexPanic []
           | k # rest \<Rightarrow>
               if k = MsgAction (w_msg w) then
                 send_new r ((zero_signal (w_crypto w) ActionSignal)\<lparr>sg_Action := rest\<rparr>)
               else if k = MsgNewBlock (w_msg w) then
                 (case ParseBlockHeader B rest of
                    None \<Rightarrow> Continue r []
                  | Some header \<Rightarrow> send_new r (header_signal (w_crypto w) header))
               else if k = MsgSealBlock (w_msg w) then
                 (if length msg > 9 then
                    (case ParseBlockSeal B (drop 9 msg) of
                       None \<Rightarrow> Continue r []
                     | Some seal \<Rightarrow> send_new r ((zero_signal (w_crypto w) SealSignal)
                         \<lparr>sg_Epoch := fst (ParseUint64 (w_util w) msg 1), sg_Hash := bs_Hash seal,
                          sg_Signature := bs_SealSignature seal\<rparr>))
                  else Continue r [])
               else if k = MsgCommitBlock (w_msg w) then
                 (if length msg > 9 then
                    (case ParseBlockCommit B (drop 9 msg) of
                       None \<Rightarrow> Continue r []
                     | Some commit \<Rightarrow> send_new r ((zero_signal (w_crypto w) CommitSignal)
                         \<lparr>sg_Epoch := fst (ParseUint64 (w_util w) msg 1), sg_HashArray := bc_Invalidated commit,
                          sg_Token := bc_PublishedBy commit, sg_Signature := bc_PublishSign commit\<rparr>))
                  else Continue r [])
               else if k = MsgBlockCommitted (w_msg w) then
                 (case ParseCommitBlock B rest of
                    None \<Rightarrow> Continue r []
                  | Some b \<Rightarrow>
                      (case kb_Commit b of
                         None \<Rightarrow> Crash NilPanic (sealed_events (w_crypto w) r (kb_Header b) (kb_Actions b) (kb_Seal b))
                       | Some commit \<Rightarrow> Continue (Suc r)
                           (commit_events (w_crypto w) r (kb_Header b) (kb_Actions b) (kb_Seal b) commit)))
               else if k = MsgBlockSealed (w_msg w) then
                 (case ParseSealedBlock B rest of
                    None \<Rightarrow> Continue r []
                  | Some b \<Rightarrow> Continue (Suc r) (sealed_events (w_crypto w) r (kb_Header b) (kb_Actions b) (kb_Seal b)))
               else Continue r []))"

text \<open>
  The function. Its channel has no buffer, and its caller receives from it only after it
  has returned: the send of the dial error is never received.
\<close>

definition BreezeBlockListener ::
  "wire \<Rightarrow> 'a breeze \<Rightarrow> bool \<Rightarrow> u64 \<Rightarrow> read_event list \<Rightarrow> 'a signal_event list \<times> nat outcome" where
  "BreezeBlockListener w B dialed epoch reads =
     (if \<not> dialed then ([], Crashed Deadlock)
      else (case react (breeze_step w B) 0 reads of (os, r) \<Rightarrow> (ToSource (SyncMessage B epoch) # os, r)))"

section \<open>What the receiver gets\<close>

text \<open>The signals as they are when they are sent.\<close>

fun sent_signals :: "'a signal_event list \<Rightarrow> 'a block_signal list" where
  "sent_signals [] = []"
| "sent_signals (SendSignal r sg # evs) = sg # sent_signals evs"
| "sent_signals (_ # evs) = sent_signals evs"

text \<open>
  What the object of the first send can be while the receiver handles it: the receiver does
  not receive again before it is done, so the sender is stopped at the next send.
\<close>

fun until_send :: "nat \<Rightarrow> 'a signal_event list \<Rightarrow> 'a block_signal list" where
  "until_send r [] = []"
| "until_send r (Store r' sg # evs) = (if r' = r then sg # until_send r evs else until_send r evs)"
| "until_send r (SendSignal _ _ # evs) = []"
| "until_send r (ToSource _ # evs) = until_send r evs"

fun observable :: "'a signal_event list \<Rightarrow> 'a block_signal list list" where
  "observable [] = []"
| "observable (SendSignal r sg # evs) = (sg # until_send r evs) # observable evs"
| "observable (_ # evs) = observable evs"

lemma sent_signals_append [simp]: "sent_signals (xs @ ys) = sent_signals xs @ sent_signals ys"
  by (induction xs rule: sent_signals.induct) auto

lemma observable_hd: "map hd (observable evs) = sent_signals evs"
  by (induction evs rule: observable.induct) auto

lemma sent_sealed:
  "sent_signals (sealed_events C r header acts seal) =
     [header_signal C header,
      (header_signal C header)\<lparr>sg_Signal := ActionArraySignal, sg_Actions := acts\<rparr>,
      (header_signal C header)\<lparr>sg_Signal := SealSignal, sg_Actions := acts, sg_Hash := bs_Hash seal,
         sg_Signature := bs_SealSignature seal\<rparr>]"
  by (simp add: sealed_events_def Let_def header_signal_def zero_signal_def)

lemma sent_commit:
  "sent_signals (commit_events C r header acts seal commit) =
     sent_signals (sealed_events C r header acts seal) @
     [(header_signal C header)\<lparr>sg_Signal := CommitSignal, sg_Actions := acts, sg_Hash := bs_Hash seal,
         sg_HashArray := bc_Invalidated commit, sg_Token := bc_PublishedBy commit,
         sg_Signature := bc_PublishSign commit\<rparr>]"
  by (simp add: commit_events_def Let_def header_signal_def zero_signal_def)

text \<open>The actions of a whole block are in \<open>Actions\<close>; \<open>Action\<close> is nil in those signals.\<close>

fun array_without_action :: "'a signal_event \<Rightarrow> bool" where
  "array_without_action (SendSignal r sg) \<longleftrightarrow> (sg_Signal sg = ActionArraySignal \<longrightarrow> sg_Action sg = [])"
| "array_without_action _ \<longleftrightarrow> True"

lemma breeze_step_array:
  "x \<in> set (sent (breeze_step w B r ev)) \<Longrightarrow> array_without_action x"
  by (auto simp: breeze_step_def send_new_def header_signal_def zero_signal_def sealed_events_def commit_events_def Let_def
      split: read_event.splits list.splits if_splits option.splits)

text \<open>Messages after which the loop goes on: not empty, and no block without its commit.\<close>

definition readable :: "'a breeze \<Rightarrow> read_event \<Rightarrow> bool" where
  "readable B ev \<longleftrightarrow> (\<exists>k rest. ev = Read (k # rest) \<and>
     (\<forall>b. ParseCommitBlock B rest = Some b \<longrightarrow> kb_Commit b \<noteq> None))"

lemma breeze_step_runs: "readable B ev \<Longrightarrow> \<exists>r' os. breeze_step w B r ev = Continue r' os"
  by (auto simp: readable_def breeze_step_def send_new_def split: option.splits)

interpretation breeze: running_loop "breeze_step w B" "\<lambda>_. True" "readable B" array_without_action for w B
  by unfold_locales (auto intro: breeze_step_array breeze_step_runs)

end
