(* ===== verification/Node.thy ===== *)
theory Node
  imports Social_Chain Listener Breeze
begin

text \<open>
  \<open>LaunchNode\<close> and \<open>WaitForOutgoingSyncRequest\<close> of \<open>social/node.go\<close>: the node that
  validates a social protocol.

  \<open>node_step\<close> is the goroutine that handles the signals of the block listener: it calls the
  chain and forwards messages. It has neither the lock nor the unbuffered channels: what it
  does is done when the goroutine is never made to wait. \<open>pool_step\<close> is the pool loop's
  handling of what it receives. How the two goroutines wait for each other on the lock and
  the channels is in \<open>Node_Sched\<close>, which also proves that every interleaving does a part of
  what \<open>node_step\<close> does, in its order.
\<close>

section \<open>The signal loop\<close>

datatype node_out =
    Finalize        \<comment> \<open>\<open>finalize <- signal.Err\<close>\<close>
  | NewBlockTick    \<comment> \<open>\<open>newBlock <- struct{}{}\<close>\<close>
  | Forward bytes   \<comment> \<open>\<open>forward <- msg\<close>\<close>

text \<open>The loop of \<open>ActionArraySignal\<close> validates \<open>signal.Action\<close> once per action of the array.\<close>

fun array_loop ::
  "wire \<Rightarrow> ('s, 'b, 'm, 'a) social_env \<Rightarrow> bytes \<Rightarrow> nat \<Rightarrow> ('s, 'b, 'm, 'a) social_chain \<Rightarrow>
     node_out list \<times> ('s, 'b, 'm, 'a) social_chain" where
  "array_loop w E action 0 s = ([], s)"
| "array_loop w E action (Suc n) s =
     (case sc_Validate E s action of (ok, s1) \<Rightarrow>
        (case array_loop w E action n s1 of (os, s2) \<Rightarrow>
           ((if ok then [Forward (ActionSocial (w_msg w) action)] else []) @ os, s2)))"

definition node_step ::
  "wire \<Rightarrow> ('s, 'b, 'm, 'a) social_env \<Rightarrow> ('s, 'b, 'm, 'a) social_chain \<Rightarrow> 'a block_signal \<Rightarrow>
     (('s, 'b, 'm, 'a) social_chain, node_out) reaction" where
  "node_step w E s signal =
     (case sg_Signal signal of
        ErrSignal \<Rightarrow> Return [Finalize]
      | NewBlockSignal \<Rightarrow>
          (case sc_NextBlock E s (sg_Epoch signal) of
             (None, s') \<Rightarrow> Continue s' [NewBlockTick, Forward (NewBlockSocial (w_util w) (w_msg w) (sc_epoch s'))]
           | (Some err, s') \<Rightarrow> Continue s' [NewBlockTick])
      | ActionSignal \<Rightarrow>
          (case sc_Validate E s (sg_Action signal) of (ok, s') \<Rightarrow>
             Continue s' (if ok then [Forward (ActionSocial (w_msg w) (sg_Action signal))] else []))
      | ActionArraySignal \<Rightarrow>
          (case sg_Actions signal of
             None \<Rightarrow> Crash NilPanic []
           | Some arr \<Rightarrow>
               (case array_loop w E (sg_Action signal) (nat (ActionsLen (env_actions E) arr)) s of
                  (os, s') \<Rightarrow> Continue s' os))
      | SealSignal \<Rightarrow>
          (case sc_SealBlock E s (sg_Epoch signal) (sg_Hash signal) of
             (Inr h, s') \<Rightarrow> Continue s' [Forward (SealBlockSocial (w_util w) (w_msg w) (sg_Epoch signal) h)]
           | (Inl err, s') \<Rightarrow> Continue s' [])
      | CommitSignal \<Rightarrow>
          (case sc_Commit E s (sg_Epoch signal) (sg_HashArray signal) of
             (Inr bad, s') \<Rightarrow> Continue s' [Forward (CommitBlockSocial (w_util w) (w_msg w) (sg_Epoch signal) bad)]
           | (Inl err, s') \<Rightarrow> Continue s' []))"

text \<open>
  The pool loop: what it does with each thing it receives. Its connections are a map from
  tokens; \<open>DropDead\<close> and \<open>Broadcast\<close> are the pool's own. A request is answered by \<open>Sync\<close>,
  whose goroutine reads the recent blocks as they are \<open>later\<close>.
\<close>

datatype pool_in = TickIn | ForwardIn bytes | SyncIn token u64

datatype pool_out = DropDead | Broadcast bytes | AddConn token | SyncConn token "conn_event list"

fun pool_step ::
  "wire \<Rightarrow> ('s, 'b, 'm, 'a) social_env \<Rightarrow>
     (nat \<Rightarrow> nat \<Rightarrow> ('m, 'a) social_block \<Rightarrow> ('m, 'a) social_block) \<Rightarrow>
     ('s, 'b, 'm, 'a) social_chain \<Rightarrow> pool_in \<Rightarrow> pool_out list" where
  "pool_step w E later s TickIn = [DropDead]"
| "pool_step w E later s (ForwardIn msg) = [Broadcast msg]"
| "pool_step w E later s (SyncIn t epoch) =
     [AddConn t, SyncConn t (sc_Sync (w_util w) (w_msg w) E later s epoch)]"

text \<open>\<open>WaitForOutgoingSyncRequest\<close>: the epoch requested, or the connection is shut down.\<close>

definition WaitForOutgoingSyncRequest :: "wire \<Rightarrow> read_event \<Rightarrow> conn_event list + u64" where
  "WaitForOutgoingSyncRequest w ev =
     (case ev of
        ReadError \<Rightarrow> Inl [Shutdown]
      | Read data \<Rightarrow>
          if length data \<noteq> 9 \<or> hd data \<noteq> MsgSyncRequest (w_msg w) then Inl [Shutdown]
          else Inr (fst (ParseUint64 (w_util w) data 1)))"

text \<open>
  \<open>LaunchNode\<close>: where it cannot listen it reports the error at once. The signals it handles
  are those of \<open>BreezeBlockListener\<close> as they are sent, for the epoch of the chain.
\<close>

definition LaunchNode ::
  "wire \<Rightarrow> ('s, 'b, 'm, 'a) social_env \<Rightarrow> 'a breeze \<Rightarrow> bool \<Rightarrow> bool \<Rightarrow> read_event list \<Rightarrow>
     ('s, 'b, 'm, 'a) social_chain \<Rightarrow> node_out list \<times> ('s, 'b, 'm, 'a) social_chain outcome" where
  "LaunchNode w E B listening dialed reads s =
     (if \<not> listening then ([Finalize], Returned)
      else react (node_step w E) s (sent_signals (fst (BreezeBlockListener w B dialed (sc_epoch s) reads))))"

section \<open>Signals and chain operations\<close>

lemma array_loop_empty:
  assumes "sc_Transform s = None"
  shows "array_loop w E [] n s = ([], s)"
proof (induction n)
  case (Suc n)
  have "sc_Validate E s [] = (False, s)"
    using assms by (simp add: sc_Validate_def Let_def split: option.splits)
  with Suc show ?case by simp
qed simp

text \<open>The chain operation of a signal, for those that are one operation.\<close>

fun signal_ops :: "'a block_signal \<Rightarrow> nat \<Rightarrow> chain_op list" where
  "signal_ops sg n =
     (case sg_Signal sg of
        ErrSignal \<Rightarrow> []
      | NewBlockSignal \<Rightarrow> [OpNextBlock (sg_Epoch sg)]
      | ActionSignal \<Rightarrow> [OpValidate (sg_Action sg)]
      | ActionArraySignal \<Rightarrow> replicate n (OpValidate (sg_Action sg))
      | SealSignal \<Rightarrow> [OpSealBlock (sg_Epoch sg) (sg_Hash sg)]
      | CommitSignal \<Rightarrow> [OpCommit (sg_Epoch sg) (sg_HashArray sg)])"

lemma array_loop_run: "snd (array_loop w E a n s) = sc_run E s (replicate n (OpValidate a))"
  by (induction n arbitrary: s) (auto split: prod.splits simp: case_prod_unfold)

lemma node_step_ops:
  assumes "node_step w E s sg = Continue s' os"
  shows "\<exists>n. s' = sc_run E s (signal_ops sg n)"
  using assms array_loop_run [of w E "sg_Action sg" _ s]
  by (auto simp: node_step_def split: signal_kind.splits prod.splits option.splits sum.splits)
    (metis snd_conv)

lemma chain_inv_validates:
  "chain_inv s \<Longrightarrow> chain_inv (sc_run E s (replicate n (OpValidate a)))"
  by (induction n arbitrary: s) (auto intro: chain_inv_Validate)

text \<open>What is forwarded is a message of one of the four kinds a listener knows.\<close>

fun known_message :: "chainmsg \<Rightarrow> node_out \<Rightarrow> bool" where
  "known_message M (Forward m) \<longleftrightarrow>
     m \<noteq> [] \<and> hd m \<in> {MsgNewBlock M, MsgAction M, MsgBlockSealed M, MsgBlockCommitted M}"
| "known_message M _ \<longleftrightarrow> True"

definition node_inv :: "wire \<Rightarrow> ('s, 'b, 'm, 'a) social_chain \<Rightarrow> bool" where
  "node_inv w s \<longleftrightarrow> u64_codec (w_util w) \<and> puts_append (w_util w) \<and> chain_inv s"

definition announces_no_genesis :: "'a block_signal \<Rightarrow> bool" where
  "announces_no_genesis sg \<longleftrightarrow> sg_Signal sg = NewBlockSignal \<longrightarrow> sg_Epoch sg \<noteq> 0"

lemma put_u64_append: "u64_codec U \<Longrightarrow> \<exists>e. PutUint64 U v [k] = k # e"
  by (metis put_u64_head)

lemma forwarded_known:
  assumes "u64_codec (w_util w)" and "puts_append (w_util w)"
  shows "known_message (w_msg w) (Forward (NewBlockSocial (w_util w) (w_msg w) e))"
    "known_message (w_msg w) (Forward (ActionSocial (w_msg w) a))"
    "known_message (w_msg w) (Forward (SealBlockSocial (w_util w) (w_msg w) e h))"
    "known_message (w_msg w) (Forward (CommitBlockSocial (w_util w) (w_msg w) e hs))"
proof -
  show "known_message (w_msg w) (Forward (ActionSocial (w_msg w) a))"
    by (simp add: ActionSocial_def)
  have put: "\<exists>x. PutUint64 (w_util w) e [k] = k # x" for k
    using put_u64_append [OF assms(1)] .
  show "known_message (w_msg w) (Forward (NewBlockSocial (w_util w) (w_msg w) e))"
    using put [of "MsgNewBlock (w_msg w)"] by (auto simp: NewBlockSocial_def)
  show "known_message (w_msg w) (Forward (SealBlockSocial (w_util w) (w_msg w) e h))"
    using put [of "MsgBlockSealed (w_msg w)"] assms(2) unfolding puts_append_def SealBlockSocial_def
    by (metis append_Cons known_message.simps(1) list.distinct(1) list.sel(1) insertCI)
  show "known_message (w_msg w) (Forward (CommitBlockSocial (w_util w) (w_msg w) e hs))"
    using put [of "MsgBlockCommitted (w_msg w)"] assms(2) unfolding puts_append_def CommitBlockSocial_def
    by (metis append_Cons known_message.simps(1) list.distinct(1) list.sel(1) insertCI)
qed

lemma array_loop_known: "x \<in> set (fst (array_loop w E a n s)) \<Longrightarrow> known_message (w_msg w) x"
  by (induction n arbitrary: s) (auto simp: ActionSocial_def case_prod_unfold split: if_splits)

lemma node_step_inv:
  assumes "chain_inv s" and "announces_no_genesis sg" and "node_step w E s sg = Continue s' os"
  shows "chain_inv s'"
proof (cases "sg_Signal sg")
  case ErrSignal
  with assms(3) show ?thesis by (simp add: node_step_def)
next
  case NewBlockSignal
  with assms(2,3) chain_inv_NextBlock [OF assms(1), of "sg_Epoch sg" E] show ?thesis
    by (auto simp: node_step_def announces_no_genesis_def split: prod.splits option.splits)
next
  case ActionSignal
  with assms(3) chain_inv_Validate [OF assms(1), of E "sg_Action sg"] show ?thesis
    by (auto simp: node_step_def split: prod.splits)
next
  case ActionArraySignal
  with assms(3) obtain n where "s' = snd (array_loop w E (sg_Action sg) n s)"
    by (auto simp: node_step_def case_prod_unfold split: option.splits)
  with chain_inv_validates [OF assms(1)] show ?thesis by (simp add: array_loop_run)
next
  case SealSignal
  with assms(3) chain_inv_SealBlock [OF assms(1), of E "sg_Epoch sg" "sg_Hash sg"] show ?thesis
    by (auto simp: node_step_def split: prod.splits sum.splits)
next
  case CommitSignal
  with assms(3) chain_inv_Commit [OF assms(1), of E "sg_Epoch sg" "sg_HashArray sg"] show ?thesis
    by (auto simp: node_step_def split: prod.splits sum.splits)
qed

lemma node_step_known:
  assumes "u64_codec (w_util w)" and "puts_append (w_util w)" and "x \<in> set (sent (node_step w E s sg))"
  shows "known_message (w_msg w) x"
  using assms(3) array_loop_known [of x w E "sg_Action sg"]
  by (auto simp: node_step_def case_prod_unfold forwarded_known [OF assms(1,2), simplified]
      split: signal_kind.splits option.splits sum.splits if_splits)

text \<open>Signals the loop handles and goes on: no error, an array where one is announced.\<close>

definition handled :: "'a block_signal \<Rightarrow> bool" where
  "handled sg \<longleftrightarrow> sg_Signal sg \<noteq> ErrSignal \<and> (sg_Signal sg = ActionArraySignal \<longrightarrow> sg_Actions sg \<noteq> None) \<and>
     announces_no_genesis sg"

lemma node_step_runs: "handled sg \<Longrightarrow> \<exists>s' os. node_step w E s sg = Continue s' os"
  by (auto simp: handled_def node_step_def split: signal_kind.splits option.splits prod.splits sum.splits)

interpretation node: running_loop "node_step w E" "node_inv w" handled "known_message (w_msg w)" for w E
  by unfold_locales (auto simp: node_inv_def handled_def intro: node_step_inv node_step_known node_step_runs)

section \<open>The signals of one block\<close>

abbreviation new_sig :: "wire \<Rightarrow> u64 \<Rightarrow> 'a block_signal" where
  "new_sig w e \<equiv> (zero_signal (w_crypto w) NewBlockSignal)\<lparr>sg_Epoch := e\<rparr>"

abbreviation act_sig :: "wire \<Rightarrow> bytes \<Rightarrow> 'a block_signal" where
  "act_sig w a \<equiv> (zero_signal (w_crypto w) ActionSignal)\<lparr>sg_Action := a\<rparr>"

abbreviation seal_sig :: "wire \<Rightarrow> u64 \<Rightarrow> hash \<Rightarrow> 'a block_signal" where
  "seal_sig w e h \<equiv> (zero_signal (w_crypto w) SealSignal)\<lparr>sg_Epoch := e, sg_Hash := h\<rparr>"

abbreviation commit_sig :: "wire \<Rightarrow> u64 \<Rightarrow> hash list \<Rightarrow> 'a block_signal" where
  "commit_sig w e hs \<equiv> (zero_signal (w_crypto w) CommitSignal)\<lparr>sg_Epoch := e, sg_HashArray := hs\<rparr>"

text \<open>The actions of a list that live validation accepts.\<close>

fun accepted :: "('s, 'b, 'm, 'a) social_env \<Rightarrow> ('s, 'b, 'm, 'a) social_chain \<Rightarrow> bytes list \<Rightarrow> bytes list" where
  "accepted E s [] = []"
| "accepted E s (a # rest) = (case sc_Validate E s a of (ok, s') \<Rightarrow> (if ok then [a] else []) @ accepted E s' rest)"

lemma node_step_zero [simp]:
  "sg_Signal (new_sig w e) = NewBlockSignal" "sg_Epoch (new_sig w e) = e"
  "sg_Signal (act_sig w a) = ActionSignal" "sg_Action (act_sig w a) = a"
  "sg_Signal (seal_sig w e h) = SealSignal" "sg_Epoch (seal_sig w e h) = e" "sg_Hash (seal_sig w e h) = h"
  "sg_Signal (commit_sig w e hs) = CommitSignal" "sg_Epoch (commit_sig w e hs) = e" "sg_HashArray (commit_sig w e hs) = hs"
  by (simp_all add: zero_signal_def)

lemma react_validate:
  "react (node_step w E) s (map (act_sig w) xs @ rest) =
     (case react (node_step w E) (validate_list E s xs) rest of
        (os, r) \<Rightarrow> (map (\<lambda>a. Forward (ActionSocial (w_msg w) a)) (accepted E s xs) @ os, r))"
proof (induction xs arbitrary: s)
  case (Cons a xs)
  obtain ok s' where "sc_Validate E s a = (ok, s')" by fastforce
  with Cons show ?case by (simp add: node_step_def case_prod_unfold zero_signal_def)
qed simp

lemma commit_loop_skip:
  "\<forall>c \<in> set pre. sb_Status c = StatusCommit \<and> sb_Epoch c \<noteq> epoch \<Longrightarrow>
     commit_loop E s epoch invalidated walked (pre @ bs) = commit_loop E s epoch invalidated (walked @ pre) bs"
  by (induction pre arbitrary: walked) auto

text \<open>The messages a listener of the node receives, from what the node's loop puts on its channels.\<close>

fun forwarded :: "node_out list \<Rightarrow> bytes list" where
  "forwarded [] = []"
| "forwarded (Forward m # os) = m # forwarded os"
| "forwarded (_ # os) = forwarded os"

lemma forwarded_append [simp]: "forwarded (xs @ ys) = forwarded xs @ forwarded ys"
  by (induction xs rule: forwarded.induct) auto

lemma forwarded_actions [simp]: "forwarded (map (\<lambda>a. Forward (f a)) xs) = map f xs"
  by (induction xs) auto

text \<open>The signals \<open>BreezeBlockListener\<close> sends for a committed block.\<close>

abbreviation whole_block :: "wire \<Rightarrow> breeze_header \<Rightarrow> 'a \<Rightarrow> breeze_seal \<Rightarrow> breeze_commit \<Rightarrow> 'a block_signal list" where
  "whole_block w header acts seal commit \<equiv> sent_signals (commit_events (w_crypto w) 0 header (Some acts) seal commit)"

text \<open>A recent block that was moved there unsealed: until it is sealed, dropped by a rollback or by a
  recovery, neither it nor a later block can be committed.\<close>

definition unsealed_block :: "u64 \<Rightarrow> ('s, 'b, 'm, 'a) social_chain \<Rightarrow> bool" where
  "unsealed_block e s \<longleftrightarrow> chain_inv s \<and>
     (\<exists>b \<in> set (sc_recentBlocks s). sb_Epoch b = e \<and> sb_Status b = StatusLive)"

fun leaves_unsealed :: "u64 \<Rightarrow> chain_op \<Rightarrow> bool" where
  "leaves_unsealed e (OpSealBlock e1 h) \<longleftrightarrow> e1 \<noteq> e"
| "leaves_unsealed e (OpRollback e1) \<longleftrightarrow> e < e1"
| "leaves_unsealed e (OpRecovery e1) \<longleftrightarrow> False"
| "leaves_unsealed e (OpNextBlock e1) \<longleftrightarrow> e1 \<noteq> 0"
| "leaves_unsealed e _ \<longleftrightarrow> True"

lemma unsealed_no_commit:
  assumes "unsealed_block e s" and "e \<le> e1"
  shows "\<exists>err. sc_Commit E s e1 hs = (Inl err, s)"
proof -
  from assms(1) obtain c where inv: "chain_inv s"
    and c: "c \<in> set (sc_recentBlocks s)" "sb_Epoch c = e" "sb_Status c = StatusLive"
    by (auto simp: unsealed_block_def)
  obtain r s' where r: "sc_Commit E s e1 hs = (r, s')" by fastforce
  show ?thesis
  proof (cases r)
    case (Inl err)
    with r show ?thesis using commit_failed by fastforce
  next
    case (Inr bad)
    from commitE [OF r [unfolded Inr]] obtain pre b post where split: "sc_recentBlocks s = pre @ b # post"
      and pre: "\<forall>d \<in> set pre. sb_Status d = StatusCommit \<and> sb_Epoch d \<noteq> e1"
      and b: "sb_Epoch b = e1" "sb_Status b = StatusSealed"
      by metis
    have "\<forall>d \<in> set post. e1 < sb_Epoch d"
      using chain_invD(1) [OF inv] split b(1) by (simp add: sorted_wrt_append)
    with c split pre b assms(2) show ?thesis by auto
  qed
qed

lemma unsealed_stays:
  assumes "unsealed_block e s" and "leaves_unsealed e op"
  shows "unsealed_block e (sc_apply E s op)"
proof -
  from assms(1) obtain c where inv: "chain_inv s"
    and c: "c \<in> set (sc_recentBlocks s)" "sb_Epoch c = e" "sb_Status c = StatusLive"
    by (auto simp: unsealed_block_def)
  have "op_allowed s op" using assms(2) by (cases op) auto
  then have inv': "chain_inv (sc_apply E s op)" by (rule chain_inv_apply [OF inv])
  have "c \<in> set (sc_recentBlocks (sc_apply E s op))"
  proof (cases op)
    case (OpValidate a)
    with c show ?thesis by (simp add: sc_Validate_def Let_def split: option.splits prod.splits)
  next
    case (OpNextBlock e1)
    with c show ?thesis by (simp add: sc_NextBlock_def Let_def split: option.splits)
  next
    case (OpSealBlock e1 h)
    with assms(2) have "e1 \<noteq> e" by simp
    moreover have "d \<in> set xs \<Longrightarrow> sb_Epoch d \<noteq> e1 \<Longrightarrow> d \<in> set (update_first (\<lambda>b. sb_Epoch b = e1) f xs)"
      for d :: "('c, 'd) social_block" and f xs
      by (induction xs) auto
    ultimately show ?thesis using OpSealBlock c
      by (auto simp: sc_SealBlock_def Let_def split: option.splits)
  next
    case (OpCommit e1 hs)
    obtain r s' where r: "sc_Commit E s e1 hs = (r, s')" by fastforce
    show ?thesis
    proof (cases r)
      case (Inl err)
      with r commit_failed have "s' = s" by metis
      with OpCommit r c show ?thesis by simp
    next
      case (Inr bad)
      from commitE [OF r [unfolded Inr]] obtain pre b post m where split: "sc_recentBlocks s = pre @ b # post"
        and b: "sb_Status b = StatusSealed"
        and s': "s' = s\<lparr>sc_recentBlocks := pre @
              b\<lparr>sb_Status := StatusCommit, sb_Invalidated := bad, sb_mutations := m\<rparr> # post,
            sc_commit := Incorporate (env_state E) (sc_commit s) m, sc_commitEpoch := e1\<rparr>"
        by metis
      from c split b have "c \<in> set pre \<union> set post" by auto
      with OpCommit r s' show ?thesis by auto
    qed
  next
    case (OpRollback e1)
    with assms(2) c(2) have "sb_Epoch c < e1" by simp
    with c OpRollback show ?thesis
      using takeWhile_before [OF chain_invD(1) [OF inv], of e1] by (auto simp: sc_Rollback_def)
  next
    case (OpRecovery e1)
    with assms(2) show ?thesis by simp
  qed
  with inv' c show ?thesis by (auto simp: unsealed_block_def)
qed

lemma unsealed_run:
  "unsealed_block e s \<Longrightarrow> list_all (leaves_unsealed e) ops \<Longrightarrow> unsealed_block e (sc_run E s ops)"
  by (induction ops arbitrary: s) (auto intro: unsealed_stays)

section \<open>Properties\<close>



text \<open>The signals of a whole block are one object: while the node handles the first of them, the new
  block, the listener may already have written the kind of the second, and not yet its actions;
  a node that reads the object then dereferences a nil array and crashes.\<close>

lemma shared_signal_crash:
  "\<exists>sg \<in> set (hd (observable (commit_events C r header acts seal commit))).
    sg_Epoch sg = bh_Epoch header \<and> (\<forall>w E s. node_step w E s sg = Crash NilPanic [])"
  by (simp add: commit_events_def sealed_events_def Let_def header_signal_def zero_signal_def node_step_def)

text \<open>A node that can listen but cannot reach its block provider hangs without reporting: the error
  signal is sent on a channel nobody receives from yet, so nothing is ever put on \<open>finalize\<close> and
  the chain stays as it is; a read error of an established connection is reported.\<close>

lemma dial_error_unreported:
  "BreezeBlockListener w B False epoch reads = ([], Crashed Deadlock) \<and>
   LaunchNode w E B True False reads s = ([], Running s) \<and>
   LaunchNode w E B True True [ReadError] s = ([Finalize], Returned)"
  by (simp add: LaunchNode_def BreezeBlockListener_def breeze_step_def node_step_def zero_signal_def)

text \<open>The signal loop taken alone, without the lock and the channels on which it may wait for ever
  (\<open>Node_Sched\<close>): no signal other than a read error, or an array signal without an array, ends it,
  and it keeps the invariant of the chain.\<close>

lemma node_keeps_running:
  assumes "u64_codec (w_util w)" and "puts_append (w_util w)" and "chain_inv s" and "list_all handled signals"
  shows "\<exists>s' os. react (node_step w E) s signals = (os, Running s') \<and> chain_inv s' \<and>
    list_all (known_message (w_msg w)) os"
proof -
  have i: "node_inv w s" using assms(1-3) by (simp add: node_inv_def)
  obtain s' os where r: "react (node_step w E) s signals = (os, Running s')" "node_inv w s'"
    using node.react_runs [OF i assms(4)] by blast
  with node.react_good [OF i assms(4), of E] show ?thesis by (auto simp: node_inv_def)
qed

lemma node_keeps_running_example:
  "\<exists>s' os. react (node_step demo_wire demo_env) demo_chain [new_sig demo_wire 1, act_sig demo_wire [7], seal_sig demo_wire 1 []] =
     (os, Running s') \<and> chain_inv s' \<and> list_all (known_message demo_msg) os"
proof -
  have w: "w_util demo_wire = demo_util" "w_msg demo_wire = demo_msg" by (simp_all add: demo_wire_def)
  have "list_all handled [new_sig demo_wire 1, act_sig demo_wire [7], seal_sig demo_wire 1 []]"
    by (simp add: handled_def announces_no_genesis_def)
  from node_keeps_running [OF _ _ demo_chain_inv this, of demo_wire demo_env, unfolded w, OF demo_u64_codec demo_puts_append]
  show ?thesis .
qed

end
