(* ===== verification/Node_Feed.thy ===== *)
theory Node_Feed
  imports Node
begin

text \<open>
  From the validator to its listeners: \<open>node_step\<close> (\<open>social/node.go\<close>) fed with the signals of
  a sequence of blocks, and \<open>listener_step\<close> (\<open>social/listener.go\<close>) fed with what the node
  forwards.

  A breeze node works in a pipeline: it opens a block before the previous one is sealed and
  committed. \<open>pipeline\<close> is such a feed, and \<open>delivered\<close> the specification of what listeners
  get from it, said over the protocol's own operations, without the chain of blocks, the
  signals and the messages.
\<close>

section \<open>The specification\<close>

text \<open>Live validation: the actions accepted, and the validator after them.\<close>

fun live_run ::
  "('s, 'b, 'm, 'a) social_env \<Rightarrow> 's \<Rightarrow> 'b \<Rightarrow> bytes list \<Rightarrow> bytes list \<times> 'b" where
  "live_run E st v [] = ([], v)"
| "live_run E st v (a # rest) =
     (if a = [] then live_run E st v rest
      else (case BlockValidate (env_state E) st v a of (ok, v1) \<Rightarrow>
              (case live_run E st v1 rest of (as, v2) \<Rightarrow> ((if ok then a # as else as), v2))))"

definition array_of :: "'a actionarray \<Rightarrow> bytes list \<Rightarrow> 'a" where
  "array_of A acts = foldl (ActionsAppend A) (NewActionArray A) acts"

text \<open>
  The block of epoch \<open>e\<close> is open with the actions \<open>acc\<close>. Of each round the first actions still
  go to it, then the next block is opened and gets the others, then the first is sealed and
  committed, with the hashes the breeze chain invalidated. The result is the blocks, and the
  state after the commits.
\<close>

fun delivered ::
  "wire \<Rightarrow> ('s, 'b, 'm, 'a) social_env \<Rightarrow> 's \<Rightarrow> 'b \<Rightarrow> u64 \<Rightarrow> bytes list \<Rightarrow>
     (bytes list \<times> bytes list \<times> hash \<times> hash list) list \<Rightarrow> protocol_block list \<times> 's" where
  "delivered w E st v e acc [] = ([], st)"
| "delivered w E st v e acc ((xs, ys, h, hs) # rounds) =
     (let acts = acc @ fst (live_run E st v xs);
          next_block = live_run E st (Validator (env_state E) st) ys;
          bad = reported E st hs (Validator (env_state E) st) acts;
          m = Mutations (env_state E) (validate_all E st (Validator (env_state E) st)
                (filter (\<lambda>x. Hasher (env_crypto E) x \<notin> set hs) acts));
          block = (fresh_block (w_crypto w) e)\<lparr>pb_Actions := acts, pb_Invalidated := bad,
                     pb_Hash := ActionsHash (env_actions E) (array_of (env_actions E) acts)\<rparr>
      in case delivered w E (Incorporate (env_state E) st m) (snd next_block) (e + 1) (fst next_block) rounds of
           (blocks, st') \<Rightarrow> (block # blocks, st'))"

section \<open>The feed\<close>

definition feed_round :: "wire \<Rightarrow> u64 \<Rightarrow> bytes list \<Rightarrow> bytes list \<Rightarrow> hash \<Rightarrow> hash list \<Rightarrow> 'a block_signal list" where
  "feed_round w e xs ys h hs =
     map (act_sig w) xs @ new_sig w (e + 1) # map (act_sig w) ys @ [seal_sig w e h, commit_sig w e hs]"

fun pipeline ::
  "wire \<Rightarrow> u64 \<Rightarrow> (bytes list \<times> bytes list \<times> hash \<times> hash list) list \<Rightarrow> 'a block_signal list" where
  "pipeline w e [] = []"
| "pipeline w e ((xs, ys, h, hs) # rounds) = feed_round w e xs ys h hs @ pipeline w (e + 1) rounds"

section \<open>The node in one round\<close>

lemma validate_list_run:
  assumes "sc_Transform s = None" and "sc_live s = Some l"
    and "live_run E (sc_commit s) (sc_validator s) xs = (as, v)"
  shows "validate_list E s xs = s\<lparr>sc_validator := v,
      sc_live := Some (l\<lparr>sb_Actions := foldl (ActionsAppend (env_actions E)) (sb_Actions l) as\<rparr>)\<rparr> \<and>
    accepted E s xs = as"
  using assms
proof (induction xs arbitrary: s l as)
  case Nil
  then show ?case by simp
next
  case (Cons a xs)
  show ?case
  proof (cases "a = []")
    case True
    with Cons.prems have "sc_Validate E s a = (False, s)" by (simp add: sc_Validate_def)
    with True Cons show ?thesis by simp
  next
    case False
    obtain ok v1 where bv: "BlockValidate (env_state E) (sc_commit s) (sc_validator s) a = (ok, v1)" by fastforce
    obtain bs where bs: "live_run E (sc_commit s) v1 xs = (bs, v)"
      using Cons.prems(3) False bv by (auto split: prod.splits)
    show ?thesis
    proof (cases ok)
      case True
      let ?l = "l\<lparr>sb_Actions := ActionsAppend (env_actions E) (sb_Actions l) a\<rparr>"
      let ?s = "s\<lparr>sc_validator := v1, sc_live := Some ?l\<rparr>"
      have "sc_Validate E s a = (True, ?s)" using Cons.prems bv False True by (simp add: sc_Validate_def)
      moreover have "as = a # bs" using Cons.prems(3) False bv bs True by simp
      ultimately show ?thesis using Cons.IH [of ?s ?l bs] bs Cons.prems(1) by simp
    next
      case refused: False
      let ?s = "s\<lparr>sc_validator := v1\<rparr>"
      have "sc_Validate E s a = (False, ?s)" using Cons.prems bv False refused by (simp add: sc_Validate_def)
      moreover have "as = bs" using Cons.prems(3) False bv bs refused by simp
      ultimately show ?thesis using Cons.IH [of ?s l bs] bs Cons.prems(1,2) by simp
    qed
  qed
qed

lemma chain_inv_validate_list: "chain_inv s \<Longrightarrow> chain_inv (validate_list E s xs)"
  by (induction xs arbitrary: s) (auto intro: chain_inv_Validate)

text \<open>The chain while the block of epoch \<open>e\<close> is live with the actions \<open>acc\<close>.\<close>

definition open_chain ::
  "('s, 'b, 'm, 'a) social_env \<Rightarrow> 's \<Rightarrow> 'b \<Rightarrow> u64 \<Rightarrow> bytes list \<Rightarrow> ('s, 'b, 'm, 'a) social_chain \<Rightarrow> bool" where
  "open_chain E st v e acc s \<longleftrightarrow> chain_inv s \<and> sc_Transform s = None \<and> sc_epoch s = e \<and>
     sc_commit s = st \<and> sc_validator s = v \<and> (\<forall>b \<in> set (sc_recentBlocks s). sb_Status b = StatusCommit) \<and>
     (\<exists>l. sc_live s = Some l \<and> sb_Actions l = array_of (env_actions E) acc)"

lemma open_chain_next:
  assumes "chain_inv s" and "sc_live s = None" and "sc_Transform s = None"
    and "\<forall>b \<in> set (sc_recentBlocks s). sb_Status b = StatusCommit" and "sc_epoch s + 1 \<noteq> 0"
  shows "\<exists>s1. sc_NextBlock E s (sc_epoch s + 1) = (None, s1) \<and>
    open_chain E (sc_commit s) (Validator (env_state E) (sc_commit s)) (sc_epoch s + 1) [] s1"
proof -
  have "chain_inv (snd (sc_NextBlock E s (sc_epoch s + 1)))"
    by (rule chain_inv_NextBlock [OF assms(1,5)])
  with assms show ?thesis
    by (auto simp: open_chain_def sc_NextBlock_def Let_def array_of_def)
qed

lemma all_actions_array:
  assumes "actions_are_lists A view"
  shows "all_actions A (array_of A acts) = acts"
proof -
  have "view (array_of A acts) = acts"
    by (induction acts rule: rev_induct) (simp_all add: array_of_def actions_are_listsD [OF assms])
  then show ?thesis by (simp add: all_actions_view [OF assms])
qed

lemma node_round:
  fixes E :: "('s, 'b, 'm, 'a) social_env" and hs :: "hash list" and acc ac :: "bytes list"
  assumes A: "actions_are_lists (env_actions E) view" and op: "open_chain E st v e acc s" and e: "e + 1 \<noteq> 0"
    and xs: "live_run E st v xs = (ac, v1)" and ys: "live_run E st (Validator (env_state E) st) ys = (bc, v2)"
  defines "acts \<equiv> acc @ ac"
  defines "m \<equiv> Mutations (env_state E) (validate_all E st (Validator (env_state E) st)
                (filter (\<lambda>x. Hasher (env_crypto E) x \<notin> set hs) acts))"
  shows "\<exists>os s'. react (node_step w E) s (feed_round w e xs ys h hs) = (os, Running s') \<and>
    forwarded os = map (ActionSocial (w_msg w)) ac @ NewBlockSocial (w_util w) (w_msg w) (e + 1) #
      map (ActionSocial (w_msg w)) bc @
      [SealBlockSocial (w_util w) (w_msg w) e (ActionsHash (env_actions E) (array_of (env_actions E) acts)),
       CommitBlockSocial (w_util w) (w_msg w) e (reported E st hs (Validator (env_state E) st) acts)] \<and>
    open_chain E (Incorporate (env_state E) st m) v2 (e + 1) bc s'"
proof -
  let ?A = "env_actions E" and ?V = "Validator (env_state E) st"
  from op have inv: "chain_inv s" and T: "sc_Transform s = None" and ep: "sc_epoch s = e"
    and st: "sc_commit s = st" and v: "sc_validator s = v"
    and all: "\<forall>b \<in> set (sc_recentBlocks s). sb_Status b = StatusCommit"
    by (auto simp: open_chain_def)
  from op obtain l where l: "sc_live s = Some l" "sb_Actions l = array_of ?A acc"
    by (auto simp: open_chain_def)
  note L = chain_invD(5-8) [OF inv l(1)]
  let ?l1 = "l\<lparr>sb_Actions := array_of ?A acts\<rparr>"
  have arr: "foldl (ActionsAppend ?A) (sb_Actions l) ac = array_of ?A acts"
    by (simp add: l(2) acts_def array_of_def)
  have s1: "validate_list E s xs = s\<lparr>sc_validator := v1, sc_live := Some ?l1\<rparr>" "accepted E s xs = ac"
    using validate_list_run [OF T l(1), of E xs ac v1] xs st v arr by simp_all
  define d where "d = ?l1\<lparr>sb_Status := StatusDone, sb_mutations := Mutations (env_state E) v1\<rparr>"
  define n where "n = \<lparr>sb_Epoch = e + 1, sb_Checkpoint = sc_commitEpoch s, sb_Origin = no_hash (env_crypto E),
    sb_Actions = NewActionArray ?A, sb_Invalidated = [], sb_Status = StatusLive,
    sb_mutations = NoMutations (env_state E)\<rparr>"
  let ?s2 = "s\<lparr>sc_validator := ?V, sc_live := Some n, sc_epoch := e + 1, sc_recentBlocks := sc_recentBlocks s @ [d]\<rparr>"
  have s2: "sc_NextBlock E (validate_list E s xs) (e + 1) = (None, ?s2)"
    using ep st by (simp add: s1(1) sc_NextBlock_def Let_def d_def n_def)
  have inv2: "chain_inv ?s2"
    using chain_inv_NextBlock [OF chain_inv_validate_list [OF inv, of E xs] e, of E] s2 by simp
  let ?n3 = "n\<lparr>sb_Actions := array_of ?A bc\<rparr>"
  let ?s3 = "?s2\<lparr>sc_validator := v2, sc_live := Some ?n3\<rparr>"
  have s3: "validate_list E ?s2 ys = ?s3" "accepted E ?s2 ys = bc"
    using validate_list_run [of ?s2 n E ys bc v2] ys st T by (simp_all add: n_def array_of_def)
  have inv3: "chain_inv ?s3" using chain_inv_validate_list [OF inv2, of E ys] by (simp add: s3(1))
  have d: "sb_Epoch d = e" "sb_Status d = StatusDone" "sb_Actions d = array_of ?A acts"
    using L(1) ep by (simp_all add: d_def)
  have fresh: "\<forall>b \<in> set (sc_recentBlocks s). sb_Epoch b \<noteq> e"
    using L(1,4) ep by fastforce
  have find: "find (\<lambda>b. sb_Epoch b = e) (sc_recentBlocks s @ [d]) = Some d"
    using find_last [of "sc_recentBlocks s" sb_Epoch d] fresh by (simp add: d(1))
  have not_e: "\<not> (\<exists>b \<in> set (sc_recentBlocks s). sb_Epoch b = e)" using fresh by blast
  let ?d4 = "d\<lparr>sb_Status := StatusSealed, sb_Origin := h\<rparr>"
  let ?s4 = "?s3\<lparr>sc_recentBlocks := sc_recentBlocks s @ [?d4]\<rparr>"
  have s4: "sc_SealBlock E ?s3 e h = (Inr (ActionsHash ?A (array_of ?A acts)), ?s4)"
    using find by (simp add: sc_SealBlock_def sc_findBlock_def n_def StatusSealed_le_iff d update_first_append not_e)
  have inv4: "chain_inv ?s4" using chain_inv_SealBlock [OF inv3, of E e h] s4 by simp
  have rv: "sc_revalidate E ?s4 (array_of ?A acts) hs = (reported E st hs ?V acts, m)"
    by (simp add: sc_revalidate_def revalidate_loop_spec all_actions_array [OF A] st m_def)
  have skip: "\<forall>c \<in> set (sc_recentBlocks s). sb_Status c = StatusCommit \<and> sb_Epoch c \<noteq> e"
    using all fresh by blast
  define s5 where "s5 = ?s4\<lparr>sc_recentBlocks := sc_recentBlocks s @ [?d4\<lparr>sb_Status := StatusCommit,
      sb_Invalidated := reported E st hs ?V acts, sb_mutations := m\<rparr>],
    sc_commit := Incorporate (env_state E) st m, sc_commitEpoch := e\<rparr>"
  have s5: "sc_Commit E ?s4 e hs = (Inr (reported E st hs ?V acts), s5)"
    using rv by (simp add: sc_Commit_def commit_loop_skip [OF skip] d st s5_def)
  have "chain_inv s5" using chain_inv_Commit [OF inv4, of E e hs] s5 by simp
  then have "open_chain E (Incorporate (env_state E) st m) v2 (e + 1) bc s5"
    using all T by (auto simp: open_chain_def s5_def)
  moreover define t2 t3 t4 where "t2 = ?s2" and "t3 = ?s3" and "t4 = ?s4"
  ultimately have "open_chain E (Incorporate (env_state E) st m) v2 (e + 1) bc s5"
    and calls: "sc_NextBlock E (validate_list E s xs) (e + 1) = (None, t2)" "sc_epoch t2 = e + 1"
      "validate_list E t2 ys = t3" "accepted E t2 ys = bc"
      "sc_SealBlock E t3 e h = (Inr (ActionsHash ?A (array_of ?A acts)), t4)"
      "sc_Commit E t4 e hs = (Inr (reported E st hs ?V acts), s5)"
    using s2 s3 s4 s5 by simp_all
  moreover have "react (node_step w E) s (feed_round w e xs ys h hs) =
      (map (\<lambda>a. Forward (ActionSocial (w_msg w) a)) ac @
       NewBlockTick # Forward (NewBlockSocial (w_util w) (w_msg w) (e + 1)) #
       map (\<lambda>a. Forward (ActionSocial (w_msg w) a)) bc @
       [Forward (SealBlockSocial (w_util w) (w_msg w) e (ActionsHash ?A (array_of ?A acts))),
        Forward (CommitBlockSocial (w_util w) (w_msg w) e (reported E st hs ?V acts))], Running s5)"
    by (simp add: feed_round_def react_validate node_step_def s1(2) calls)
  ultimately show ?thesis by simp
qed

section \<open>The listener in one round\<close>

text \<open>The listener while the block of epoch \<open>e\<close>, its block number \<open>r\<close>, is current with the actions \<open>acc\<close>.\<close>

definition open_listener :: "wire \<Rightarrow> nat \<Rightarrow> u64 \<Rightarrow> bytes list \<Rightarrow> listener \<Rightarrow> bool" where
  "open_listener w r e acc s \<longleftrightarrow> length (l_heap s) = Suc r \<and> l_current s = Some r \<and> l_blocks s e = Some r \<and>
     l_heap s ! r = (fresh_block (w_crypto w) e)\<lparr>pb_Actions := acc\<rparr>"

lemma listener_round:
  assumes w: "wire_ok w" and op: "open_listener w r e acc s"
    and h: "int (length h) = HashSize (w_crypto w)" and fits: "w_fits w bad"
  shows "\<exists>s'. react (listener_step w) s
      (map (action_msg w) ac @ new_msg w (e + 1) # map (action_msg w) bc @ [seal_msg w e h, commit_msg w e bad]) =
    ([SendBlock r ((fresh_block (w_crypto w) e)\<lparr>pb_Actions := acc @ ac, pb_Invalidated := bad, pb_Hash := h\<rparr>)],
     Running s') \<and> open_listener w (Suc r) (e + 1) bc s'"
proof -
  from op have cur: "l_current s = Some r" and len: "length (l_heap s) = Suc r" and known: "l_blocks s e = Some r"
    and b: "l_heap s ! r = (fresh_block (w_crypto w) e)\<lparr>pb_Actions := acc\<rparr>"
    by (simp_all add: open_listener_def)
  obtain old where heap: "l_heap s = old @ [(fresh_block (w_crypto w) e)\<lparr>pb_Actions := acc\<rparr>]" "length old = r"
    using len b by (cases "l_heap s" rule: rev_cases) auto
  let ?b1 = "(fresh_block (w_crypto w) e)\<lparr>pb_Actions := acc @ ac\<rparr>"
  let ?b2 = "(fresh_block (w_crypto w) (e + 1))\<lparr>pb_Actions := bc\<rparr>"
  define s2 where "s2 = s\<lparr>l_heap := old @ [?b1, ?b2], l_blocks := (l_blocks s)(e + 1 \<mapsto> Suc r), l_current := Some (Suc r)\<rparr>"
  have "react (listener_step w) s
      (map (action_msg w) ac @ new_msg w (e + 1) # map (action_msg w) bc @ [seal_msg w e h, commit_msg w e bad]) =
    react (listener_step w) s2 [seal_msg w e h, commit_msg w e bad]"
    using cur heap by (cases s) (simp add: step_new [OF w] react_actions [OF w] write_block_def s2_def
        nth_append list_update_append fresh_block_def)
  moreover have "pb_Epoch ?b2 \<noteq> e" by (simp add: fresh_block_def)
  ultimately show ?thesis using known heap
    by (intro exI [where x = "s2\<lparr>l_heap := old @ [?b1\<lparr>pb_Hash := h, pb_Invalidated := bad\<rparr>, ?b2],
        l_blocks := (l_blocks s2)(e := None)\<rparr>"])
      (simp add: step_seal [OF w h] step_commit [OF w fits] s2_def write_block_def open_listener_def
        nth_append list_update_append)
qed

section \<open>The pipeline\<close>

lemma pipeline_delivers:
  assumes A: "actions_are_lists (env_actions E) view" and w: "wire_ok w"
    and hashes: "\<forall>a. int (length (ActionsHash (env_actions E) a)) = HashSize (w_crypto w)"
    and "open_chain E st v e acc s" and "open_listener w r e acc l" and "unat e + length rounds < 2 ^ 64"
    and "\<forall>b \<in> set (fst (delivered w E st v e acc rounds)). w_fits w (pb_Invalidated b)"
  shows "\<exists>os s' l'. react (node_step w E) s (pipeline w e rounds) = (os, Running s') \<and>
    sc_commit s' = snd (delivered w E st v e acc rounds) \<and>
    react (listener_step w) l (map Read (forwarded os)) =
      (map (\<lambda>(i, b). SendBlock i b) (enumerate r (fst (delivered w E st v e acc rounds))), Running l')"
  using assms(4-7)
proof (induction rounds arbitrary: st v e acc s l r)
  case Nil
  then show ?case by (simp add: open_chain_def)
next
  case (Cons round rounds)
  obtain xs ys h hs where round: "round = (xs, ys, h, hs)" by (cases round)
  obtain ac v1 bc v2 where run: "live_run E st v xs = (ac, v1)"
    "live_run E st (Validator (env_state E) st) ys = (bc, v2)" by fastforce
  define acts where "acts = acc @ ac"
  define bad where "bad = reported E st hs (Validator (env_state E) st) acts"
  define st' where "st' = Incorporate (env_state E) st (Mutations (env_state E)
    (validate_all E st (Validator (env_state E) st) (filter (\<lambda>x. Hasher (env_crypto E) x \<notin> set hs) acts)))"
  define block where "block = (fresh_block (w_crypto w) e)\<lparr>pb_Actions := acts, pb_Invalidated := bad,
    pb_Hash := ActionsHash (env_actions E) (array_of (env_actions E) acts)\<rparr>"
  have del: "delivered w E st v e acc (round # rounds) =
      (block # fst (delivered w E st' v2 (e + 1) bc rounds), snd (delivered w E st' v2 (e + 1) bc rounds))"
    by (simp add: round run Let_def acts_def bad_def st'_def block_def case_prod_unfold)
  have "unat (e + 1) = unat e + 1" using Cons.prems(3) by (simp add: unat_word_ariths)
  then have e: "e + 1 \<noteq> 0" and small: "unat (e + 1) + length rounds < 2 ^ 64"
    using Cons.prems(3) by (auto simp: unat_eq_0 [symmetric])
  have fits: "w_fits w bad" using Cons.prems(4) by (simp add: del block_def)
  obtain os1 s1 where n: "react (node_step w E) s (feed_round w e xs ys h hs) = (os1, Running s1)"
    "forwarded os1 = map (ActionSocial (w_msg w)) ac @ NewBlockSocial (w_util w) (w_msg w) (e + 1) #
      map (ActionSocial (w_msg w)) bc @
      [SealBlockSocial (w_util w) (w_msg w) e (ActionsHash (env_actions E) (array_of (env_actions E) acts)),
       CommitBlockSocial (w_util w) (w_msg w) e bad]"
    "open_chain E st' v2 (e + 1) bc s1"
    using node_round [OF A Cons.prems(1) e run, of w h hs] unfolding acts_def bad_def st'_def by blast
  obtain l1 where l: "react (listener_step w) l (map Read (forwarded os1)) = ([SendBlock r block], Running l1)"
    "open_listener w (Suc r) (e + 1) bc l1"
    using listener_round [OF w Cons.prems(2) spec [OF hashes] fits, of ac bc "array_of (env_actions E) acts"] n(2)
    by (auto simp: block_def acts_def comp_def)
  obtain os s' l' where IH: "react (node_step w E) s1 (pipeline w (e + 1) rounds) = (os, Running s')"
    "sc_commit s' = snd (delivered w E st' v2 (e + 1) bc rounds)"
    "react (listener_step w) l1 (map Read (forwarded os)) =
      (map (\<lambda>(i, b). SendBlock i b) (enumerate (Suc r) (fst (delivered w E st' v2 (e + 1) bc rounds))), Running l')"
    using Cons.IH [OF n(3) l(2) small] Cons.prems(4) del by auto
  have "react (node_step w E) s (pipeline w e (round # rounds)) = (os1 @ os, Running s')"
    by (simp add: round react_append n(1) IH(1))
  moreover have "react (listener_step w) l (map Read (forwarded (os1 @ os))) =
      (map (\<lambda>(i, b). SendBlock i b) (enumerate r (fst (delivered w E st v e acc (round # rounds)))), Running l')"
    by (simp add: react_append l(1) IH(3) del)
  ultimately show ?case using IH(2) del by simp
qed

section \<open>Properties\<close>

text \<open>C13: From the validator to its listeners: on a chain without a live block and with all its
  recent blocks committed, as at its launch, whose \<open>Transform\<close> is not set, feed the node's
  signal loop any number of blocks in a pipeline, each sealed and committed after the next one
  was opened and got some of its actions. Then a listener that receives all the loop forwards
  sends exactly these blocks, in order: each with the actions that live validation accepted,
  with the hash of these, and with the hashes that revalidation reports at its commit; and the
  node has incorporated the revalidated mutations of all of them. The loop is taken alone, so
  the lock is always free (\<open>Node_Sched\<close> has the case that it is not). Asked of the
  environment: the epochs do not wrap, the hashes have their size, and the invalidated hashes
  of a block fit in a message.\<close>

theorem node_to_listener:
  assumes "actions_are_lists (env_actions E) view" and "wire_ok w"
    and "\<forall>a. int (length (ActionsHash (env_actions E) a)) = HashSize (w_crypto w)"
    and "chain_inv s" and "sc_live s = None" and "sc_Transform s = None"
    and "\<forall>b \<in> set (sc_recentBlocks s). sb_Status b = StatusCommit"
    and "unat (sc_epoch s) + length rounds + 1 < 2 ^ 64"
    and "delivered w E (sc_commit s) (Validator (env_state E) (sc_commit s)) (sc_epoch s + 1) [] rounds = (blocks, st)"
    and "\<forall>b \<in> set blocks. w_fits w (pb_Invalidated b)"
  shows "\<exists>os s' l'. react (node_step w E) s (new_sig w (sc_epoch s + 1) # pipeline w (sc_epoch s + 1) rounds) =
      (os, Running s') \<and> sc_commit s' = st \<and>
    react (listener_step w) new_listener (map Read (forwarded os)) =
      (map (\<lambda>(i, b). SendBlock i b) (enumerate 0 blocks), Running l')"
proof -
  let ?e = "sc_epoch s + 1"
  have u: "unat ?e = unat (sc_epoch s) + 1" using assms(8) by (simp add: unat_word_ariths)
  then have e: "?e \<noteq> 0" and small: "unat ?e + length rounds < 2 ^ 64"
    using assms(8) by (auto simp: unat_eq_0 [symmetric])
  obtain s1 where s1: "sc_NextBlock E s ?e = (None, s1)"
    "open_chain E (sc_commit s) (Validator (env_state E) (sc_commit s)) ?e [] s1"
    using open_chain_next [OF assms(4-7) e] by blast
  have ep: "sc_epoch s1 = ?e" using s1(2) by (simp add: open_chain_def)
  define l1 where "l1 = \<lparr>l_heap = [fresh_block (w_crypto w) ?e], l_blocks = [?e \<mapsto> 0], l_current = Some 0\<rparr>"
  have op: "open_listener w 0 ?e [] l1" by (simp add: open_listener_def l1_def fresh_block_def)
  have l: "listener_step w new_listener (new_msg w ?e) = Continue l1 []"
    by (simp add: step_new [OF assms(2)] new_listener_def l1_def)
  obtain os s' l' where r: "react (node_step w E) s1 (pipeline w ?e rounds) = (os, Running s')" "sc_commit s' = st"
    "react (listener_step w) l1 (map Read (forwarded os)) = (map (\<lambda>(i, b). SendBlock i b) (enumerate 0 blocks), Running l')"
    using pipeline_delivers [OF assms(1-3) s1(2) op small] assms(9,10) by auto
  have "react (node_step w E) s (new_sig w ?e # pipeline w ?e rounds) =
      (NewBlockTick # Forward (NewBlockSocial (w_util w) (w_msg w) ?e) # os, Running s')"
    by (simp add: node_step_def s1(1) ep r(1))
  with l r(2,3) show ?thesis by simp
qed

text \<open>Two blocks; the first's second action is a repetition, its third arrives after a validator
  of the second block was made, the second block repeats a committed action.\<close>

theorem node_to_listener_witness:
  "\<exists>os s' l'. react (node_step demo_wire demo_env) demo_chain
      (new_sig demo_wire 1 # pipeline demo_wire 1 [([[7], [7]], [[7], [9]], [5, 5], []), ([[8]], [], [6, 6], [])]) =
      (os, Running (s' :: (bytes list, bytes list, bytes list, bytes list) social_chain)) \<and>
    sc_commit s' = [[7], [9], [8]] \<and>
    react (listener_step demo_wire) new_listener (map Read (forwarded os)) =
      ([SendBlock 0 \<lparr>pb_Epoch = 1, pb_Actions = [[7]], pb_Invalidated = [], pb_Hash = [1, 7],
          pb_Publisher = [0, 0], pb_Siganture = [0, 0]\<rparr>,
        SendBlock 1 \<lparr>pb_Epoch = 2, pb_Actions = [[7], [9], [8]], pb_Invalidated = [[1, 7]], pb_Hash = [3, 24],
          pb_Publisher = [0, 0], pb_Siganture = [0, 0]\<rparr>], Running l')"
proof -
  let ?rounds = "[([[7], [7]], [[7], [9]], [5, 5], []), ([[8]], [], [6, 6], [])] ::
    (bytes list \<times> bytes list \<times> hash \<times> hash list) list"
  have A: "actions_are_lists (env_actions demo_env) (\<lambda>a. a)"
    using demo_actions_are_lists by (simp add: demo_env_def)
  have hashes: "\<forall>a. int (length (ActionsHash (env_actions demo_env) a)) = HashSize (w_crypto demo_wire)"
    by (simp add: demo_defs demo_wire_def)
  have c: "sc_live demo_chain = None" "sc_Transform demo_chain = None" "sc_epoch demo_chain = 0" "sc_commit demo_chain = []"
    "sc_recentBlocks demo_chain = []"
    by (simp_all add: demo_chain_def NewSocialBlockChain_def)
  have d: "delivered demo_wire demo_env [] (Validator (env_state demo_env) []) 1 [] ?rounds =
      ([\<lparr>pb_Epoch = 1, pb_Actions = [[7]], pb_Invalidated = [], pb_Hash = [1, 7],
          pb_Publisher = [0, 0], pb_Siganture = [0, 0]\<rparr>,
        \<lparr>pb_Epoch = 2, pb_Actions = [[7], [9], [8]], pb_Invalidated = [[1, 7]], pb_Hash = [3, 24],
          pb_Publisher = [0, 0], pb_Siganture = [0, 0]\<rparr>], [[7], [9], [8]])"
    by (simp add: Let_def reported_Cons reported_def [of _ _ _ _ "[]"] array_of_def fresh_block_def no_hash_def
        no_token_def no_signature_def demo_defs demo_wire_def numeral_2_eq_2)
  have z: "sc_epoch demo_chain + 1 = 1" by (simp add: c)
  have small: "unat (sc_epoch demo_chain) + length ?rounds + 1 < 2 ^ 64"
    and all: "\<forall>b \<in> set (sc_recentBlocks demo_chain). sb_Status b = StatusCommit"
    by (simp_all add: c)
  note n = node_to_listener [OF A demo_wire_ok hashes demo_chain_inv c(1,2) all small, unfolded z c(4), OF d]
  have "w_fits demo_wire []" "w_fits demo_wire [[1, 7]]" by (simp_all add: demo_wire_def)
  with n show ?thesis by (simp del: react.simps pipeline.simps)
qed

end
