(* ===== verification/Node_Sched.thy ===== *)
theory Node_Sched
  imports Node "HOL-Library.Sublist"
begin

text \<open>
  How the two goroutines of \<open>LaunchNode\<close> interleave: the signal loop and the pool loop share
  the chain's mutex and the unbuffered channels \<open>newBlock\<close> and \<open>forward\<close>, on which both must
  be at the same point for a message to pass.

  The signal loop is what is left to do of the signal it handles, \<open>[]\<close> when it waits for one;
  the pool loop is what is left to do of the request it took, \<open>[]\<close> when it is at its \<open>select\<close>.
  \<open>CallOp\<close> is the call of the chain: \<open>node_step\<close> gives the chain after it and what is
  forwarded. An array signal is its actions one by one, each validated and then forwarded; one
  without an array crashes the process, so it is no step.

  \<open>ns_taken\<close> and \<open>ns_passed\<close> are not in the code: they record the signals taken from
  \<open>messages\<close> and what was passed on \<open>newBlock\<close> and \<open>forward\<close>, for the comparison with \<open>node_step\<close>.
\<close>

datatype 'a sig_op =
    TickOp            \<comment> \<open>\<open>newBlock <- struct{}{}\<close>\<close>
  | LockOp
  | CallOp "'a block_signal"
  | ForwardOp bytes   \<comment> \<open>\<open>forward <- msg\<close>\<close>
  | UnlockOp

datatype pool_op = PoolLock | PoolSync token u64 | PoolUnlock

datatype owner = SignalLoop | PoolLoop

record ('s, 'b, 'm, 'a) node_sys =
  ns_chain :: "('s, 'b, 'm, 'a) social_chain"
  ns_sig :: "'a sig_op list"
  ns_pool :: "pool_op list"
  ns_lock :: "owner option"
  ns_done :: bool            \<comment> \<open>the signal loop has returned\<close>
  ns_taken :: "'a block_signal list"
  ns_passed :: "node_out list"

fun sig_script :: "'a actionarray \<Rightarrow> 'a block_signal \<Rightarrow> 'a sig_op list" where
  "sig_script A sg =
     (case sg_Signal sg of
        ErrSignal \<Rightarrow> []
      | NewBlockSignal \<Rightarrow> [TickOp, LockOp, CallOp sg, UnlockOp]
      | ActionSignal \<Rightarrow> [CallOp sg]
      | ActionArraySignal \<Rightarrow> (case sg_Actions sg of None \<Rightarrow> []
          | Some arr \<Rightarrow> replicate (nat (ActionsLen A arr)) (CallOp (sg\<lparr>sg_Signal := ActionSignal\<rparr>)))
      | SealSignal \<Rightarrow> [LockOp, CallOp sg, UnlockOp]
      | CommitSignal \<Rightarrow> [LockOp, CallOp sg, UnlockOp])"

inductive sched_step ::
  "wire \<Rightarrow> ('s, 'b, 'm, 'a) social_env \<Rightarrow> ('s, 'b, 'm, 'a) node_sys \<Rightarrow> ('s, 'b, 'm, 'a) node_sys \<Rightarrow> bool"
  for w :: wire and E :: "('s, 'b, 'm, 'a) social_env" where
  receive: "ns_sig n = [] \<Longrightarrow> \<not> ns_done n \<Longrightarrow> sg_Signal sg \<noteq> ErrSignal \<Longrightarrow>
    sg_Signal sg \<noteq> ActionArraySignal \<or> sg_Actions sg \<noteq> None \<Longrightarrow>
    sched_step w E n (n\<lparr>ns_sig := sig_script (env_actions E) sg, ns_taken := ns_taken n @ [sg]\<rparr>)"
| receive_err: "ns_sig n = [] \<Longrightarrow> \<not> ns_done n \<Longrightarrow> sched_step w E n (n\<lparr>ns_done := True\<rparr>)"
| tick: "ns_sig n = TickOp # rest \<Longrightarrow> ns_pool n = [] \<Longrightarrow>
    sched_step w E n (n\<lparr>ns_sig := rest, ns_passed := ns_passed n @ [NewBlockTick]\<rparr>)"
| lock: "ns_sig n = LockOp # rest \<Longrightarrow> ns_lock n = None \<Longrightarrow>
    sched_step w E n (n\<lparr>ns_sig := rest, ns_lock := Some SignalLoop\<rparr>)"
| call: "ns_sig n = CallOp sg # rest \<Longrightarrow> node_step w E (ns_chain n) sg = Continue s' os \<Longrightarrow>
    sched_step w E n (n\<lparr>ns_chain := s', ns_sig := map ForwardOp (forwarded os) @ rest\<rparr>)"
| forward: "ns_sig n = ForwardOp msg # rest \<Longrightarrow> ns_pool n = [] \<Longrightarrow>
    sched_step w E n (n\<lparr>ns_sig := rest, ns_passed := ns_passed n @ [Forward msg]\<rparr>)"
| unlock: "ns_sig n = UnlockOp # rest \<Longrightarrow> sched_step w E n (n\<lparr>ns_sig := rest, ns_lock := None\<rparr>)"
| request: "ns_pool n = [] \<Longrightarrow> sched_step w E n (n\<lparr>ns_pool := [PoolLock, PoolSync t epoch, PoolUnlock]\<rparr>)"
| pool_lock: "ns_pool n = PoolLock # rest \<Longrightarrow> ns_lock n = None \<Longrightarrow>
    sched_step w E n (n\<lparr>ns_pool := rest, ns_lock := Some PoolLoop\<rparr>)"
| pool_sync: "ns_pool n = PoolSync t epoch # rest \<Longrightarrow> sched_step w E n (n\<lparr>ns_pool := rest\<rparr>)"
| pool_unlock: "ns_pool n = PoolUnlock # rest \<Longrightarrow> sched_step w E n (n\<lparr>ns_pool := rest, ns_lock := None\<rparr>)"

definition sched_start :: "('s, 'b, 'm, 'a) social_chain \<Rightarrow> ('s, 'b, 'm, 'a) node_sys" where
  "sched_start s = \<lparr>ns_chain = s, ns_sig = [], ns_pool = [], ns_lock = None, ns_done = False,
     ns_taken = [], ns_passed = []\<rparr>"

inductive sched_reachable ::
  "wire \<Rightarrow> ('s, 'b, 'm, 'a) social_env \<Rightarrow> ('s, 'b, 'm, 'a) social_chain \<Rightarrow> ('s, 'b, 'm, 'a) node_sys \<Rightarrow> bool"
  for w E s where
  start: "sched_reachable w E s (sched_start s)"
| step: "sched_reachable w E s n \<Longrightarrow> sched_step w E n n' \<Longrightarrow> sched_reachable w E s n'"

section \<open>The invariant\<close>

text \<open>
  The shapes the signal loop's remaining work can have: outside the lock (with a signal's lock
  ahead of it or with unlocked validations), and inside it.
\<close>

definition lockless :: "'a sig_op \<Rightarrow> bool" where
  "lockless x \<longleftrightarrow> (case x of ForwardOp _ \<Rightarrow> True | CallOp sg \<Rightarrow> sg_Signal sg = ActionSignal | _ \<Rightarrow> False)"

definition locked_call :: "'a block_signal \<Rightarrow> bool" where
  "locked_call sg \<longleftrightarrow> sg_Signal sg \<in> {NewBlockSignal, SealSignal, CommitSignal}"

definition sig_outside :: "'a sig_op list \<Rightarrow> bool" where
  "sig_outside xs \<longleftrightarrow> list_all lockless xs \<or>
     (\<exists>sg. locked_call sg \<and> (xs = [TickOp, LockOp, CallOp sg, UnlockOp] \<or> xs = [LockOp, CallOp sg, UnlockOp]))"

definition sig_inside :: "'a sig_op list \<Rightarrow> bool" where
  "sig_inside xs \<longleftrightarrow> xs = [UnlockOp] \<or> (\<exists>m. xs = [ForwardOp m, UnlockOp]) \<or>
     (\<exists>sg. locked_call sg \<and> xs = [CallOp sg, UnlockOp])"

definition pool_outside :: "pool_op list \<Rightarrow> bool" where
  "pool_outside xs \<longleftrightarrow> xs = [] \<or> (\<exists>t e. xs = [PoolLock, PoolSync t e, PoolUnlock])"

definition pool_inside :: "pool_op list \<Rightarrow> bool" where
  "pool_inside xs \<longleftrightarrow> xs = [PoolUnlock] \<or> (\<exists>t e. xs = [PoolSync t e, PoolUnlock])"

definition sched_inv :: "('s, 'b, 'm, 'a) node_sys \<Rightarrow> bool" where
  "sched_inv n \<longleftrightarrow>
     (case ns_lock n of
        None \<Rightarrow> sig_outside (ns_sig n) \<and> pool_outside (ns_pool n)
      | Some SignalLoop \<Rightarrow> sig_inside (ns_sig n) \<and> pool_outside (ns_pool n)
      | Some PoolLoop \<Rightarrow> sig_outside (ns_sig n) \<and> pool_inside (ns_pool n)) \<and>
     (ns_done n \<longrightarrow> ns_sig n = [])"

text \<open>A call under the lock forwards at most one message; a validation forwards its action or nothing.\<close>

lemma locked_call_forwards:
  assumes "locked_call sg" and "node_step w E s sg = Continue s' os"
  shows "forwarded os = [] \<or> (\<exists>m. forwarded os = [m])"
  using assms by (auto simp: node_step_def locked_call_def split: prod.splits option.splits sum.splits)

lemma locked_call_runs: "locked_call sg \<or> sg_Signal sg = ActionSignal \<Longrightarrow> \<exists>s' os. node_step w E s sg = Continue s' os"
  by (auto simp: node_step_def locked_call_def split: prod.splits option.splits sum.splits)

lemma sig_script_outside: "sg_Signal sg \<noteq> ErrSignal \<Longrightarrow> sig_outside (sig_script A sg)"
  by (auto simp: sig_outside_def locked_call_def lockless_def list_all_iff split: signal_kind.splits option.splits)

lemma sig_outside_simps:
  "sig_outside (TickOp # rest) \<longleftrightarrow> (\<exists>sg. locked_call sg \<and> rest = [LockOp, CallOp sg, UnlockOp])"
  "sig_outside (LockOp # rest) \<longleftrightarrow> (\<exists>sg. locked_call sg \<and> rest = [CallOp sg, UnlockOp])"
  "sig_outside (CallOp sg # rest) \<longleftrightarrow> sg_Signal sg = ActionSignal \<and> list_all lockless rest"
  "sig_outside (ForwardOp m # rest) \<longleftrightarrow> list_all lockless rest"
  "sig_outside (UnlockOp # rest) \<longleftrightarrow> False"
  "sig_outside []"
  by (auto simp: sig_outside_def lockless_def)

lemma sig_inside_simps:
  "sig_inside (TickOp # rest) \<longleftrightarrow> False" "sig_inside (LockOp # rest) \<longleftrightarrow> False"
  "sig_inside (CallOp sg # rest) \<longleftrightarrow> locked_call sg \<and> rest = [UnlockOp]"
  "sig_inside (ForwardOp m # rest) \<longleftrightarrow> rest = [UnlockOp]"
  "sig_inside (UnlockOp # rest) \<longleftrightarrow> rest = []"
  "\<not> sig_inside []"
  by (auto simp: sig_inside_def)

lemma pool_simps:
  "pool_outside []" "pool_outside (PoolLock # rest) \<longleftrightarrow> (\<exists>t e. rest = [PoolSync t e, PoolUnlock])"
  "\<not> pool_outside (PoolSync t e # rest)" "\<not> pool_outside (PoolUnlock # rest)"
  "\<not> pool_inside []" "\<not> pool_inside (PoolLock # rest)"
  "pool_inside (PoolSync t e # rest) \<longleftrightarrow> rest = [PoolUnlock]" "pool_inside (PoolUnlock # rest) \<longleftrightarrow> rest = []"
  by (auto simp: pool_outside_def pool_inside_def)

lemmas shape_simps = sig_outside_simps sig_inside_simps pool_simps

lemma lockless_outside: "list_all lockless xs \<Longrightarrow> sig_outside xs"
  by (simp add: sig_outside_def)

lemma sched_inv_start: "sched_inv (sched_start s)"
  by (simp add: sched_inv_def sched_start_def shape_simps)

lemma sched_inv_call:
  assumes "sched_inv n" and "ns_sig n = CallOp sg # rest" and "node_step w E (ns_chain n) sg = Continue s' os"
  shows "sched_inv (n\<lparr>ns_chain := s', ns_sig := map ForwardOp (forwarded os) @ rest\<rparr>)"
proof (cases "ns_lock n = Some SignalLoop")
  case True
  with assms(1,2) have "locked_call sg" "rest = [UnlockOp]" "pool_outside (ns_pool n)" "\<not> ns_done n"
    by (auto simp: sched_inv_def shape_simps)
  with True locked_call_forwards [OF _ assms(3)] show ?thesis
    by (auto simp: sched_inv_def shape_simps)
next
  case False
  with assms(1,2) have "list_all lockless rest" "\<not> ns_done n"
    by (auto simp: sched_inv_def shape_simps split: option.splits owner.splits)
  then have "sig_outside (map ForwardOp (forwarded os) @ rest)"
    by (intro lockless_outside) (auto simp: list_all_iff lockless_def)
  with False assms(1) \<open>\<not> ns_done n\<close> show ?thesis
    by (auto simp: sched_inv_def split: option.splits owner.splits)
qed

lemma sched_inv_step: "sched_step w E n n' \<Longrightarrow> sched_inv n \<Longrightarrow> sched_inv n'"
proof (induction rule: sched_step.induct)
  case (receive n sg)
  then show ?case using sig_script_outside [of sg "env_actions E"]
    by (auto simp: sched_inv_def shape_simps simp del: sig_script.simps split: option.splits owner.splits)
next
  case (call n sg rest s' os)
  then show ?case by (intro sched_inv_call)
qed (auto simp: sched_inv_def shape_simps lockless_outside split: option.splits owner.splits)

lemma sched_reachable_inv: "sched_reachable w E s n \<Longrightarrow> sched_inv n"
  by (induction rule: sched_reachable.induct) (auto intro: sched_inv_start sched_inv_step)

text \<open>The deadlock: the signal loop forwards under the lock, the pool loop waits for the lock.\<close>

definition deadlocked :: "('s, 'b, 'm, 'a) node_sys \<Rightarrow> bool" where
  "deadlocked n \<longleftrightarrow> ns_lock n = Some SignalLoop \<and> (\<exists>m. ns_sig n = [ForwardOp m, UnlockOp]) \<and>
     (\<exists>t e. ns_pool n = [PoolLock, PoolSync t e, PoolUnlock])"

inductive_cases sched_stepE: "sched_step w E n n'"

lemma deadlocked_stuck: "deadlocked n \<Longrightarrow> \<not> sched_step w E n n'"
  by (auto simp: deadlocked_def elim!: sched_stepE)

lemma not_deadlocked_runs:
  assumes inv: "sched_inv n" and "\<not> deadlocked n"
  shows "\<exists>n'. sched_step w E n n'"
proof (cases "ns_pool n")
  case Nil
  then show ?thesis by (blast intro: sched_step.request)
next
  case (Cons p rest)
  show ?thesis
  proof (cases p)
    case PoolLock
    show ?thesis
    proof (cases "ns_lock n")
      case None
      with Cons PoolLock show ?thesis by (blast intro: sched_step.pool_lock)
    next
      case (Some u)
      with inv Cons PoolLock have u: "u = SignalLoop" and ins: "sig_inside (ns_sig n)" and "pool_outside (ns_pool n)"
        by (cases u; auto simp: sched_inv_def shape_simps)+
      then obtain t e where "ns_pool n = [PoolLock, PoolSync t e, PoolUnlock]"
        using Cons PoolLock by (auto simp: shape_simps)
      with assms(2) Some u have "\<not> (\<exists>m. ns_sig n = [ForwardOp m, UnlockOp])" by (auto simp: deadlocked_def)
      with ins consider "ns_sig n = [UnlockOp]" | sg where "locked_call sg" "ns_sig n = [CallOp sg, UnlockOp]"
        by (auto simp: sig_inside_def)
      then show ?thesis
      proof cases
        case 1
        then show ?thesis by (blast intro: sched_step.unlock)
      next
        case (2 sg)
        then show ?thesis using locked_call_runs [of sg w E "ns_chain n"] by (blast intro: sched_step.call)
      qed
    qed
  next
    case (PoolSync t e)
    with Cons show ?thesis by (blast intro: sched_step.pool_sync)
  next
    case PoolUnlock
    with Cons show ?thesis by (blast intro: sched_step.pool_unlock)
  qed
qed

text \<open>A run into the deadlock: a new block is announced while a request arrives.\<close>

lemma deadlock_run:
  "\<exists>n. sched_reachable w E s n \<and> deadlocked n"
proof -
  let ?sg = "(zero_signal (w_crypto w) NewBlockSignal)\<lparr>sg_Epoch := sc_epoch s + 1\<rparr>"
  let ?n0 = "sched_start s"
  let ?n1 = "?n0\<lparr>ns_sig := [TickOp, LockOp, CallOp ?sg, UnlockOp], ns_taken := [?sg]\<rparr>"
  let ?n2 = "?n1\<lparr>ns_sig := [LockOp, CallOp ?sg, UnlockOp], ns_passed := [NewBlockTick]\<rparr>"
  let ?n3 = "?n2\<lparr>ns_sig := [CallOp ?sg, UnlockOp], ns_lock := Some SignalLoop\<rparr>"
  define s' where "s' = snd (sc_NextBlock E s (sc_epoch s + 1))"
  define m where "m = NewBlockSocial (w_util w) (w_msg w) (sc_epoch s')"
  let ?n4 = "?n3\<lparr>ns_chain := s', ns_sig := [ForwardOp m, UnlockOp]\<rparr>"
  let ?n5 = "?n4\<lparr>ns_pool := [PoolLock, PoolSync [] 0, PoolUnlock]\<rparr>"
  have k: "sg_Signal ?sg = NewBlockSignal" by simp
  have c: "node_step w E s ?sg = Continue s' [NewBlockTick, Forward m]"
    by (simp add: node_step_def m_def s'_def sc_NextBlock_def Let_def)
  have "sched_step w E ?n0 ?n1"
    using sched_step.receive [of ?n0 ?sg w E] k by (simp add: sched_start_def)
  moreover have "sched_step w E ?n1 ?n2" using sched_step.tick [of ?n1 "[LockOp, CallOp ?sg, UnlockOp]" w E] by (simp add: sched_start_def)
  moreover have "sched_step w E ?n2 ?n3" using sched_step.lock [of ?n2 "[CallOp ?sg, UnlockOp]" w E] by (simp add: sched_start_def)
  moreover have "sched_step w E ?n3 ?n4"
    using sched_step.call [of ?n3 ?sg "[UnlockOp]" w E s' "[NewBlockTick, Forward m]"] c by (simp add: sched_start_def)
  moreover have "sched_step w E ?n4 ?n5" using sched_step.request [of ?n4 w E "[]" 0] by (simp add: sched_start_def)
  ultimately have "sched_reachable w E s ?n5"
    by (meson sched_reachable.intros)
  moreover have "deadlocked ?n5" by (simp add: deadlocked_def)
  ultimately show ?thesis by blast
qed

section \<open>The interleavings against the loop\<close>

text \<open>
  What the signal loop would still do if it never had to wait: \<open>finish\<close> gives what it passes
  on its channels and the chain at the end.
\<close>

fun finish ::
  "wire \<Rightarrow> ('s, 'b, 'm, 'a) social_env \<Rightarrow> ('s, 'b, 'm, 'a) social_chain \<Rightarrow> 'a sig_op list \<Rightarrow>
     node_out list \<times> ('s, 'b, 'm, 'a) social_chain" where
  "finish w E s [] = ([], s)"
| "finish w E s (TickOp # rest) = (case finish w E s rest of (os, s') \<Rightarrow> (NewBlockTick # os, s'))"
| "finish w E s (ForwardOp m # rest) = (case finish w E s rest of (os, s') \<Rightarrow> (Forward m # os, s'))"
| "finish w E s (LockOp # rest) = finish w E s rest"
| "finish w E s (UnlockOp # rest) = finish w E s rest"
| "finish w E s (CallOp sg # rest) =
     (case node_step w E s sg of
        Continue s1 os1 \<Rightarrow> (case finish w E s1 rest of (os, s') \<Rightarrow> (map Forward (forwarded os1) @ os, s'))
      | _ \<Rightarrow> ([], s))"

lemma finish_forwards:
  "finish w E s (map ForwardOp ms @ rest) = (case finish w E s rest of (os, s') \<Rightarrow> (map Forward ms @ os, s'))"
  by (induction ms) (simp_all add: case_prod_unfold)

text \<open>The signals the loop takes as a step: no error, an array where one is announced.\<close>

definition takes :: "'a block_signal \<Rightarrow> bool" where
  "takes sg \<longleftrightarrow> sg_Signal sg \<noteq> ErrSignal \<and> (sg_Signal sg \<noteq> ActionArraySignal \<or> sg_Actions sg \<noteq> None)"

lemma finish_array:
  "finish w E s (replicate k (CallOp (sg\<lparr>sg_Signal := ActionSignal\<rparr>))) = array_loop w E (sg_Action sg) k s"
proof (induction k arbitrary: s)
  case (Suc k)
  obtain ok s1 where v: "sc_Validate E s (sg_Action sg) = (ok, s1)" by fastforce
  then have "node_step w E s (sg\<lparr>sg_Signal := ActionSignal\<rparr>) =
      Continue s1 (if ok then [Forward (ActionSocial (w_msg w) (sg_Action sg))] else [])"
    by (simp add: node_step_def)
  with Suc v show ?case by (simp add: case_prod_unfold)
qed simp

lemma finish_script:
  assumes "takes sg"
  shows "node_step w E s sg =
    Continue (snd (finish w E s (sig_script (env_actions E) sg))) (fst (finish w E s (sig_script (env_actions E) sg)))"
proof (cases "sg_Signal sg")
  case ErrSignal
  with assms show ?thesis by (simp add: takes_def)
next
  case ActionArraySignal
  with assms obtain arr where "sg_Actions sg = Some arr" by (auto simp: takes_def)
  with ActionArraySignal show ?thesis
    by (simp add: finish_array) (simp add: node_step_def case_prod_unfold)
qed (auto simp: node_step_def split: prod.splits option.splits sum.splits)

definition follows ::
  "wire \<Rightarrow> ('s, 'b, 'm, 'a) social_env \<Rightarrow> ('s, 'b, 'm, 'a) social_chain \<Rightarrow> ('s, 'b, 'm, 'a) node_sys \<Rightarrow> bool" where
  "follows w E s n \<longleftrightarrow> (case finish w E (ns_chain n) (ns_sig n) of
     (os, s') \<Rightarrow> react (node_step w E) s (ns_taken n) = (ns_passed n @ os, Running s'))"

lemma follows_step: "sched_step w E n n' \<Longrightarrow> follows w E s n \<Longrightarrow> follows w E s n'"
proof (induction rule: sched_step.induct)
  case (receive n sg)
  then have "takes sg" by (simp add: takes_def)
  from finish_script [OF this, of w E "ns_chain n"] receive show ?case
    by (simp add: follows_def react_append case_prod_unfold del: sig_script.simps)
next
  case (call n sg rest s' os)
  then show ?case by (simp add: follows_def finish_forwards case_prod_unfold)
qed (auto simp: follows_def case_prod_unfold)

lemma sched_follows: "sched_reachable w E s n \<Longrightarrow> follows w E s n"
proof (induction rule: sched_reachable.induct)
  case start
  then show ?case by (simp add: follows_def sched_start_def)
next
  case (step n n')
  then show ?case using follows_step by blast
qed

text \<open>When no request arrives the loop gets through: \<open>ready\<close> is a state with both loops at their start.\<close>

definition quiet_run ::
  "wire \<Rightarrow> ('s, 'b, 'm, 'a) social_env \<Rightarrow> ('s, 'b, 'm, 'a) social_chain \<Rightarrow> 'a sig_op list \<Rightarrow> owner option \<Rightarrow>
     'a block_signal list \<Rightarrow> bool" where
  "quiet_run w E s ops lk sgs \<longleftrightarrow> (\<exists>n. sched_reachable w E s n \<and> ns_sig n = ops \<and> ns_pool n = [] \<and>
     ns_lock n = lk \<and> \<not> ns_done n \<and> ns_taken n = sgs)"

lemma quiet_runI:
  "sched_reachable w E s n \<Longrightarrow> sched_step w E n n' \<Longrightarrow> ns_sig n' = ops \<Longrightarrow> ns_pool n' = [] \<Longrightarrow> ns_lock n' = lk \<Longrightarrow>
     \<not> ns_done n' \<Longrightarrow> ns_taken n' = sgs \<Longrightarrow> quiet_run w E s ops lk sgs"
  unfolding quiet_run_def by (blast intro: sched_reachable.step)

lemma quiet_ops:
  "quiet_run w E s (TickOp # ops) lk sgs \<Longrightarrow> quiet_run w E s ops lk sgs"
  "quiet_run w E s (ForwardOp m # ops) lk sgs \<Longrightarrow> quiet_run w E s ops lk sgs"
  "quiet_run w E s (LockOp # ops) None sgs \<Longrightarrow> quiet_run w E s ops (Some SignalLoop) sgs"
  "quiet_run w E s (UnlockOp # ops) lk sgs \<Longrightarrow> quiet_run w E s ops None sgs"
  unfolding quiet_run_def [of _ _ _ "_ # _"]
  by (auto intro: quiet_runI sched_step.tick sched_step.forward sched_step.lock sched_step.unlock)

lemma quiet_forwards: "quiet_run w E s (map ForwardOp ms @ ops) lk sgs \<Longrightarrow> quiet_run w E s ops lk sgs"
  by (induction ms) (auto dest: quiet_ops(2))

lemma quiet_call:
  assumes "quiet_run w E s (CallOp sg # ops) lk sgs" and "locked_call sg \<or> sg_Signal sg = ActionSignal"
  shows "quiet_run w E s ops lk sgs"
proof -
  obtain n where n: "sched_reachable w E s n" "ns_sig n = CallOp sg # ops" "ns_pool n = []" "ns_lock n = lk"
    "\<not> ns_done n" "ns_taken n = sgs"
    using assms(1) by (auto simp: quiet_run_def)
  obtain s' os where "node_step w E (ns_chain n) sg = Continue s' os"
    using locked_call_runs [OF assms(2)] by blast
  from quiet_runI [OF n(1) sched_step.call [OF n(2) this], of "map ForwardOp (forwarded os) @ ops" lk sgs] n
  show ?thesis by (auto intro: quiet_forwards)
qed

lemma quiet_calls:
  "quiet_run w E s (replicate k (CallOp sg)) lk sgs \<Longrightarrow> sg_Signal sg = ActionSignal \<Longrightarrow> quiet_run w E s [] lk sgs"
  by (induction k) (auto dest: quiet_call)

lemma quiet_signal:
  assumes "quiet_run w E s [] None sgs" and "takes sg"
  shows "quiet_run w E s [] None (sgs @ [sg])"
proof -
  obtain n where n: "sched_reachable w E s n" "ns_sig n = []" "ns_pool n = []" "ns_lock n = None"
    "\<not> ns_done n" "ns_taken n = sgs"
    using assms(1) by (auto simp: quiet_run_def)
  have "sched_step w E n (n\<lparr>ns_sig := sig_script (env_actions E) sg, ns_taken := ns_taken n @ [sg]\<rparr>)"
    using assms(2) n by (intro sched_step.receive) (auto simp: takes_def)
  from quiet_runI [OF n(1) this] n have script: "quiet_run w E s (sig_script (env_actions E) sg) None (sgs @ [sg])"
    by simp
  show ?thesis
  proof (cases "sg_Signal sg")
    case ErrSignal
    with assms(2) show ?thesis by (simp add: takes_def)
  next
    case ActionArraySignal
    with assms(2) script show ?thesis by (auto simp: takes_def intro: quiet_calls)
  next
    case ActionSignal
    with script show ?thesis by (auto intro: quiet_call)
  next
    case NewBlockSignal
    then have "locked_call sg" by (simp add: locked_call_def)
    with script NewBlockSignal show ?thesis
      by (auto dest!: quiet_ops(1) quiet_ops(3) dest: quiet_call quiet_ops(4))
  next
    case SealSignal
    then have "locked_call sg" by (simp add: locked_call_def)
    with script SealSignal show ?thesis by (auto dest!: quiet_ops(3) dest: quiet_call quiet_ops(4))
  next
    case CommitSignal
    then have "locked_call sg" by (simp add: locked_call_def)
    with script CommitSignal show ?thesis by (auto dest!: quiet_ops(3) dest: quiet_call quiet_ops(4))
  qed
qed

lemma quiet_signals: "list_all takes sgs \<Longrightarrow> quiet_run w E s [] None sgs"
proof (induction sgs rule: rev_induct)
  case Nil
  have "sched_reachable w E s (sched_start s)" by (rule sched_reachable.start)
  then show ?case unfolding quiet_run_def
    by (intro exI [where x = "sched_start s"]) (simp add: sched_start_def)
next
  case (snoc sg sgs)
  then show ?case by (simp add: quiet_signal)
qed

section \<open>Properties\<close>

text \<open>C16: The two goroutines of the node get stuck in exactly one situation: the signal loop holds the
  lock and waits for the pool loop to take a message it forwards, while the pool loop has taken
  a sync request and waits for the lock. Whatever the chain a node is launched on, that deadlock can
  be reached.\<close>

theorem sched_stuck_iff:
  "{n. sched_reachable w E s n \<and> (\<nexists>n'. sched_step w E n n')} = {n. sched_reachable w E s n \<and> deadlocked n} \<and>
   {n. sched_reachable w E s n \<and> deadlocked n} \<noteq> {}"
  using deadlocked_stuck not_deadlocked_runs sched_reachable_inv deadlock_run by blast

text \<open>C14: However the two goroutines interleave with the lock and the channels, what the signal loop
  has passed to the pool loop is the beginning of what \<open>node_step\<close> gives for the signals taken,
  in its order, and whenever the loop waits for a signal it is all of it and the chain is
  \<open>node_step\<close>'s. The rest may never come: by the deadlock it can be missing for ever. Any list
  of signals without an error, and without an array signal that lacks its array, can be taken
  and handled to the end.\<close>

theorem sched_refines_loop:
  assumes "sched_reachable w E s n"
  shows "(\<exists>os s'. react (node_step w E) s (ns_taken n) = (os, Running s') \<and> prefix (ns_passed n) os \<and>
      (ns_sig n = [] \<longrightarrow> ns_passed n = os \<and> ns_chain n = s')) \<and>
    (\<forall>sgs. list_all takes sgs \<longrightarrow> (\<exists>m. sched_reachable w E s m \<and> ns_taken m = sgs \<and> ns_sig m = []))"
proof -
  obtain os s' where f: "finish w E (ns_chain n) (ns_sig n) = (os, s')" by fastforce
  with sched_follows [OF assms] have r: "react (node_step w E) s (ns_taken n) = (ns_passed n @ os, Running s')"
    by (simp add: follows_def)
  have "ns_sig n = [] \<longrightarrow> ns_passed n = ns_passed n @ os \<and> ns_chain n = s'" using f by auto
  moreover have "\<forall>sgs. list_all takes sgs \<longrightarrow> (\<exists>m. sched_reachable w E s m \<and> ns_taken m = sgs \<and> ns_sig m = [])"
    using quiet_signals [of _ w E s] unfolding quiet_run_def by blast
  ultimately show ?thesis using r by (intro conjI exI [where x = "ns_passed n @ os"] exI [where x = s']) auto
qed

text \<open>The new block is announced, its tick is passed, its message is not yet.\<close>

theorem sched_refines_loop_witness:
  "\<exists>n. sched_reachable demo_wire demo_env demo_chain n \<and> ns_taken n = [new_sig demo_wire 1] \<and>
     ns_passed n = [NewBlockTick] \<and>
     prefix (ns_passed n) (fst (react (node_step demo_wire demo_env) demo_chain [new_sig demo_wire 1]))"
proof -
  let ?n0 = "sched_start demo_chain"
  let ?sg = "new_sig demo_wire 1"
  let ?n1 = "?n0\<lparr>ns_sig := [TickOp, LockOp, CallOp ?sg, UnlockOp], ns_taken := [?sg]\<rparr>"
  let ?n2 = "?n1\<lparr>ns_sig := [LockOp, CallOp ?sg, UnlockOp], ns_passed := [NewBlockTick]\<rparr>"
  have "sched_step demo_wire demo_env ?n0 ?n1"
    using sched_step.receive [of ?n0 ?sg demo_wire demo_env] by (simp add: sched_start_def)
  moreover have "sched_step demo_wire demo_env ?n1 ?n2"
    using sched_step.tick [of ?n1 "[LockOp, CallOp ?sg, UnlockOp]" demo_wire demo_env] by (simp add: sched_start_def)
  ultimately have r: "sched_reachable demo_wire demo_env demo_chain ?n2"
    by (meson sched_reachable.intros)
  from sched_refines_loop [OF r] have "prefix (ns_passed ?n2)
      (fst (react (node_step demo_wire demo_env) demo_chain (ns_taken ?n2)))" by auto
  with r show ?thesis by (intro exI [where x = ?n2]) (simp del: react.simps)
qed

text \<open>The lock keeps the opening, sealing and committing of blocks apart from the answer to a sync
  request: while the pool loop is about to read the chain it holds the lock, and the only call the
  signal loop can be about to make is the validation of an action, which takes no lock.\<close>

lemma sched_exclusion:
  assumes "sched_reachable w E s n" and "ns_pool n = PoolSync t e # rest" and "ns_sig n = CallOp sg # rest'"
  shows "ns_lock n = Some PoolLoop \<and> sg_Signal sg = ActionSignal"
  using sched_reachable_inv [OF assms(1)] assms(2,3)
  by (auto simp: sched_inv_def shape_simps split: option.splits owner.splits)

lemma sched_exclusion_example:
  "\<exists>n. sched_reachable demo_wire demo_env demo_chain n \<and> ns_pool n = [PoolSync [] 0, PoolUnlock] \<and>
     ns_sig n = [CallOp (act_sig demo_wire [7])] \<and> ns_lock n = Some PoolLoop"
proof -
  let ?n0 = "sched_start demo_chain"
  let ?n1 = "?n0\<lparr>ns_sig := [CallOp (act_sig demo_wire [7])], ns_taken := [act_sig demo_wire [7]]\<rparr>"
  let ?n2 = "?n1\<lparr>ns_pool := [PoolLock, PoolSync [] 0, PoolUnlock]\<rparr>"
  let ?n3 = "?n2\<lparr>ns_pool := [PoolSync [] 0, PoolUnlock], ns_lock := Some PoolLoop\<rparr>"
  have "sched_step demo_wire demo_env ?n0 ?n1"
    using sched_step.receive [of ?n0 "act_sig demo_wire [7]" demo_wire demo_env] by (simp add: sched_start_def)
  moreover have "sched_step demo_wire demo_env ?n1 ?n2"
    using sched_step.request [of ?n1 demo_wire demo_env "[]" 0] by (simp add: sched_start_def)
  moreover have "sched_step demo_wire demo_env ?n2 ?n3"
    using sched_step.pool_lock [of ?n2 "[PoolSync [] 0, PoolUnlock]" demo_wire demo_env] by (simp add: sched_start_def)
  ultimately have "sched_reachable demo_wire demo_env demo_chain ?n3"
    by (meson sched_reachable.intros)
  with sched_exclusion [OF this, of "[]" 0 "[PoolUnlock]" "act_sig demo_wire [7]" "[]"] show ?thesis
    by (intro exI [where x = ?n3]) simp
qed

end
