(* ===== verification/Block_Log.thy ===== *)
theory Block_Log
  imports Prelude
begin

text \<open>
  The contract of a store of blocks: an append-only log. \<open>ok v s\<close> is the provider's invariant,
  where \<open>v\<close> is what the store is built on, \<open>fits v d\<close> says that \<open>d\<close> can be stored, and
  \<open>entries v s\<close> is the abstract log. Both block stores of the repository, that of \<open>social\<close>
  and that of \<open>blocks\<close>, are interpreted on it.
\<close>

locale block_log =
  fixes ok :: "'v \<Rightarrow> 's \<Rightarrow> bool"
    and fits :: "'v \<Rightarrow> 'd \<Rightarrow> bool"
    and add :: "'v \<Rightarrow> 'd \<Rightarrow> 's \<Rightarrow> 's"
    and get :: "'v \<Rightarrow> 's \<Rightarrow> nat \<Rightarrow> 'r"
    and count :: "'v \<Rightarrow> 's \<Rightarrow> nat"
    and found :: "'v \<Rightarrow> 'd \<Rightarrow> 'r"
  assumes add_ok: "ok v s \<Longrightarrow> fits v d \<Longrightarrow> ok v (add v d s)"
    and add_count: "ok v s \<Longrightarrow> fits v d \<Longrightarrow> count v (add v d s) = Suc (count v s)"
    and get_new: "ok v s \<Longrightarrow> fits v d \<Longrightarrow> get v (add v d s) (count v s) = found v d"
    and get_old: "ok v s \<Longrightarrow> fits v d \<Longrightarrow> n < count v s \<Longrightarrow> get v (add v d s) n = get v s n"
begin

definition add_all :: "'v \<Rightarrow> 'd list \<Rightarrow> 's \<Rightarrow> 's" where
  "add_all v ds s = fold (add v) ds s"

lemma add_all_ok:
  "ok v s \<Longrightarrow> list_all (fits v) ds \<Longrightarrow> ok v (add_all v ds s) \<and> count v (add_all v ds s) = count v s + length ds"
  unfolding add_all_def by (induction ds arbitrary: s) (auto simp: add_ok add_count)

lemma add_all_old:
  "ok v s \<Longrightarrow> list_all (fits v) ds \<Longrightarrow> n < count v s \<Longrightarrow> get v (add_all v ds s) n = get v s n"
  unfolding add_all_def by (induction ds arbitrary: s) (auto simp: add_ok add_count get_old)

text \<open>What was added is what is read, in order, and what was there stays.\<close>

lemma add_all_get:
  assumes "ok v s" and "list_all (fits v) ds" and "n < count v s + length ds"
  shows "get v (add_all v ds s) n = (if n < count v s then get v s n else found v (ds ! (n - count v s)))"
proof (cases "n < count v s")
  case True
  with assms show ?thesis by (simp add: add_all_old)
next
  case False
  define k where "k = n - count v s"
  have k: "n = count v s + k" "k < length ds" using False assms(3) by (auto simp: k_def)
  define s1 where "s1 = add_all v (take k ds) s"
  have pre: "list_all (fits v) (take k ds)" "fits v (ds ! k)" "list_all (fits v) (drop (Suc k) ds)"
    using assms(2) k(2) by (auto simp: list_all_iff dest: in_set_takeD in_set_dropD)
  have s1: "ok v s1" "count v s1 = n"
    using add_all_ok [OF assms(1) pre(1)] k by (auto simp: s1_def)
  have "add_all v ds s = add_all v (drop (Suc k) ds) (add v (ds ! k) s1)"
    by (subst id_take_nth_drop [OF k(2)]) (simp add: add_all_def s1_def)
  then have "get v (add_all v ds s) n = get v (add v (ds ! k) s1) n"
    using add_all_old [OF add_ok [OF s1(1) pre(2)] pre(3)] s1 pre(2) by (simp add: add_count)
  also have "\<dots> = found v (ds ! k)" using get_new [OF s1(1) pre(2)] s1(2) by simp
  finally show ?thesis using False by (simp add: k_def)
qed

end

end
