(* ===== verification/Store.thy ===== *)
theory Store
  imports Ext Block_Log
begin

text \<open>
  \<open>social/store.go\<close>: a store of blocks over a list of byte stores of a fixed size. A block is
  written as its length in eight bytes and its data; \<open>blocks\<close> is the index.

  A byte store is a parameter; a method that writes to it gives the new byte store, which
  takes its place in \<open>stores\<close>.
\<close>

record block_index =
  bi_StoreNum :: nat
  bi_Offset :: int
  bi_Size :: int

record 'st block_store =
  st_stores :: "'st list"
  st_maxSize :: int
  st_blocks :: "block_index list"
  st_currentSize :: int
  st_Epoch :: u64

definition NewBlockStore :: "'st bytestore \<Rightarrow> 'st \<Rightarrow> 'st block_store" where
  "NewBlockStore P store = \<lparr>st_stores = [store], st_maxSize = StoreSize P store, st_blocks = [],
     st_currentSize = 0, st_Epoch = 0\<rparr>"

text \<open>
  The reading of one store, until a size of zero or the end of the store. The size is read
  from the store, so the next offset is an \<open>int64\<close> sum that may wrap; the loop may not end.
\<close>

partial_function (option) open_loop ::
  "util \<Rightarrow> 'st bytestore \<Rightarrow> 'st \<Rightarrow> nat \<Rightarrow> int \<Rightarrow> int \<Rightarrow> block_index list \<Rightarrow> (int \<times> int \<times> block_index list) option" where
  "open_loop U S store n offset epoch blocks =
     (let size = fst (ParseUint64 U (ReadAt S store offset 8) 0)
      in if size = 0 then Some (offset, epoch, blocks)
         else let blocks' = blocks @ [\<lparr>bi_StoreNum = n, bi_Offset = wrap64 (offset + 8), bi_Size = int_of_u64 size\<rparr>];
                  offset' = wrap64 (offset + 8 + int_of_u64 size)
              in if offset' \<ge> StoreSize S store then Some (offset', epoch + 1, blocks')
                 else open_loop U S store n offset' (epoch + 1) blocks')"

fun open_stores ::
  "util \<Rightarrow> 'st bytestore \<Rightarrow> nat \<Rightarrow> 'st list \<Rightarrow> int \<times> int \<times> block_index list \<Rightarrow> (int \<times> int \<times> block_index list) option" where
  "open_stores U P n [] acc = Some acc"
| "open_stores U P n (store # rest) (offset, epoch, blocks) =
     Option.bind (open_loop U P store n 0 epoch blocks) (open_stores U P (Suc n) rest)"

definition OpenBlockStore :: "util \<Rightarrow> 'st bytestore \<Rightarrow> 'st list \<Rightarrow> int \<Rightarrow> 'st block_store option" where
  "OpenBlockStore U P stores maxSize =
     map_option (\<lambda>(offset, epoch, blocks). \<lparr>st_stores = stores, st_maxSize = maxSize, st_blocks = blocks,
         st_currentSize = offset, st_Epoch = u64_of_int epoch\<rparr>)
       (open_stores U P 0 stores (0, -1, []))"

definition st_NewStore :: "'st bytestore \<Rightarrow> 'st block_store \<Rightarrow> 'st block_store go" where
  "st_NewStore P b =
     go_bind (go_index (st_stores b) (int (length (st_stores b)) - 1)) (\<lambda>current.
       Inr (b\<lparr>st_stores := st_stores b @ [NewOfSize P current (st_maxSize b)], st_currentSize := 0\<rparr>))"

datatype store_error = NoStorage

definition st_AddBlock ::
  "util \<Rightarrow> 'st bytestore \<Rightarrow> bytes \<Rightarrow> 'st block_store \<Rightarrow> (store_error option \<times> 'st block_store) go" where
  "st_AddBlock U P data0 b =
     (if length (st_stores b) = 0 then Inr (Some NoStorage, b)
      else
        let data = PutUint64 U (of_nat (length data0)) [] @ data0
        in go_bind (if st_currentSize b + int (length data) > st_maxSize b then st_NewStore P b else Inr b) (\<lambda>b1.
             let last = length (st_stores b1) - 1;
                 index = \<lparr>bi_StoreNum = last, bi_Offset = st_currentSize b1 + 8, bi_Size = int (length data) - 8\<rparr>
             in Inr (None, b1\<lparr>st_blocks := st_blocks b1 @ [index],
                  st_stores := (st_stores b1)[last := WriteAt P (st_stores b1 ! last) (st_currentSize b1) data],
                  st_currentSize := st_currentSize b1 + int (length data),
                  st_Epoch := st_Epoch b1 + 1\<rparr>)))"

definition st_GetBlock :: "'st bytestore \<Rightarrow> 'st block_store \<Rightarrow> int \<Rightarrow> bytes option go" where
  "st_GetBlock P b n =
     (if n < 0 \<or> n \<ge> int (length (st_blocks b)) then Inr None
      else let index = st_blocks b ! nat n
           in go_bind (go_index (st_stores b) (int (bi_StoreNum index))) (\<lambda>store.
                Inr (Some (ReadAt P store (bi_Offset index) (bi_Size index)))))"

section \<open>The layout\<close>

text \<open>
  The abstraction: \<open>layout U P content s dss\<close> says that store \<open>k\<close> holds the blocks \<open>dss ! k\<close>,
  encoded one after another, followed by zeros up to the maximal size, that the index lists
  them all, and that \<open>currentSize\<close> is the end of the last one.
\<close>

definition encode :: "util \<Rightarrow> bytes \<Rightarrow> bytes" where
  "encode U d = PutUint64 U (of_nat (length d)) [] @ d"

fun indices :: "nat \<Rightarrow> int \<Rightarrow> bytes list \<Rightarrow> block_index list" where
  "indices k off [] = []"
| "indices k off (d # ds) = \<lparr>bi_StoreNum = k, bi_Offset = off + 8, bi_Size = int (length d)\<rparr> # indices k (off + 8 + int (length d)) ds"

fun all_indices :: "nat \<Rightarrow> bytes list list \<Rightarrow> block_index list" where
  "all_indices k [] = []"
| "all_indices k (ds # dss) = indices k 0 ds @ all_indices (Suc k) dss"

definition used :: "bytes list \<Rightarrow> nat" where
  "used ds = sum_list (map (\<lambda>d. 8 + length d) ds)"

definition laid_out :: "util \<Rightarrow> ('st \<Rightarrow> bytes) \<Rightarrow> nat \<Rightarrow> 'st \<Rightarrow> bytes list \<Rightarrow> bool" where
  "laid_out U content cap store ds \<longleftrightarrow>
     used ds \<le> cap \<and> content store = concat (map (encode U) ds) @ replicate (cap - used ds) 0"

definition layout :: "util \<Rightarrow> ('st \<Rightarrow> bytes) \<Rightarrow> 'st block_store \<Rightarrow> bytes list list \<Rightarrow> bool" where
  "layout U content s dss \<longleftrightarrow> dss \<noteq> [] \<and> 0 \<le> st_maxSize s \<and>
     list_all2 (laid_out U content (nat (st_maxSize s))) (st_stores s) dss \<and>
     st_blocks s = all_indices 0 dss \<and> st_currentSize s = int (used (last dss))"

lemma used_simps [simp]: "used [] = 0" "used (d # ds) = 8 + length d + used ds" "used (xs @ ys) = used xs + used ys"
  by (simp_all add: used_def)

lemma length_encode: "u64_codec U \<Longrightarrow> length (encode U d) = 8 + length d"
  unfolding encode_def u64_codec_def by (metis length_append append_Nil)

lemma length_encoded: "u64_codec U \<Longrightarrow> length (concat (map (encode U) ds)) = used ds"
  by (induction ds) (simp_all add: length_encode)

lemma indices_append: "indices k off (xs @ ys) = indices k off xs @ indices k (off + int (used xs)) ys"
  by (induction xs arbitrary: off) (simp_all add: ac_simps)

lemma all_indices_append: "all_indices k (xs @ ys) = all_indices k xs @ all_indices (k + length xs) ys"
  by (induction xs arbitrary: k) simp_all

lemma length_indices [simp]: "length (indices k off ds) = length ds"
  by (induction ds arbitrary: off) simp_all

lemma length_all_indices [simp]: "length (all_indices k dss) = length (concat dss)"
  by (induction dss arbitrary: k) simp_all

text \<open>Which block an index entry is about.\<close>

lemma nth_indices:
  "n < length ds \<Longrightarrow> indices k off ds ! n =
     \<lparr>bi_StoreNum = k, bi_Offset = off + int (used (take n ds)) + 8, bi_Size = int (length (ds ! n))\<rparr>"
proof (induction ds arbitrary: n off)
  case (Cons d ds)
  then show ?case by (cases n) (simp_all add: ac_simps)
qed simp

lemma nth_all_indices:
  "n < length (concat dss) \<Longrightarrow> \<exists>j m. j < length dss \<and> m < length (dss ! j) \<and> concat dss ! n = dss ! j ! m \<and>
     all_indices k dss ! n = \<lparr>bi_StoreNum = k + j, bi_Offset = int (used (take m (dss ! j))) + 8, bi_Size = int (length (dss ! j ! m))\<rparr>"
proof (induction dss arbitrary: n k)
  case (Cons ds dss)
  show ?case
  proof (cases "n < length ds")
    case True
    then show ?thesis by (intro exI [where x = 0] exI [where x = n]) (simp add: nth_append nth_indices)
  next
    case False
    then have "n - length ds < length (concat dss)" using Cons.prems by simp
    from Cons.IH [OF this, of "Suc k"] obtain j m where
      "j < length dss \<and> m < length (dss ! j) \<and> concat dss ! (n - length ds) = dss ! j ! m \<and>
       all_indices (Suc k) dss ! (n - length ds) =
         \<lparr>bi_StoreNum = Suc k + j, bi_Offset = int (used (take m (dss ! j))) + 8, bi_Size = int (length (dss ! j ! m))\<rparr>"
      by blast
    with False show ?thesis by (intro exI [where x = "Suc j"] exI [where x = m]) (simp add: nth_append)
  qed
qed simp

lemma laid_out_slice:
  assumes "u64_codec U" and "laid_out U content cap store ds" and "m < length ds"
  shows "take (length (ds ! m)) (drop (used (take m ds) + 8) (content store)) = ds ! m"
    and "used (take m ds) + 8 + length (ds ! m) \<le> length (content store)"
proof -
  have ds: "ds = take m ds @ ds ! m # drop (Suc m) ds" using assms(3) by (rule id_take_nth_drop)
  obtain rest where c: "content store = concat (map (encode U) (take m ds)) @ encode U (ds ! m) @ rest"
    using assms(2) by (subst (asm) ds) (simp add: laid_out_def)
  have e: "encode U (ds ! m) = PutUint64 U (of_nat (length (ds ! m))) [] @ ds ! m"
    by (simp add: encode_def)
  have "length (PutUint64 U (of_nat (length (ds ! m))) []) = 8"
    using length_encode [OF assms(1), of "ds ! m"] by (simp add: encode_def)
  then show "take (length (ds ! m)) (drop (used (take m ds) + 8) (content store)) = ds ! m"
    "used (take m ds) + 8 + length (ds ! m) \<le> length (content store)"
    by (simp_all add: c e length_encoded [OF assms(1)])
qed

lemma layout_get:
  assumes U: "u64_codec U" and P: "store_is_bytes P content" and lay: "layout U content s dss"
  shows "st_GetBlock P s (int n) = Inr (if n < length (concat dss) then Some (concat dss ! n) else None)"
proof (cases "n < length (concat dss)")
  case True
  obtain j m where jm: "j < length dss" "m < length (dss ! j)" "concat dss ! n = dss ! j ! m"
    "all_indices 0 dss ! n = \<lparr>bi_StoreNum = 0 + j, bi_Offset = int (used (take m (dss ! j))) + 8, bi_Size = int (length (dss ! j ! m))\<rparr>"
    using nth_all_indices [OF True, of 0] by blast
  have all: "list_all2 (laid_out U content (nat (st_maxSize s))) (st_stores s) dss" "st_blocks s = all_indices 0 dss"
    using lay by (auto simp: layout_def)
  then have len: "length (st_stores s) = length dss" by (auto dest: list_all2_lengthD)
  have "laid_out U content (nat (st_maxSize s)) (st_stores s ! j) (dss ! j)"
    using all(1) jm(1) by (simp add: list_all2_conv_all_nth)
  note l = laid_out_slice [OF U this jm(2)]
  have "ReadAt P (st_stores s ! j) (int (used (take m (dss ! j)) + 8)) (int (length (dss ! j ! m))) = dss ! j ! m"
    using store_is_bytesD(2) [OF P l(2)] l(1) by simp
  with True jm len all(2) show ?thesis by (simp add: st_GetBlock_def Let_def)
next
  case False
  with lay show ?thesis by (simp add: st_GetBlock_def layout_def)
qed

section \<open>Adding a block\<close>

definition st_write :: "util \<Rightarrow> 'st bytestore \<Rightarrow> bytes \<Rightarrow> 'st block_store \<Rightarrow> 'st block_store" where
  "st_write U P d b =
     (let last = length (st_stores b) - 1;
          index = \<lparr>bi_StoreNum = last, bi_Offset = st_currentSize b + 8, bi_Size = int (length d)\<rparr>
      in b\<lparr>st_blocks := st_blocks b @ [index],
           st_stores := (st_stores b)[last := WriteAt P (st_stores b ! last) (st_currentSize b) (encode U d)],
           st_currentSize := st_currentSize b + (8 + int (length d)),
           st_Epoch := st_Epoch b + 1\<rparr>)"

lemma AddBlock_write:
  assumes "u64_codec U" and "st_stores b \<noteq> []"
  shows "st_AddBlock U P d b = go_bind (if st_currentSize b + (8 + int (length d)) > st_maxSize b then st_NewStore P b else Inr b)
    (\<lambda>b1. Inr (None, st_write U P d b1))"
  using length_encode [OF assms(1), of d] assms(2)
  by (simp add: st_AddBlock_def st_write_def encode_def Let_def cong: if_cong)

lemma laid_out_write:
  assumes U: "u64_codec U" and P: "store_is_bytes P content" and l: "laid_out U content cap store ds"
    and fits: "used ds + 8 + length d \<le> cap"
  shows "laid_out U content cap (WriteAt P store (int (used ds)) (encode U d)) (ds @ [d])"
proof -
  have c: "content store = concat (map (encode U) ds) @ replicate (cap - used ds) 0" "length (content store) = cap"
    using l fits by (auto simp: laid_out_def length_encoded [OF U])
  have "used ds + length (encode U d) \<le> length (content store)"
    using fits c(2) by (simp add: length_encode [OF U])
  from store_is_bytesD(3) [OF P this] c(1) fits show ?thesis
    by (simp add: laid_out_def length_encode [OF U] length_encoded [OF U] add.assoc)
qed

lemma layout_write:
  assumes U: "u64_codec U" and P: "store_is_bytes P content" and lay: "layout U content s (dss @ [ds])"
    and fits: "st_currentSize s + (8 + int (length d)) \<le> st_maxSize s"
  shows "layout U content (st_write U P d s) (dss @ [ds @ [d]])"
proof -
  have s: "0 \<le> st_maxSize s" "list_all2 (laid_out U content (nat (st_maxSize s))) (st_stores s) (dss @ [ds])"
    "st_blocks s = all_indices 0 (dss @ [ds])" "st_currentSize s = int (used ds)"
    using lay by (auto simp: layout_def)
  then obtain sts st where st: "st_stores s = sts @ [st]" "list_all2 (laid_out U content (nat (st_maxSize s))) sts dss"
    "laid_out U content (nat (st_maxSize s)) st ds"
    by (auto simp: list_all2_append2 list_all2_Cons2)
  have "used ds + 8 + length d \<le> nat (st_maxSize s)" using fits s(1,4) by linarith
  note w = laid_out_write [OF U P st(3) this]
  have "length sts = length dss" using st(2) by (rule list_all2_lengthD)
  with s st w show ?thesis
    by (simp add: layout_def st_write_def Let_def all_indices_append indices_append list_all2_appendI
        nth_append list_update_append)
qed

lemma layout_new_store:
  assumes P: "store_is_bytes P content" and lay: "layout U content s dss"
  obtains s1 where "st_NewStore P s = Inr s1" "layout U content s1 (dss @ [[]])" "st_currentSize s1 = 0"
    "st_maxSize s1 = st_maxSize s" "st_Epoch s1 = st_Epoch s" "st_stores s1 \<noteq> []"
proof -
  have s: "0 \<le> st_maxSize s" "list_all2 (laid_out U content (nat (st_maxSize s))) (st_stores s) dss"
    "st_blocks s = all_indices 0 dss" "dss \<noteq> []"
    using lay by (auto simp: layout_def)
  define cur where "cur = st_stores s ! (length (st_stores s) - 1)"
  have ne: "length (st_stores s) > 0" using s(2,4) by (auto dest: list_all2_lengthD)
  then have "int (length (st_stores s)) - 1 = int (length (st_stores s) - 1)" by (simp only: of_nat_diff Suc_leI One_nat_def)
  then have "go_index (st_stores s) (int (length (st_stores s)) - 1) = Inr cur"
    using ne unfolding cur_def by (simp only: go_index_nat) simp
  then have n: "st_NewStore P s = Inr (s\<lparr>st_stores := st_stores s @ [NewOfSize P cur (st_maxSize s)], st_currentSize := 0\<rparr>)"
    by (simp add: st_NewStore_def)
  have "content (NewOfSize P cur (int (nat (st_maxSize s)))) = replicate (nat (st_maxSize s)) 0"
    by (rule store_is_bytesD(5) [OF P])
  then have "laid_out U content (nat (st_maxSize s)) (NewOfSize P cur (st_maxSize s)) []"
    using s(1) by (simp add: laid_out_def)
  then show thesis using n s
    by (intro that [of "s\<lparr>st_stores := st_stores s @ [NewOfSize P cur (st_maxSize s)], st_currentSize := 0\<rparr>"])
      (simp_all add: layout_def all_indices_append list_all2_appendI)
qed

lemma layout_add:
  assumes U: "u64_codec U" and P: "store_is_bytes P content" and lay: "layout U content s dss"
    and fits: "8 + int (length d) \<le> st_maxSize s"
  shows "\<exists>s' dss'. st_AddBlock U P d s = Inr (None, s') \<and> layout U content s' dss' \<and> concat dss' = concat dss @ [d] \<and>
    st_maxSize s' = st_maxSize s \<and> st_Epoch s' = st_Epoch s + 1"
proof -
  have "st_stores s \<noteq> []" using lay by (auto simp: layout_def)
  note add = AddBlock_write [OF U this, of P d]
  have keep: "st_maxSize (st_write U P d b) = st_maxSize b" "st_Epoch (st_write U P d b) = st_Epoch b + 1" for b
    by (simp_all add: st_write_def Let_def)
  show ?thesis
  proof (cases "st_currentSize s + (8 + int (length d)) > st_maxSize s")
    case True
    obtain s1 where s1: "st_NewStore P s = Inr s1" "layout U content s1 (dss @ [[]])" "st_currentSize s1 = 0"
      "st_maxSize s1 = st_maxSize s" "st_Epoch s1 = st_Epoch s"
      using layout_new_store [OF P lay] by blast
    have "layout U content (st_write U P d s1) (dss @ [[] @ [d]])"
      using layout_write [OF U P s1(2)] s1(3,4) fits by simp
    then show ?thesis using add True s1 keep [of s1]
      by (intro exI [where x = "st_write U P d s1"] exI [where x = "dss @ [[d]]"]) simp
  next
    case False
    obtain ds0 ds where dss: "dss = ds0 @ [ds]" using lay by (metis layout_def rev_exhaust)
    have "layout U content (st_write U P d s) (ds0 @ [ds @ [d]])"
      using layout_write [OF U P] lay False dss by simp
    then show ?thesis using add False keep [of s] dss
      by (intro exI [where x = "st_write U P d s"] exI [where x = "ds0 @ [ds @ [d]]"]) simp
  qed
qed

lemma layout_new:
  assumes "store_is_bytes P content" and "content st = replicate n 0"
  shows "layout U content (NewBlockStore P st) [[]]"
  using store_is_bytesD(1) [OF assms(1), of st] assms(2)
  by (simp add: layout_def NewBlockStore_def laid_out_def)

section \<open>The store as a log\<close>

text \<open>What a store is built on: the byte helpers, the byte stores, and the size of a store.\<close>

type_synonym 'st store_env = "util \<times> 'st bytestore \<times> ('st \<Rightarrow> bytes) \<times> int"

fun store_ok :: "'st store_env \<Rightarrow> 'st block_store \<Rightarrow> bool" where
  "store_ok (U, P, content, cap) s \<longleftrightarrow>
     u64_codec U \<and> store_is_bytes P content \<and> st_maxSize s = cap \<and> (\<exists>dss. layout U content s dss)"

fun store_fits :: "'st store_env \<Rightarrow> bytes \<Rightarrow> bool" where
  "store_fits (U, P, content, cap) d \<longleftrightarrow> 8 + int (length d) \<le> cap"

text \<open>The store after a call of \<open>AddBlock\<close>; the call returns, so the other branch is not reached.\<close>

fun store_add :: "'st store_env \<Rightarrow> bytes \<Rightarrow> 'st block_store \<Rightarrow> 'st block_store" where
  "store_add (U, P, content, cap) d s = (case st_AddBlock U P d s of Inr (e, s') \<Rightarrow> s' | Inl h \<Rightarrow> s)"

fun store_get :: "'st store_env \<Rightarrow> 'st block_store \<Rightarrow> nat \<Rightarrow> bytes option go" where
  "store_get (U, P, content, cap) s n = st_GetBlock P s (int n)"

lemma layout_count: "layout U content s dss \<Longrightarrow> length (st_blocks s) = length (concat dss)"
  by (simp add: layout_def)

interpretation social_log: block_log store_ok store_fits store_add store_get "\<lambda>v s. length (st_blocks s)" "\<lambda>v d. Inr (Some d)"
proof (unfold_locales, goal_cases)
  case (1 v s d)
  obtain U P content cap where v: "v = (U, P, content, cap)" by (metis surj_pair)
  from 1 v obtain dss where U: "u64_codec U" and P: "store_is_bytes P content" and cap: "st_maxSize s = cap"
    and lay: "layout U content s dss" and f: "8 + int (length d) \<le> st_maxSize s" by auto
  from layout_add [OF U P lay f] v U P cap show ?case by auto
next
  case (2 v s d)
  obtain U P content cap where v: "v = (U, P, content, cap)" by (metis surj_pair)
  from 2 v obtain dss where U: "u64_codec U" and P: "store_is_bytes P content"
    and lay: "layout U content s dss" and f: "8 + int (length d) \<le> st_maxSize s" by auto
  from layout_add [OF U P lay f] v layout_count [OF lay] show ?case
    by (auto dest: layout_count)
next
  case (3 v s d)
  obtain U P content cap where v: "v = (U, P, content, cap)" by (metis surj_pair)
  from 3 v obtain dss where U: "u64_codec U" and P: "store_is_bytes P content"
    and lay: "layout U content s dss" and f: "8 + int (length d) \<le> st_maxSize s" by auto
  from layout_add [OF U P lay f] obtain s' dss' where a: "st_AddBlock U P d s = Inr (None, s')"
    "layout U content s' dss'" "concat dss' = concat dss @ [d]" by blast
  from layout_get [OF U P a(2), of "length (concat dss)"] a v layout_count [OF lay] show ?case by simp
next
  case (4 v s d n)
  obtain U P content cap where v: "v = (U, P, content, cap)" by (metis surj_pair)
  from 4 v obtain dss where U: "u64_codec U" and P: "store_is_bytes P content"
    and lay: "layout U content s dss" and f: "8 + int (length d) \<le> st_maxSize s" by auto
  from layout_add [OF U P lay f] obtain s' dss' where a: "st_AddBlock U P d s = Inr (None, s')"
    "layout U content s' dss'" "concat dss' = concat dss @ [d]" by blast
  have "n < length (concat dss)" using 4(3) layout_count [OF lay] by simp
  with layout_get [OF U P a(2), of n] layout_get [OF U P lay, of n] a v show ?case by (simp add: nth_append)
qed

section \<open>Reopening\<close>

text \<open>Eight zero bytes are the integer zero.\<close>

definition zeros_decode :: "util \<Rightarrow> bool" where
  "zeros_decode U \<longleftrightarrow> fst (ParseUint64 U (replicate 8 0) 0) = 0"

lemma u64_of_nat_nonzero: "int n < 2 ^ 63 \<Longrightarrow> n > 0 \<Longrightarrow> (of_nat n :: u64) \<noteq> 0"
  using int_of_u64_of_nat [of n] by (auto simp: int_of_u64_def)

lemma parse_put_u64: "u64_codec U \<Longrightarrow> fst (ParseUint64 U (PutUint64 U v []) 0) = v"
proof -
  assume "u64_codec U"
  then obtain e where "\<And>d. PutUint64 U v d = d @ e"
    "\<And>d post. ParseUint64 U (d @ e @ post) (int (length d)) = (v, int (length d) + 8)"
    by (rule u64_codecE) blast
  from this(1) [of "[]"] this(2) [of "[]" "[]"] show ?thesis by simp
qed

lemma read_size:
  assumes U: "u64_codec U" and P: "store_is_bytes P content"
    and c: "content st = pre @ encode U d @ rest"
  shows "fst (ParseUint64 U (ReadAt P st (int (length pre)) 8) 0) = of_nat (length d)"
proof -
  have l: "length (PutUint64 U (of_nat (length d)) []) = 8"
    using length_encode [OF U, of d] by (simp add: encode_def)
  have "ReadAt P st (int (length pre)) (int 8) = take 8 (drop (length pre) (content st))"
    by (rule store_is_bytesD(2) [OF P]) (simp add: c length_encode [OF U])
  then have "ReadAt P st (int (length pre)) 8 = PutUint64 U (of_nat (length d)) []"
    by (simp add: c encode_def l)
  then show ?thesis using parse_put_u64 [OF U] by simp
qed

lemma open_loop_encoded:
  assumes U: "u64_codec U" and Z: "zeros_decode U" and P: "store_is_bytes P content"
    and c: "content st = concat (map (encode U) (ds0 @ ds)) @ replicate m 0"
    and ne: "\<forall>d \<in> set ds. d \<noteq> []" and size: "int (length (content st)) < 2 ^ 63"
    and m: "m = 0 \<or> m \<ge> 8" "ds \<noteq> [] \<or> m \<ge> 8"
  shows "open_loop U P st n (int (used ds0)) epoch blocks =
    Some (int (used (ds0 @ ds)), epoch + int (length ds), blocks @ indices n (int (used ds0)) ds)"
  using c ne m(2)
proof (induction ds arbitrary: ds0 epoch blocks)
  case Nil
  then have "m \<ge> 8" by simp
  with Nil(1) have "ReadAt P st (int (used ds0)) (int 8) = replicate 8 0"
    using store_is_bytesD(2) [OF P, of "used ds0" 8 st] by (simp add: length_encoded [OF U] min_absorb1)
  with Z show ?case by (subst open_loop.simps) (simp add: zeros_decode_def)
next
  case (Cons d ds)
  have c': "content st = concat (map (encode U) ds0) @ encode U d @ (concat (map (encode U) ds) @ replicate m 0)"
    using Cons.prems(1) by simp
  have len: "length (content st) = used ds0 + (8 + length d) + used ds + m"
    by (simp add: c' length_encoded [OF U] length_encode [OF U])
  have fits: "int (used ds0) + 8 + int (length d) < 2 ^ 63" using size len by linarith
  then have d: "int (length d) < 2 ^ 63" by linarith
  have rs: "fst (ParseUint64 U (ReadAt P st (int (used ds0)) 8) 0) = of_nat (length d)"
    using read_size [OF U P c'] by (simp add: length_encoded [OF U])
  have nz: "(of_nat (length d) :: u64) \<noteq> 0" using u64_of_nat_nonzero [OF d] Cons.prems(2) by simp
  have w: "wrap64 (int (used ds0) + 8 + int (length d)) = int (used (ds0 @ [d]))"
    "wrap64 (int (used ds0) + 8) = int (used ds0) + 8"
    using fits by (simp_all add: wrap64_id)
  have step: "open_loop U P st n (int (used ds0)) epoch blocks =
    (let blocks' = blocks @ [\<lparr>bi_StoreNum = n, bi_Offset = int (used ds0) + 8, bi_Size = int (length d)\<rparr>]
     in if int (used (ds0 @ [d])) \<ge> int (length (content st)) then Some (int (used (ds0 @ [d])), epoch + 1, blocks')
        else open_loop U P st n (int (used (ds0 @ [d]))) (epoch + 1) blocks')"
    by (subst open_loop.simps)
      (simp add: rs nz int_of_u64_of_nat [OF d] w store_is_bytesD(1) [OF P] Let_def del: used_simps)
  show ?case
  proof (cases "ds = [] \<and> m = 0")
    case True
    with step len show ?thesis by simp
  next
    case False
    then have "used ds + m > 0" using m(1) by (cases ds) auto
    then have "\<not> int (used (ds0 @ [d])) \<ge> int (length (content st))" using len by (simp, linarith)
    moreover have "open_loop U P st n (int (used (ds0 @ [d]))) (epoch + 1)
        (blocks @ [\<lparr>bi_StoreNum = n, bi_Offset = int (used ds0) + 8, bi_Size = int (length d)\<rparr>]) =
      Some (int (used ((ds0 @ [d]) @ ds)), epoch + 1 + int (length ds),
        (blocks @ [\<lparr>bi_StoreNum = n, bi_Offset = int (used ds0) + 8, bi_Size = int (length d)\<rparr>]) @
          indices n (int (used (ds0 @ [d]))) ds)"
      using Cons.prems(1,2) False m(1) by (intro Cons.IH) auto
    ultimately show ?thesis using step by (simp add: Let_def ac_simps)
  qed
qed

text \<open>A store in which a block can be told from the end: no rest of one to seven bytes.\<close>

definition readable_end :: "nat \<Rightarrow> bytes list \<Rightarrow> bool" where
  "readable_end cap ds \<longleftrightarrow> cap = used ds \<or> used ds + 8 \<le> cap"

lemma open_stores_encoded:
  assumes U: "u64_codec U" and Z: "zeros_decode U" and P: "store_is_bytes P content"
    and cap: "int cap < 2 ^ 63" "0 < cap"
    and "list_all2 (laid_out U content cap) sts dss"
    and "\<forall>ds \<in> set dss. readable_end cap ds \<and> (\<forall>d \<in> set ds. d \<noteq> [])"
  shows "open_stores U P k sts (off, epoch, blocks) =
    Some (if dss = [] then off else int (used (last dss)), epoch + int (length (concat dss)), blocks @ all_indices k dss)"
  using assms(6,7)
proof (induction sts dss arbitrary: k off epoch blocks rule: list_all2_induct)
  case Nil
  then show ?case by simp
next
  case (Cons st sts ds dss)
  have l: "used ds \<le> cap" "content st = concat (map (encode U) ([] @ ds)) @ replicate (cap - used ds) 0"
    using Cons.hyps(1) by (simp_all add: laid_out_def)
  then have len: "length (content st) = cap" by (simp add: length_encoded [OF U])
  have "open_loop U P st k (int (used [])) epoch blocks =
      Some (int (used ([] @ ds)), epoch + int (length ds), blocks @ indices k (int (used [])) ds)"
    using Cons.prems l len cap
    by (intro open_loop_encoded [OF U Z P l(2)]) (auto simp: readable_end_def)
  then show ?case using Cons.IH [of "Suc k" "int (used ds)" "epoch + int (length ds)" "blocks @ indices k 0 ds"] Cons.prems
    by (simp add: ac_simps)
qed

lemma layout_reopen:
  assumes U: "u64_codec U" and Z: "zeros_decode U" and P: "store_is_bytes P content" and lay: "layout U content s dss"
    and cap: "0 < st_maxSize s" "st_maxSize s < 2 ^ 63"
    and "\<forall>ds \<in> set dss. readable_end (nat (st_maxSize s)) ds \<and> (\<forall>d \<in> set ds. d \<noteq> [])"
  shows "OpenBlockStore U P (st_stores s) (st_maxSize s) =
    Some (s\<lparr>st_Epoch := u64_of_int (int (length (st_blocks s)) - 1)\<rparr>)"
proof -
  have s: "list_all2 (laid_out U content (nat (st_maxSize s))) (st_stores s) dss" "st_blocks s = all_indices 0 dss"
    "st_currentSize s = int (used (last dss))" "dss \<noteq> []"
    using lay by (auto simp: layout_def)
  have "open_stores U P 0 (st_stores s) (0, - 1, []) =
      Some (int (used (last dss)), - 1 + int (length (concat dss)), [] @ all_indices 0 dss)"
    using open_stores_encoded [OF U Z P _ _ s(1) assms(7), of 0 0 "-1" "[]"] cap s(4) by simp
  with s show ?thesis by (cases s) (simp add: OpenBlockStore_def)
qed

text \<open>A size field that takes the offset back to where it is keeps the loop there forever.\<close>

lemma open_loop_spin:
  assumes "fst (ParseUint64 U (ReadAt P store offset 8) 0) = u64_of_int (- 8)" and "0 \<le> offset" and "offset < 2 ^ 63 - 8"
    and "offset < StoreSize P store"
  shows "open_loop U P store n offset epoch blocks = None"
proof (rule ccontr)
  assume "open_loop U P store n offset epoch blocks \<noteq> None"
  then obtain r where ret: "open_loop U P store n offset epoch blocks = Some r" by blast
  have "\<not> (fst (ParseUint64 U (ReadAt P store offset 8) 0) = u64_of_int (- 8) \<and> 0 \<le> offset \<and>
      offset < 2 ^ 63 - 8 \<and> offset < StoreSize P store)"
  proof (rule open_loop.raw_induct [where P = "\<lambda>U P store n offset epoch blocks r.
      \<not> (fst (ParseUint64 U (ReadAt P store offset 8) 0) = u64_of_int (- 8) \<and> 0 \<le> offset \<and>
      offset < 2 ^ 63 - 8 \<and> offset < StoreSize P store)", OF _ ret], rule notI)
    fix f U P n offset epoch blocks r and store :: 'a
    assume IH: "\<And>U P store n offset epoch blocks r. f U P store n offset epoch blocks = Some r \<Longrightarrow>
        \<not> (fst (ParseUint64 U (ReadAt P store offset 8) 0) = u64_of_int (- 8) \<and> 0 \<le> offset \<and>
        offset < 2 ^ 63 - 8 \<and> offset < StoreSize P store)"
      and eq: "(let size = fst (ParseUint64 U (ReadAt P store offset 8) 0)
      in if size = 0 then Some (offset, epoch, blocks)
         else let blocks' = blocks @ [\<lparr>bi_StoreNum = n, bi_Offset = wrap64 (offset + 8), bi_Size = int_of_u64 size\<rparr>];
                  offset' = wrap64 (offset + 8 + int_of_u64 size)
              in if offset' \<ge> StoreSize P store then Some (offset', epoch + 1, blocks')
                 else f U P store n offset' (epoch + 1) blocks') = Some r"
      and a: "fst (ParseUint64 U (ReadAt P store offset 8) 0) = u64_of_int (- 8) \<and> 0 \<le> offset \<and>
        offset < 2 ^ 63 - 8 \<and> offset < StoreSize P store"
    have i: "int_of_u64 (u64_of_int (- 8)) = - 8" by simp
    have "u64_of_int (- 8) \<noteq> 0" using i by (auto simp: int_of_u64_def)
    moreover have "wrap64 (offset + 8 + int_of_u64 (u64_of_int (- 8))) = offset" using a by (simp add: i wrap64_id)
    ultimately have "\<exists>b. f U P store n offset (epoch + 1) b = Some r" using eq a by (auto simp: Let_def)
    then show False using IH a by blast
  qed
  with assms show False by blast
qed

section \<open>Runs of additions\<close>

fun add_blocks :: "util \<Rightarrow> 'st bytestore \<Rightarrow> bytes list \<Rightarrow> 'st block_store \<Rightarrow> 'st block_store go" where
  "add_blocks U P [] s = Inr s"
| "add_blocks U P (d # ds) s = go_bind (st_AddBlock U P d s) (\<lambda>(err, s'). add_blocks U P ds s')"

lemma add_blocks_log:
  assumes "store_ok (U, P, content, cap) s" and "list_all (store_fits (U, P, content, cap)) ds"
  shows "add_blocks U P ds s = Inr (social_log.add_all (U, P, content, cap) ds s) \<and>
    st_Epoch (social_log.add_all (U, P, content, cap) ds s) = st_Epoch s + of_nat (length ds)"
  using assms unfolding social_log.add_all_def
proof (induction ds arbitrary: s)
  case (Cons d ds)
  then obtain dss where U: "u64_codec U" and P: "store_is_bytes P content"
    and lay: "layout U content s dss" and f: "8 + int (length d) \<le> st_maxSize s" by auto
  from layout_add [OF U P lay f] obtain s' where a: "st_AddBlock U P d s = Inr (None, s')" "st_Epoch s' = st_Epoch s + 1"
    by blast
  have "store_ok (U, P, content, cap) s'"
    using social_log.add_ok [OF Cons.prems(1)] Cons.prems(2) a(1) by fastforce
  with Cons a show ?case by (simp add: ac_simps)
qed simp

text \<open>The unused bytes of a store, by the index.\<close>

definition free_bytes :: "'st block_store \<Rightarrow> nat \<Rightarrow> int" where
  "free_bytes s k = st_maxSize s - sum_list (map (\<lambda>b. 8 + bi_Size b) (filter (\<lambda>b. bi_StoreNum b = k) (st_blocks s)))"

lemma sum_indices: "sum_list (map (\<lambda>b. 8 + bi_Size b) (indices k off ds)) = int (used ds)"
  by (induction ds arbitrary: off) simp_all

lemma indices_num: "b \<in> set (indices k off ds) \<Longrightarrow> bi_StoreNum b = k"
  by (induction ds arbitrary: off) auto

lemma all_indices_num: "b \<in> set (all_indices k dss) \<Longrightarrow> k \<le> bi_StoreNum b"
  by (induction dss arbitrary: k) (auto dest: indices_num Suc_leD)

lemma sum_all_indices:
  "j < length dss \<Longrightarrow>
     sum_list (map (\<lambda>b. 8 + bi_Size b) (filter (\<lambda>b. bi_StoreNum b = k + j) (all_indices k dss))) = int (used (dss ! j))"
proof (induction dss arbitrary: j k)
  case (Cons ds dss)
  show ?case
  proof (cases j)
    case 0
    have "filter (\<lambda>b. bi_StoreNum b = k) (indices k 0 ds) = indices k 0 ds"
      by (auto simp: filter_id_conv dest: indices_num)
    moreover have "filter (\<lambda>b. bi_StoreNum b = k) (all_indices (Suc k) dss) = []"
      by (auto simp: filter_empty_conv dest!: all_indices_num)
    ultimately show ?thesis using 0 by (simp add: sum_indices)
  next
    case (Suc i)
    have "filter (\<lambda>b. bi_StoreNum b = k + j) (indices k 0 ds) = []"
      using Suc by (auto simp: filter_empty_conv dest!: indices_num)
    with Suc Cons.IH [of i "Suc k"] Cons.prems show ?thesis by simp
  qed
qed simp

lemma free_readable:
  assumes "layout U content s dss" and "\<forall>k < length (st_stores s). free_bytes s k = 0 \<or> 8 \<le> free_bytes s k"
    and "ds \<in> set dss"
  shows "readable_end (nat (st_maxSize s)) ds"
proof -
  have s: "0 \<le> st_maxSize s" "st_blocks s = all_indices 0 dss" "length (st_stores s) = length dss"
    using assms(1) by (auto simp: layout_def dest: list_all2_lengthD)
  obtain k where k: "k < length dss" "dss ! k = ds" using assms(3) by (auto simp: in_set_conv_nth)
  have "free_bytes s k = st_maxSize s - int (used ds)"
    using sum_all_indices [OF k(1), of 0] by (simp add: free_bytes_def s(2) k(2))
  with assms(2) k(1) s(1,3) show ?thesis by (fastforce simp: readable_end_def)
qed

lemma added_blocks:
  assumes "u64_codec U" and "store_is_bytes P content" and "content st = replicate cap 0"
    and "list_all (\<lambda>d. 8 + length d \<le> cap) ds"
  shows "\<exists>s. add_blocks U P ds (NewBlockStore P st) = Inr s \<and> st_Epoch s = of_nat (length ds) \<and>
    (\<forall>n. st_GetBlock P s (int n) = Inr (if n < length ds then Some (ds ! n) else None))"
proof -
  let ?v = "(U, P, content, int cap)" and ?init = "NewBlockStore P st"
  have max: "st_maxSize ?init = int cap" using store_is_bytesD(1) [OF assms(2)] assms(3) by (simp add: NewBlockStore_def)
  have ok: "store_ok ?v ?init" using assms(1,2) layout_new [OF assms(2,3)] max by auto
  have fits: "list_all (store_fits ?v) ds" using assms(4) by (auto simp: list_all_iff)
  let ?s = "social_log.add_all ?v ds ?init"
  have count: "length (st_blocks ?init) = 0" by (simp add: NewBlockStore_def)
  have "st_GetBlock P ?s (int n) = Inr (if n < length ds then Some (ds ! n) else None)" for n
  proof (cases "n < length ds")
    case True
    with social_log.add_all_get [OF ok fits, of n] count show ?thesis by simp
  next
    case False
    have "length (st_blocks ?s) = length ds" using social_log.add_all_ok [OF ok fits] count by linarith
    with False show ?thesis by (simp add: st_GetBlock_def)
  qed
  moreover have "add_blocks U P ds ?init = Inr ?s \<and> st_Epoch ?s = of_nat (length ds)"
    using add_blocks_log [OF ok fits] by (simp add: NewBlockStore_def)
  ultimately show ?thesis by blast
qed

section \<open>Properties\<close>

text \<open>C17: The store is a log: adding any sequence of blocks that fit a byte store to a new one succeeds,
  opening further byte stores as needed; then the \<open>n\<close>-th block read is the \<open>n\<close>-th added, reading past
  the end gives nil, and the epoch is the number of blocks.\<close>

theorem store_is_log:
  assumes "u64_codec U" and "store_is_bytes P content" and "content st = replicate cap 0"
    and "list_all (\<lambda>d. 8 + length d \<le> cap) ds"
  shows "\<exists>s. add_blocks U P ds (NewBlockStore P st) = Inr s \<and> st_Epoch s = of_nat (length ds) \<and>
    (\<forall>n. st_GetBlock P s (int n) = Inr (if n < length ds then Some (ds ! n) else None))"
  using added_blocks [OF assms] .

theorem store_is_log_witness:
  "\<exists>s. add_blocks demo_util demo_store [[1, 2], [3], [4, 5, 6]] (NewBlockStore demo_store (replicate 20 0)) = Inr s \<and>
     st_GetBlock demo_store s 1 = Inr (Some [3]) \<and> st_GetBlock demo_store s 7 = Inr None"
proof -
  have f: "list_all (\<lambda>d. 8 + length d \<le> 20) [[1, 2], [3], [4, 5, 6 :: byte]]" by simp
  obtain s where s: "add_blocks demo_util demo_store [[1, 2], [3], [4, 5, 6]] (NewBlockStore demo_store (replicate 20 0)) = Inr s"
    "\<And>n. st_GetBlock demo_store s (int n) = Inr (if n < 3 then Some ([[1, 2], [3], [4, 5, 6]] ! n) else None)"
    using store_is_log [OF demo_u64_codec demo_store_is_bytes refl f] by auto
  from s(1) s(2) [of 1] s(2) [of 7] show ?thesis by simp
qed

text \<open>C18: Reopening a store built this way from its byte stores gives back every block, so that reading and
  adding go on as before, provided no block is empty and no byte store ends with one to seven
  unused bytes; but its epoch is one less than it was.\<close>

theorem store_reopens:
  assumes "u64_codec U" and "zeros_decode U" and "store_is_bytes P content" and "content st = replicate cap 0"
    and "0 < cap" and "int cap < 2 ^ 63" and "list_all (\<lambda>d. d \<noteq> [] \<and> 8 + length d \<le> cap) ds"
    and "add_blocks U P ds (NewBlockStore P st) = Inr s"
    and "\<forall>k < length (st_stores s). free_bytes s k = 0 \<or> 8 \<le> free_bytes s k"
  shows "OpenBlockStore U P (st_stores s) (st_maxSize s) = Some (s\<lparr>st_Epoch := st_Epoch s - 1\<rparr>)"
proof -
  let ?v = "(U, P, content, int cap)" and ?s0 = "NewBlockStore P st"
  have max: "st_maxSize ?s0 = int cap" using store_is_bytesD(1) [OF assms(3)] assms(4) by (simp add: NewBlockStore_def)
  have ok: "store_ok ?v ?s0" using assms(1,3) layout_new [OF assms(3,4)] max by auto
  have fits: "list_all (store_fits ?v) ds" using assms(7) by (auto simp: list_all_iff)
  have s: "s = social_log.add_all ?v ds ?s0" "st_Epoch s = of_nat (length ds)"
    using add_blocks_log [OF ok fits] assms(8) by (auto simp: NewBlockStore_def)
  have ok': "store_ok ?v s" and count: "length (st_blocks s) = length ds"
    using social_log.add_all_ok [OF ok fits] by (auto simp: s(1) NewBlockStore_def)
  then obtain dss where lay: "layout U content s dss" and m: "st_maxSize s = int cap" by auto
  have get: "concat dss ! n = ds ! n" if "n < length ds" for n
    using social_log.add_all_get [OF ok fits, of n] that layout_get [OF assms(1,3) lay, of n] layout_count [OF lay] count
    by (simp add: s(1) NewBlockStore_def)
  have "concat dss = ds"
    using get layout_count [OF lay] count by (intro nth_equalityI) auto
  then have "\<forall>e \<in> set dss. readable_end (nat (st_maxSize s)) e \<and> (\<forall>d \<in> set e. d \<noteq> [])"
    using free_readable [OF lay assms(9)] assms(7) by (auto simp: list_all_iff)
  from layout_reopen [OF assms(1-3) lay _ _ this] m assms(5,6)
  have "OpenBlockStore U P (st_stores s) (st_maxSize s) = Some (s\<lparr>st_Epoch := u64_of_int (int (length (st_blocks s)) - 1)\<rparr>)"
    by simp
  moreover have "u64_of_int (int (length ds) - 1) = of_nat (length ds) - 1" by (simp add: u64_of_int_def)
  ultimately show ?thesis using s(2) count by simp
qed

lemma demo_zeros_decode: "zeros_decode demo_util"
  by (simp add: zeros_decode_def demo_util_def demo_get_def numeral_eq_Suc)

theorem store_reopens_witness:
  "\<exists>s. add_blocks demo_util demo_store [[1, 2], [3]] (NewBlockStore demo_store (replicate 19 0)) = Inr s \<and>
     OpenBlockStore demo_util demo_store (st_stores s) 19 = Some (s\<lparr>st_Epoch := 1\<rparr>)"
proof -
  define r where "r = add_blocks demo_util demo_store [[1, 2], [3]] (NewBlockStore demo_store (replicate 19 0))"
  have "(case r of Inr s \<Rightarrow> length (st_stores s) = 1 \<and> free_bytes s 0 = 0 \<and> st_maxSize s = 19 \<and> st_Epoch s = 2 | Inl _ \<Rightarrow> False)"
    unfolding r_def by code_simp
  then obtain s where s: "r = Inr s" "length (st_stores s) = 1" "free_bytes s 0 = 0" "st_maxSize s = 19" "st_Epoch s = 2"
    by (auto split: sum.splits)
  have f: "list_all (\<lambda>d. d \<noteq> [] \<and> 8 + length d \<le> 19) [[1, 2], [3 :: byte]]" by simp
  have "\<forall>k < length (st_stores s). free_bytes s k = 0 \<or> 8 \<le> free_bytes s k" using s by simp
  from store_reopens [OF demo_u64_codec demo_zeros_decode demo_store_is_bytes refl _ _ f s(1) [unfolded r_def] this]
  have "OpenBlockStore demo_util demo_store (st_stores s) 19 = Some (s\<lparr>st_Epoch := 1\<rparr>)" by (simp add: s(4,5))
  with s(1) show ?thesis unfolding r_def by blast
qed

text \<open>Opening does not always return: a byte store that starts with the size \<open>2^64 - 8\<close> keeps the
  loop at its first offset for ever.\<close>

lemma open_never_returns:
  assumes "fst (ParseUint64 U (ReadAt P store 0 8) 0) = u64_of_int (- 8)" and "0 < StoreSize P store"
  shows "OpenBlockStore U P (store # stores) maxSize = None"
proof -
  have "open_loop U P store 0 0 (- 1) [] = None"
    by (rule open_loop_spin [OF assms(1) _ _ assms(2)]) simp_all
  then show ?thesis by (simp add: OpenBlockStore_def)
qed

lemma open_never_returns_example:
  "OpenBlockStore demo_util demo_store [[248, 255, 255, 255, 255, 255, 255, 255]] 8 = None"
proof -
  have "fst (ParseUint64 demo_util (ReadAt demo_store [248, 255, 255, 255, 255, 255, 255, 255] 0 8) 0) = u64_of_int (- 8)"
    by (simp add: demo_util_def demo_store_def demo_get_def u64_of_int_def)
  then show ?thesis by (rule open_never_returns) (simp add: demo_store_def)
qed

end
