(* ===== verification/Mem_Block.thy ===== *)
theory Mem_Block
  imports Ext Machine
begin

text \<open>
  \<open>topos/block.go\<close> and the message bytes of \<open>topos/messages.go\<close>: a block kept in memory as
  the bytes of its actions one after another and the position where each ends.
\<close>

section \<open>Messages\<close>

definition topos_MsgBlock :: byte where "topos_MsgBlock = 0"
definition topos_MsgAction :: byte where "topos_MsgAction = 1"
definition topos_MsgSyncRequest :: byte where "topos_MsgSyncRequest = 2"
definition topos_MsgActionSubmit :: byte where "topos_MsgActionSubmit = 3"
definition topos_MsgSyncError :: byte where "topos_MsgSyncError = 4"

lemmas topos_msgs = topos_MsgBlock_def topos_MsgAction_def topos_MsgSyncRequest_def
  topos_MsgActionSubmit_def topos_MsgSyncError_def

lemma topos_distinct [simp]: "topos_MsgAction \<noteq> topos_MsgBlock" "topos_MsgBlock \<noteq> topos_MsgAction"
  by (simp_all add: topos_msgs)

definition topos_NewSyncRequest :: "util \<Rightarrow> u64 \<Rightarrow> bytes" where
  "topos_NewSyncRequest U epoch = PutUint64 U epoch [topos_MsgSyncRequest]"

section \<open>Blocks in memory\<close>

record memory_block =
  mb_epoch :: u64
  mb_actions :: "int list"
  mb_data :: bytes

definition mb_Hash :: "crypto \<Rightarrow> memory_block \<Rightarrow> hash" where
  "mb_Hash C b = Hasher C (mb_data b)"

definition mb_Len :: "memory_block \<Rightarrow> int" where
  "mb_Len b = int (length (mb_actions b))"

definition mb_Get :: "memory_block \<Rightarrow> int \<Rightarrow> bytes option go" where
  "mb_Get b n =
     (if n \<ge> int (length (mb_actions b)) \<or> n < 0 then Inr None
      else let starts = (if n > 0 then mb_actions b ! nat (n - 1) else 0);
               ends = mb_actions b ! nat n
           in go_bind (go_slice (mb_data b) (starts + 1) ends) (\<lambda>x. Inr (Some x)))"

definition mb_Append :: "bytes \<Rightarrow> memory_block \<Rightarrow> memory_block" where
  "mb_Append data b =
     (let d = mb_data b @ data in b\<lparr>mb_data := d, mb_actions := mb_actions b @ [int (length d)]\<rparr>)"

definition mb_Clone :: "memory_block \<Rightarrow> memory_block" where
  "mb_Clone m = \<lparr>mb_epoch = mb_epoch m, mb_actions = mb_actions m, mb_data = mb_data m\<rparr>"

text \<open>\<open>&MemoryBlock{epoch: epoch, ...}\<close>.\<close>

definition new_block :: "u64 \<Rightarrow> memory_block" where
  "new_block epoch = \<lparr>mb_epoch = epoch, mb_actions = [], mb_data = []\<rparr>"

lemma mb_Clone_id [simp]: "mb_Clone b = b"
  by (simp add: mb_Clone_def)

section \<open>What is appended and what is read\<close>

definition block_of :: "u64 \<Rightarrow> bytes list \<Rightarrow> memory_block" where
  "block_of epoch acts = fold mb_Append acts (new_block epoch)"

definition ends_of :: "bytes list \<Rightarrow> int list" where
  "ends_of acts = map (\<lambda>n. int (length (concat (take (Suc n) acts)))) [0..<length acts]"

lemma ends_of_snoc: "ends_of (acts @ [a]) = ends_of acts @ [int (length (concat acts) + length a)]"
  by (simp add: ends_of_def)

lemma block_of_fields:
  "block_of epoch acts = \<lparr>mb_epoch = epoch, mb_actions = ends_of acts, mb_data = concat acts\<rparr>"
proof (induction acts rule: rev_induct)
  case Nil
  then show ?case by (simp add: block_of_def new_block_def ends_of_def)
next
  case (snoc a acts)
  then show ?case by (simp add: block_of_def mb_Append_def ends_of_snoc)
qed

lemma concat_slice:
  "n < length acts \<Longrightarrow>
     take (length (acts ! n)) (drop (length (concat (take n acts))) (concat acts)) = acts ! n"
  by (subst (3) id_take_nth_drop [of n acts]) auto

lemma block_of_Get:
  assumes "n < length acts"
  shows "mb_Get (block_of e acts) (int n) = (if acts ! n = [] then Inl SlicePanic else Inr (Some (tl (acts ! n))))"
proof -
  let ?s = "length (concat (take n acts))" and ?a = "acts ! n"
  have len: "length (ends_of acts) = length acts" by (simp add: ends_of_def)
  have "take (Suc n) acts = take n acts @ [?a]" using assms by (rule take_Suc_conv_app_nth)
  then have ends: "ends_of acts ! n = int (?s + length ?a)" using assms by (simp add: ends_of_def)
  have starts: "(if int n > 0 then ends_of acts ! nat (int n - 1) else 0) = int ?s"
    using assms by (cases n) (simp_all add: ends_of_def nat_diff_distrib)
  have "concat acts = concat (take n acts) @ ?a @ concat (drop (Suc n) acts)"
    by (subst id_take_nth_drop [OF assms]) simp
  then have total: "?s + length ?a \<le> length (concat acts)" by simp
  have "mb_Get (block_of e acts) (int n) = go_bind (go_slice (concat acts) (int (?s + 1)) (int (?s + length ?a))) (\<lambda>x. Inr (Some x))"
    using assms starts len ends by (cases "n = 0") (simp_all add: mb_Get_def block_of_fields Let_def add.commute)
  also have "\<dots> = (if ?a = [] then Inl SlicePanic else Inr (Some (tl ?a)))"
  proof (cases "?a = []")
    case True
    then show ?thesis by (simp only: go_slice_nat) simp
  next
    case False
    then have le: "?s + 1 \<le> ?s + length ?a" by (cases ?a) auto
    have "take (length ?a - 1) (drop (?s + 1) (concat acts)) = tl (take (length ?a) (drop ?s (concat acts)))"
      by (simp add: tl_take drop_Suc tl_drop)
    then have "go_slice (concat acts) (int (?s + 1)) (int (?s + length ?a)) = Inr (tl ?a)"
      using le total concat_slice [OF assms] by (simp only: go_slice_nat) simp
    with False show ?thesis by simp
  qed
  finally show ?thesis .
qed

section \<open>Properties\<close>

text \<open>C19: Reading an action of a block in memory does not give what was appended: each action comes back
  without its first byte, an empty action makes the read panic, and only a position outside the
  block gives nil.\<close>

theorem memory_block_get:
  "mb_Get (block_of epoch acts) n =
     (if 0 \<le> n \<and> n < mb_Len (block_of epoch acts)
      then (case acts ! nat n of [] \<Rightarrow> Inl SlicePanic | x # rest \<Rightarrow> Inr (Some rest)) else Inr None) \<and>
   mb_Len (block_of epoch acts) = int (length acts)"
proof -
  have len: "mb_Len (block_of epoch acts) = int (length acts)"
    by (simp add: mb_Len_def block_of_fields ends_of_def)
  show ?thesis
  proof (cases "0 \<le> n \<and> n < int (length acts)")
    case True
    then have "nat n < length acts" by linarith
    from block_of_Get [OF this, of epoch] True len show ?thesis by (auto split: list.splits)
  next
    case False
    with len show ?thesis by (auto simp: mb_Get_def mb_Len_def)
  qed
qed

end
