(* ===== verification/Recent.thy ===== *)
theory Recent
  imports Mem_Block
begin

text \<open>
  \<open>RecentBlocks\<close> of \<open>topos/chain.go\<close>: the last blocks and the current one, kept to bring new
  connections up to date. What a call sends is a list of \<open>conn_event\<close>s; a panic ends it
  after what it has sent.
\<close>

record recent_blocks =
  rb_blocks :: "memory_block list"
  rb_current :: memory_block
  rb_maxBlocks :: int

definition NewRecentBlocks :: "int \<Rightarrow> u64 \<Rightarrow> recent_blocks" where
  "NewRecentBlocks maxBlocks epoch = \<lparr>rb_blocks = [], rb_current = new_block epoch, rb_maxBlocks = maxBlocks\<rparr>"

definition rb_Append :: "bytes \<Rightarrow> recent_blocks \<Rightarrow> recent_blocks" where
  "rb_Append action r = r\<lparr>rb_current := mb_Append action (rb_current r)\<rparr>"

definition rb_NextBlock :: "recent_blocks \<Rightarrow> recent_blocks" where
  "rb_NextBlock r =
     (let blocks = rb_blocks r @ [rb_current r]
      in r\<lparr>rb_blocks := (if int (length blocks) > rb_maxBlocks r then drop 1 blocks else blocks),
           rb_current := new_block (mb_epoch (rb_current r) + 1)\<rparr>)"

fun clone_from :: "u64 \<Rightarrow> memory_block list \<Rightarrow> memory_block list" where
  "clone_from epoch [] = []"
| "clone_from epoch (b # rest) = (if mb_epoch b \<ge> epoch then b # rest else clone_from epoch rest)"

definition rb_Clone :: "recent_blocks \<Rightarrow> u64 \<Rightarrow> memory_block list" where
  "rb_Clone r epoch = clone_from epoch (rb_blocks r)"

section \<open>Sync\<close>

text \<open>Sends until the first panic.\<close>

type_synonym sends = "conn_event list \<times> halt option"

definition and_then :: "sends \<Rightarrow> sends \<Rightarrow> sends" where
  "and_then a b = (case snd a of None \<Rightarrow> (fst a @ fst b, snd b) | Some h \<Rightarrow> a)"

definition send_action :: "bytes option go \<Rightarrow> sends" where
  "send_action r = (case r of
       Inl h \<Rightarrow> ([], Some h)
     | Inr a \<Rightarrow> ([SendDirect (topos_MsgAction # (case a of None \<Rightarrow> [] | Some x \<Rightarrow> x))], None))"

fun in_order :: "sends list \<Rightarrow> sends" where
  "in_order [] = ([], None)"
| "in_order (x # rest) = and_then x (in_order rest)"

text \<open>A block as both \<open>Sync\<close> methods send it: its epoch and a hash, and its actions.\<close>

definition send_block :: "util \<Rightarrow> u64 \<Rightarrow> hash \<Rightarrow> memory_block \<Rightarrow> sends" where
  "send_block U epoch h b =
     and_then ([SendDirect (PutHash U h (PutUint64 U epoch [topos_MsgBlock]))], None)
       (in_order (map (\<lambda>l. send_action (mb_Get b (int l))) [0..<nat (mb_Len b)]))"

definition too_old_message :: bytes where
  "too_old_message = topos_MsgSyncError # map of_char ''node does not have information that old''"

definition rb_Sync :: "util \<Rightarrow> crypto \<Rightarrow> recent_blocks \<Rightarrow> u64 \<Rightarrow> sends" where
  "rb_Sync U C r epoch =
     (case rb_blocks r of
        [] \<Rightarrow> ([], Some IndexPanic)
      | first # _ \<Rightarrow>
          let shift = wrap64 (int_of_u64 epoch - int_of_u64 (mb_epoch first));
              cache = (if shift > 1 then drop (nat shift) (rb_blocks r) @ [mb_Clone (rb_current r)] else [])
          in if shift < 1 then ([Send too_old_message, CloseConn], None)
             else and_then
               (in_order (map (\<lambda>n. send_block U (mb_epoch (cache ! n)) (mb_Hash C (cache ! (n - 1))) (cache ! n)) [1..<length cache]))
               ([Ready], None))"

section \<open>The invariant\<close>

text \<open>Consecutive epochs up to the current block, and no more blocks than allowed.\<close>

definition recent_inv :: "recent_blocks \<Rightarrow> bool" where
  "recent_inv r \<longleftrightarrow>
     (\<forall>n < length (rb_blocks r). mb_epoch (rb_blocks r ! n) + of_nat (length (rb_blocks r) - n) = mb_epoch (rb_current r)) \<and>
     int (length (rb_blocks r)) \<le> max 0 (rb_maxBlocks r)"

lemma recent_inv_new: "recent_inv (NewRecentBlocks maxBlocks epoch)"
  by (simp add: recent_inv_def NewRecentBlocks_def)

lemma recent_inv_Append: "recent_inv r \<Longrightarrow> recent_inv (rb_Append a r)"
  by (simp add: recent_inv_def rb_Append_def mb_Append_def Let_def)

lemma recent_inv_NextBlock:
  assumes "recent_inv r"
  shows "recent_inv (rb_NextBlock r)"
proof -
  define bs where "bs = rb_blocks r @ [rb_current r]"
  have len: "length bs = Suc (length (rb_blocks r))" by (simp add: bs_def)
  have step: "mb_epoch (bs ! n) + of_nat (length bs - n) = mb_epoch (rb_current r) + 1" if "n < length bs" for n
  proof (cases "n = length (rb_blocks r)")
    case False
    then have n: "n < length (rb_blocks r)" using that len by simp
    then have "length bs - n = Suc (length (rb_blocks r) - n)" using len by simp
    then have "mb_epoch (bs ! n) + of_nat (length bs - n) = mb_epoch (rb_blocks r ! n) + of_nat (length (rb_blocks r) - n) + 1"
      using n by (simp add: bs_def nth_append del: of_nat_diff)
    with assms n show ?thesis by (simp add: recent_inv_def)
  qed (simp add: bs_def)
  have small: "int (length (rb_blocks r)) \<le> max 0 (rb_maxBlocks r)" using assms by (simp add: recent_inv_def)
  have next_r: "rb_blocks (rb_NextBlock r) = (if int (length bs) > rb_maxBlocks r then drop 1 bs else bs)"
    "mb_epoch (rb_current (rb_NextBlock r)) = mb_epoch (rb_current r) + 1" "rb_maxBlocks (rb_NextBlock r) = rb_maxBlocks r"
    by (simp_all add: rb_NextBlock_def bs_def Let_def new_block_def)
  have "mb_epoch (drop 1 bs ! n) + of_nat (length (drop 1 bs) - n) = mb_epoch (rb_current r) + 1" if "n < length (drop 1 bs)" for n
  proof -
    have "length (drop 1 bs) - n = length bs - Suc n" by simp
    moreover have "drop 1 bs ! n = bs ! Suc n" using len by simp
    ultimately show ?thesis using step [of "Suc n"] that by (simp del: of_nat_diff)
  qed
  with step small len show ?thesis by (simp add: recent_inv_def next_r del: of_nat_diff)
qed

datatype recent_op = RecentAppend bytes | RecentNext

fun rb_apply :: "recent_op \<Rightarrow> recent_blocks \<Rightarrow> recent_blocks" where
  "rb_apply (RecentAppend a) r = rb_Append a r"
| "rb_apply RecentNext r = rb_NextBlock r"

lemma recent_inv_run: "recent_inv r \<Longrightarrow> recent_inv (fold rb_apply ops r)"
proof (induction ops arbitrary: r)
  case (Cons op ops)
  then show ?case by (cases op) (simp_all add: recent_inv_Append recent_inv_NextBlock)
qed simp

section \<open>What Sync sends\<close>

lemma in_order_sends:
  "list_all (\<lambda>x. snd x = None) xs \<Longrightarrow> in_order xs = (concat (map fst xs), None)"
  by (induction xs) (auto simp: and_then_def)

text \<open>A block none of whose actions is empty is sent without a panic.\<close>

definition sendable :: "memory_block \<Rightarrow> bool" where
  "sendable b \<longleftrightarrow> (\<exists>e acts. b = block_of e acts \<and> [] \<notin> set acts)"

definition block_messages :: "util \<Rightarrow> u64 \<Rightarrow> hash \<Rightarrow> memory_block \<Rightarrow> conn_event list" where
  "block_messages U epoch h b = fst (send_block U epoch h b)"

lemma block_of_Len: "nat (mb_Len (block_of e acts)) = length acts"
  by (simp add: mb_Len_def block_of_fields ends_of_def)

lemma send_block_of:
  assumes "[] \<notin> set acts"
  shows "send_block U epoch h (block_of e acts) =
    (SendDirect (PutHash U h (PutUint64 U epoch [topos_MsgBlock])) #
     map (\<lambda>a. SendDirect (topos_MsgAction # tl a)) acts, None)"
proof -
  have get: "send_action (mb_Get (block_of e acts) (int l)) = ([SendDirect (topos_MsgAction # tl (acts ! l))], None)"
    if "l < length acts" for l
  proof -
    have "acts ! l \<noteq> []" using assms nth_mem [OF that] by metis
    with block_of_Get [OF that, of e] show ?thesis by (simp add: send_action_def)
  qed
  let ?xs = "map (\<lambda>l. send_action (mb_Get (block_of e acts) (int l))) [0..<length acts]"
  have xs: "?xs = map (\<lambda>l. ([SendDirect (topos_MsgAction # tl (acts ! l))], None)) [0..<length acts]"
    using get by simp
  have "in_order ?xs = (concat (map fst ?xs), None)"
    unfolding xs by (rule in_order_sends) (simp add: list_all_iff)
  also have "concat (map fst ?xs) = map (\<lambda>l. SendDirect (topos_MsgAction # tl (acts ! l))) [0..<length acts]"
    unfolding xs by (simp add: comp_def)
  also have "\<dots> = map (\<lambda>a. SendDirect (topos_MsgAction # tl a)) (map (nth acts) [0..<length acts])"
    by simp
  also have "\<dots> = map (\<lambda>a. SendDirect (topos_MsgAction # tl a)) acts"
    by (simp only: map_nth)
  finally show ?thesis by (simp add: send_block_def block_of_Len and_then_def)
qed

lemma send_block_sendable: "sendable b \<Longrightarrow> send_block U epoch h b = (block_messages U epoch h b, None)"
  by (auto simp: sendable_def block_messages_def send_block_of)

lemma drop_cache:
  "i \<le> length xs \<Longrightarrow> drop i xs @ [x] = drop i (xs @ [x])"
  by simp

lemma cache_announcements:
  assumes "\<And>b. b \<in> set all \<Longrightarrow> sendable b"
  shows "in_order (map (\<lambda>n. send_block U (mb_epoch (drop i all ! n)) (mb_Hash C (drop i all ! (n - 1))) (drop i all ! n)) [1..<length all - i]) =
    (concat (map (\<lambda>k. block_messages U (mb_epoch (all ! k)) (mb_Hash C (all ! (k - 1))) (all ! k)) [Suc i..<length all]), None)"
proof -
  let ?send = "\<lambda>n. send_block U (mb_epoch (drop i all ! n)) (mb_Hash C (drop i all ! (n - 1))) (drop i all ! n)"
  let ?m = "\<lambda>k. block_messages U (mb_epoch (all ! k)) (mb_Hash C (all ! (k - 1))) (all ! k)"
  have eq: "?send n = (?m (n + i), None)" if "n \<in> set [1..<length all - i]" for n
  proof -
    have n: "1 \<le> n" "n + i < length all" using that by auto
    then have "drop i all ! n = all ! (n + i)" "drop i all ! (n - 1) = all ! (n + i - 1)"
      by (simp_all add: add.commute)
    moreover have "sendable (all ! (n + i))" using assms n(2) by simp
    ultimately show ?thesis by (simp add: send_block_sendable)
  qed
  have "map ?send [1..<length all - i] = map (\<lambda>n. (?m (n + i), None)) [1..<length all - i]"
    using eq by (rule map_cong [OF refl])
  also have "\<dots> = map (\<lambda>k. (?m k, None)) (map (\<lambda>n. n + i) [1..<length all - i])" by simp
  also have "map (\<lambda>n. n + i) [1..<length all - i] = [Suc i..<length all]"
    by (rule nth_equalityI) (auto simp: add.commute)
  finally have "map ?send [1..<length all - i] = map (\<lambda>k. (?m k, None)) [Suc i..<length all]" .
  then show ?thesis by (simp add: in_order_sends list_all_iff comp_def)
qed

section \<open>Properties\<close>

text \<open>C20: However actions and blocks arrive, the recent blocks have consecutive epochs that lead up to the
  current block's, and there are never more of them than the limit.\<close>

theorem recent_blocks_invariant:
  "recent_inv (fold rb_apply ops (NewRecentBlocks maxBlocks epoch))"
  by (rule recent_inv_run [OF recent_inv_new])



end
