(* ===== verification/Blockchain.thy ===== *)
theory Blockchain
  imports Recent Messages
begin

text \<open>
  \<open>Blockchain\<close> of \<open>topos/chain.go\<close> and \<open>UpdateStateWithChain\<close> of \<open>topos/messages.go\<close>: a
  chain of blocks in a file, with the current block in memory and a protocol state.

  The mutex, which is not reentrant, is the field \<open>bc_locked\<close>; a method that locks it gives
  \<open>Deadlock\<close> when it is held already. The file is its content and whether it is closed and
  writable. Pointers that may be nil are options.
\<close>

record 'x protocol_state =
  ps_Action :: "'x \<Rightarrow> bytes \<Rightarrow> bool \<times> 'x"      \<comment> \<open>whether an error is returned\<close>
  ps_NextBlock :: "'x \<Rightarrow> u64 \<Rightarrow> bool \<times> 'x"
  ps_Epoch :: "'x \<Rightarrow> u64"

record gofile =
  f_content :: bytes
  f_closed :: bool
  f_writable :: bool

text \<open>What was read, and whether the error of a short read is \<open>io.EOF\<close>.\<close>

definition file_ReadAt :: "gofile \<Rightarrow> nat \<Rightarrow> int \<Rightarrow> bytes \<times> bool" where
  "file_ReadAt f n pos =
     (if f_closed f \<or> pos < 0 then ([], False) else (take n (drop (nat pos) (f_content f)), True))"

text \<open>A write at the end; \<open>None\<close> where it fails.\<close>

definition file_Write :: "gofile \<Rightarrow> bytes \<Rightarrow> gofile option" where
  "file_Write f data =
     (if f_closed f \<or> \<not> f_writable f then None else Some (f\<lparr>f_content := f_content f @ data\<rparr>))"

record 'x blockchain =
  bc_locked :: bool
  bc_file :: gofile
  bc_blocks :: "int list"
  bc_current :: "memory_block option"
  bc_state :: "'x option"
  bc_strict :: bool

datatype bc_error =
    HashMismatch | IncompatibleState | CannotWrite | OutOfRange | CannotParse | InvalidMessage int
  | OutOfSequence int | StateAhead u64 u64 | UnreadableBlock u64 | InvalidAction int u64 | ActionRefused | CannotOpen

definition bc_lock :: "'x blockchain \<Rightarrow> 'x blockchain go" where
  "bc_lock b = (if bc_locked b then Inl Deadlock else Inr (b\<lparr>bc_locked := True\<rparr>))"

definition bc_unlock :: "'x blockchain \<Rightarrow> 'x blockchain" where
  "bc_unlock b = b\<lparr>bc_locked := False\<rparr>"

text \<open>\<open>b.current.f\<close>.\<close>

definition deref :: "'p option \<Rightarrow> 'p go" where
  "deref p = (case p of None \<Rightarrow> Inl NilPanic | Some x \<Rightarrow> Inr x)"

section \<open>Reading blocks\<close>

text \<open>
  \<open>Block\<close>: from a position, until the header of another block or the end of the file. After an
  action the position is that of the action's own bytes, so the loop reads them as a
  message; it may not end. The length of an action is not checked against the file before
  \<open>make\<close>: a negative one, or one beyond the address space (\<open>maxAlloc\<close> of the runtime on a
  64-bit machine), panics; the memory is taken to suffice for any other.
\<close>

definition max_alloc :: int where
  "max_alloc = 2 ^ 48"

partial_function (option) block_loop ::
  "util \<Rightarrow> gofile \<Rightarrow> int \<Rightarrow> memory_block \<Rightarrow> (bc_error + memory_block) go option" where
  "block_loop U f pos block =
     (let r = file_ReadAt f 9 pos; msg = fst r; value = fst (ParseUint64 U msg 1)
      in if length msg \<noteq> 9 then Some (Inr (if snd r then Inr block else Inl CannotParse))
         else if msg ! 0 = topos_MsgBlock then Some (Inr (Inr block))
         else if msg ! 1 = topos_MsgAction then
           (if int_of_u64 value < 0 \<or> int_of_u64 value > max_alloc then Some (Inl MakePanic)
            else let action = fst (file_ReadAt f (nat (int_of_u64 value)) (pos + 9))
                 in if int (length action) \<noteq> int_of_u64 value then Some (Inr (Inl CannotParse))
                    else block_loop U f (pos + 9) (mb_Append action block))
         else Some (Inr (Inl (InvalidMessage pos))))"

definition bc_Block :: "util \<Rightarrow> 'x blockchain \<Rightarrow> u64 \<Rightarrow> (bc_error + memory_block) go option" where
  "bc_Block U b height =
     (if int_of_u64 height \<ge> int (length (bc_blocks b)) then Some (Inr (Inl OutOfRange))
      else case go_index (bc_blocks b) (int_of_u64 height) of
             Inl h \<Rightarrow> Some (Inl h)
           | Inr pos \<Rightarrow> block_loop U (bc_file b) pos (new_block height))"

text \<open>\<open>RetrieveEpoch\<close>: the block of the epoch is read, and then \<open>b.current\<close> is used.\<close>

fun retrieve_loop :: "memory_block \<Rightarrow> int list \<Rightarrow> bytes option list \<Rightarrow> bytes option list option go" where
  "retrieve_loop current [] out = Inr (Some out)"
| "retrieve_loop current (seq # rest) out =
     (if seq \<ge> mb_Len current then Inr None
      else go_bind (mb_Get current seq) (\<lambda>a. retrieve_loop current rest (out @ [a])))"

definition bc_RetrieveEpoch ::
  "util \<Rightarrow> 'x blockchain \<Rightarrow> u64 \<Rightarrow> int list \<Rightarrow> bytes option list option go option" where
  "bc_RetrieveEpoch U b height sequences =
     (case bc_current b of
        None \<Rightarrow> Some (Inl NilPanic)
      | Some current \<Rightarrow>
          if height = mb_epoch current then Some (retrieve_loop current sequences [])
          else if height < mb_epoch current then
            (case bc_Block U b height of
               None \<Rightarrow> None
             | Some (Inl h) \<Rightarrow> Some (Inl h)
             | Some (Inr (Inl err)) \<Rightarrow> Some (Inr None)
             | Some (Inr (Inr block)) \<Rightarrow> Some (retrieve_loop current sequences []))
          else Some (Inr None))"

text \<open>\<open>Retrieve\<close>: the epochs of the map as sorted \<open>int\<close>s; the map is a list of pairs with distinct keys.\<close>

fun retrieve_epochs ::
  "util \<Rightarrow> 'x blockchain \<Rightarrow> (u64 \<times> int list) list \<Rightarrow> int list \<Rightarrow> bytes option list \<Rightarrow> bytes option list go option" where
  "retrieve_epochs U b positions [] out = Some (Inr out)"
| "retrieve_epochs U b positions (e # rest) out =
     (case bc_RetrieveEpoch U b (u64_of_int e) (case map_of positions (u64_of_int e) of None \<Rightarrow> [] | Some s \<Rightarrow> s) of
        None \<Rightarrow> None
      | Some (Inl h) \<Rightarrow> Some (Inl h)
      | Some (Inr None) \<Rightarrow> retrieve_epochs U b positions rest out
      | Some (Inr (Some data)) \<Rightarrow> retrieve_epochs U b positions rest (out @ data))"

definition bc_Retrieve :: "util \<Rightarrow> 'x blockchain \<Rightarrow> (u64 \<times> int list) list \<Rightarrow> bytes option list go option" where
  "bc_Retrieve U b positions =
     retrieve_epochs U b positions (sort (map (\<lambda>p. int_of_u64 (fst p)) positions)) []"

section \<open>Writing blocks\<close>

definition action_record :: "util \<Rightarrow> bytes \<Rightarrow> bytes" where
  "action_record U a = PutUint64 U (of_nat (length a)) [topos_MsgAction] @ a"

text \<open>The loop over the actions of the current block; a write that fails ends it.\<close>

fun write_actions :: "util \<Rightarrow> memory_block \<Rightarrow> nat list \<Rightarrow> gofile \<Rightarrow> (bc_error option \<times> gofile) go" where
  "write_actions U current [] f = Inr (None, f)"
| "write_actions U current (n # rest) f =
     go_bind (mb_Get current (int n)) (\<lambda>a.
       case file_Write f (action_record U (case a of None \<Rightarrow> [] | Some x \<Rightarrow> x)) of
         None \<Rightarrow> Inr (Some CannotWrite, f)
       | Some f' \<Rightarrow> write_actions U current rest f')"

definition bc_NextBlock ::
  "util \<Rightarrow> crypto \<Rightarrow> 'x protocol_state \<Rightarrow> u64 \<Rightarrow> hash \<Rightarrow> 'x blockchain \<Rightarrow> (bc_error option \<times> 'x blockchain) go" where
  "bc_NextBlock U C S epoch h b =
     go_bind (deref (bc_current b)) (\<lambda>current.
       if h \<noteq> mb_Hash C current \<and> bc_strict b then Inr (Some HashMismatch, b)
       else
         let upd = (case bc_state b of None \<Rightarrow> (False, b)
                    | Some x \<Rightarrow> (case ps_NextBlock S x epoch of (err, x') \<Rightarrow> (err, b\<lparr>bc_state := Some x'\<rparr>)));
             b1 = snd upd
         in if fst upd then Inr (Some IncompatibleState, b1)
            else case file_Write (bc_file b1) (PutUint64 U (mb_epoch current) [topos_MsgBlock]) of
                   None \<Rightarrow> Inr (Some CannotWrite, b1)
                 | Some f \<Rightarrow>
                     go_bind (write_actions U current [0..<nat (mb_Len current)] f) (\<lambda>(err, f').
                       case err of
                         Some e \<Rightarrow> Inr (Some e, b1\<lparr>bc_file := f'\<rparr>)
                       | None \<Rightarrow> Inr (None, b1\<lparr>bc_file := f', bc_current := Some (new_block (mb_epoch current + 1))\<rparr>)))"

definition bc_Append ::
  "'x protocol_state \<Rightarrow> bytes \<Rightarrow> 'x blockchain \<Rightarrow> (bc_error option \<times> 'x blockchain) go" where
  "bc_Append S data b0 =
     go_bind (bc_lock b0) (\<lambda>b.
       let upd = (case bc_state b of None \<Rightarrow> (False, b)
                  | Some x \<Rightarrow> (case ps_Action S x data of (err, x') \<Rightarrow> (err, b\<lparr>bc_state := Some x'\<rparr>)));
           err = (if fst upd then Some ActionRefused else None);
           b1 = snd upd
       in if fst upd \<and> bc_strict b1 then Inr (err, bc_unlock b1)
          else go_bind (deref (bc_current b1)) (\<lambda>current.
                 Inr (err, bc_unlock (b1\<lparr>bc_current := Some (mb_Append data current)\<rparr>))))"

section \<open>Opening, syncing, updating\<close>

text \<open>\<open>OpenFSBlockchain\<close>: the positions of the blocks in the file.\<close>

partial_function (option) open_chain_loop ::
  "util \<Rightarrow> gofile \<Rightarrow> int \<Rightarrow> u64 \<Rightarrow> int list \<Rightarrow> (bc_error + int list) option" where
  "open_chain_loop U f pos height blocks =
     (let r = file_ReadAt f 9 pos; msg = fst r; value = fst (ParseUint64 U msg 1)
      in if length msg \<noteq> 9 then Some (if snd r then Inr blocks else Inl CannotParse)
         else if msg ! 0 = topos_MsgBlock then
           (if value > 0 \<and> value \<noteq> height + 1 then Some (Inl (OutOfSequence pos))
            else open_chain_loop U f (pos + 9) value (blocks @ [pos + 9]))
         else if msg ! 0 = topos_MsgAction then
           open_chain_loop U f (wrap64 (pos + 9 + int_of_u64 value)) height blocks
         else Some (Inl (InvalidMessage pos)))"

text \<open>The deferred \<open>file.Close()\<close> closes the file of the chain that is returned.\<close>

definition OpenFSBlockchain :: "util \<Rightarrow> bytes option \<Rightarrow> bool \<Rightarrow> (bc_error + 'x blockchain) option" where
  "OpenFSBlockchain U path strict =
     (case path of
        None \<Rightarrow> Some (Inl CannotOpen)
      | Some content \<Rightarrow>
          (let f = \<lparr>f_content = content, f_closed = False, f_writable = False\<rparr>
           in case open_chain_loop U f 0 0 [] of
                None \<Rightarrow> None
              | Some (Inl err) \<Rightarrow> Some (Inl err)
              | Some (Inr blocks) \<Rightarrow> Some (Inr \<lparr>bc_locked = False, bc_file = f\<lparr>f_closed := True\<rparr>, bc_blocks = blocks,
                   bc_current = None, bc_state = None, bc_strict = strict\<rparr>)))"

partial_function (option) sync_loop ::
  "util \<Rightarrow> crypto \<Rightarrow> 'x blockchain \<Rightarrow> memory_block \<Rightarrow> u64 \<Rightarrow> conn_event list \<Rightarrow> sends option" where
  "sync_loop U C b current n acc =
     (if n > mb_epoch current then Some (acc @ [Ready], None)
      else if n = mb_epoch current then
        (let s = send_block U n (ZeroHash C) current
         in if snd s = None then sync_loop U C b current (n + 1) (acc @ fst s) else Some (acc @ fst s, snd s))
      else case bc_Block U b n of
             None \<Rightarrow> None
           | Some (Inl h) \<Rightarrow> Some (acc, Some h)
           | Some (Inr (Inl err)) \<Rightarrow> Some (acc @ [CloseConn], None)
           | Some (Inr (Inr block)) \<Rightarrow>
               (let s = send_block U n (mb_Hash C block) block
                in if snd s = None then sync_loop U C b current (n + 1) (acc @ fst s) else Some (acc @ fst s, snd s)))"

definition bc_Sync :: "util \<Rightarrow> crypto \<Rightarrow> 'x blockchain \<Rightarrow> u64 \<Rightarrow> sends option" where
  "bc_Sync U C b epoch =
     (case go_bind (bc_lock b) (\<lambda>b1. deref (bc_current b1)) of
        Inl h \<Rightarrow> Some ([], Some h)
      | Inr current \<Rightarrow> sync_loop U C b (mb_Clone current) epoch [])"

text \<open>\<open>UpdateStateWithChain\<close>: the actions of the blocks from the state's epoch on.\<close>

fun apply_actions :: "'x protocol_state \<Rightarrow> memory_block \<Rightarrow> bool \<Rightarrow> u64 \<Rightarrow> nat list \<Rightarrow> 'x \<Rightarrow> (bc_error option \<times> 'x) go" where
  "apply_actions S block strict n [] x = Inr (None, x)"
| "apply_actions S block strict n (l # rest) x =
     go_bind (mb_Get block (int l)) (\<lambda>a.
       case ps_Action S x (case a of None \<Rightarrow> [] | Some d \<Rightarrow> d) of (err, x') \<Rightarrow>
         if err \<and> strict then Inr (Some (InvalidAction (int l) n), x')
         else apply_actions S block strict n rest x')"

partial_function (option) update_loop ::
  "util \<Rightarrow> 'x protocol_state \<Rightarrow> 'x blockchain \<Rightarrow> memory_block \<Rightarrow> bool \<Rightarrow> u64 \<Rightarrow> 'x \<Rightarrow> (bc_error option \<times> 'x) go option" where
  "update_loop U S b current strict n x =
     (if n > mb_epoch current then Some (Inr (None, x))
      else case (if n = mb_epoch current then Some (Inr (Inr current)) else bc_Block U b n) of
             None \<Rightarrow> None
           | Some (Inl h) \<Rightarrow> Some (Inl h)
           | Some (Inr (Inl err)) \<Rightarrow> Some (Inr (Some (UnreadableBlock n), x))
           | Some (Inr (Inr block)) \<Rightarrow>
               (case apply_actions S block strict n [0..<nat (mb_Len block)] x of
                  Inl h \<Rightarrow> Some (Inl h)
                | Inr (Some err, x') \<Rightarrow> Some (Inr (Some err, x'))
                | Inr (None, x') \<Rightarrow> update_loop U S b current strict (n + 1) x'))"

definition UpdateStateWithChain ::
  "util \<Rightarrow> 'x protocol_state \<Rightarrow> 'x \<Rightarrow> 'x blockchain \<Rightarrow> bool \<Rightarrow> (bc_error option \<times> 'x) go option" where
  "UpdateStateWithChain U S x b strict =
     (case go_bind (bc_lock b) (\<lambda>b1. deref (bc_current b1)) of
        Inl h \<Rightarrow> Some (Inl h)
      | Inr current \<Rightarrow>
          if ps_Epoch S x > mb_epoch current then Some (Inr (Some (StateAhead (ps_Epoch S x) (mb_epoch current)), x))
          else if ps_Epoch S x = mb_epoch current then Some (Inr (None, x))
          else update_loop U S b current strict (ps_Epoch S x) x)"

text \<open>\<open>UpdateState\<close> locks the chain and passes it on.\<close>

definition bc_UpdateState ::
  "util \<Rightarrow> 'x protocol_state \<Rightarrow> 'x \<Rightarrow> 'x blockchain \<Rightarrow> (bc_error option \<times> 'x blockchain) go option" where
  "bc_UpdateState U S x b =
     (case bc_lock b of
        Inl h \<Rightarrow> Some (Inl h)
      | Inr b1 \<Rightarrow>
          let b2 = b1\<lparr>bc_state := Some x\<rparr>
          in (case UpdateStateWithChain U S x b2 (bc_strict b2) of
                None \<Rightarrow> None
              | Some (Inl h) \<Rightarrow> Some (Inl h)
              | Some (Inr (err, x')) \<Rightarrow> Some (Inr (err, bc_unlock (b2\<lparr>bc_state := Some x'\<rparr>)))))"

definition bc_Close :: "'x blockchain \<Rightarrow> 'x blockchain" where
  "bc_Close b = b\<lparr>bc_file := (bc_file b)\<lparr>f_closed := True\<rparr>\<rparr>"

section \<open>The file\<close>

definition block_record :: "util \<Rightarrow> u64 \<Rightarrow> bytes list \<Rightarrow> bytes" where
  "block_record U e acts = PutUint64 U e [topos_MsgBlock] @ concat (map (action_record U) acts)"

fun chain_content :: "util \<Rightarrow> u64 \<Rightarrow> bytes list list \<Rightarrow> bytes" where
  "chain_content U e [] = []"
| "chain_content U e (acts # rest) = block_record U e acts @ chain_content U (e + 1) rest"

definition block_size :: "bytes list \<Rightarrow> int" where
  "block_size acts = 9 + sum_list (map (\<lambda>a. 9 + int (length a)) acts)"

fun positions_of :: "int \<Rightarrow> bytes list list \<Rightarrow> int list" where
  "positions_of off [] = []"
| "positions_of off (acts # rest) = (off + 9) # positions_of (off + block_size acts) rest"

definition open_file :: "bytes \<Rightarrow> gofile" where
  "open_file content = \<lparr>f_content = content, f_closed = False, f_writable = False\<rparr>"

lemma length_put9: "u64_codec U \<Longrightarrow> length (PutUint64 U v [k]) = 9"
  using sync_request_parses by blast

lemma length_action_record: "u64_codec U \<Longrightarrow> length (action_record U a) = 9 + length a"
  by (simp add: action_record_def length_put9)

lemma length_action_records:
  "u64_codec U \<Longrightarrow> int (length (concat (map (action_record U) xs))) = sum_list (map (\<lambda>a. 9 + int (length a)) xs)"
  by (induction xs) (simp_all add: length_action_record)

lemma length_block_record: "u64_codec U \<Longrightarrow> int (length (block_record U e acts)) = block_size acts"
  by (simp add: block_record_def block_size_def length_put9 length_action_records)

text \<open>A read of nine bytes at the start of a record.\<close>

lemma read_record:
  assumes "u64_codec U" and "content = pre @ PutUint64 U v [k] @ post"
  shows "file_ReadAt (open_file content) 9 (int (length pre)) = (PutUint64 U v [k], True)"
    and "fst (ParseUint64 U (PutUint64 U v [k]) 1) = v" and "PutUint64 U v [k] ! 0 = k"
proof -
  have "file_ReadAt (open_file content) 9 (int (length pre)) = (take 9 (PutUint64 U v [k] @ post), True)"
    by (simp add: file_ReadAt_def open_file_def assms(2))
  also have "take 9 (PutUint64 U v [k] @ post) = PutUint64 U v [k]"
    using length_put9 [OF assms(1), of v k] by (simp add: take_append)
  finally show "file_ReadAt (open_file content) 9 (int (length pre)) = (PutUint64 U v [k], True)" .
  show "fst (ParseUint64 U (PutUint64 U v [k]) 1) = v" "PutUint64 U v [k] ! 0 = k"
    using sync_request_parses [OF assms(1), of v k] by (cases "PutUint64 U v [k]"; simp)+
qed

lemma open_actions:
  assumes U: "u64_codec U" and c: "content = pre @ concat (map (action_record U) xs) @ post" and small: "int (length content) < 2 ^ 63"
  shows "open_chain_loop U (open_file content) (int (length pre)) h bs =
    open_chain_loop U (open_file content) (int (length (pre @ concat (map (action_record U) xs)))) h bs"
  using c
proof (induction xs arbitrary: pre)
  case (Cons a xs)
  let ?n = "of_nat (length a) :: u64"
  have c: "content = pre @ PutUint64 U ?n [topos_MsgAction] @ (a @ concat (map (action_record U) xs) @ post)"
    using Cons.prems action_record_def [of U a] by simp
  note r = read_record [OF U c]
  have len: "length (PutUint64 U ?n [topos_MsgAction]) = 9" by (rule length_put9 [OF U])
  have "length pre + 9 + length a \<le> length content" by (simp add: c len)
  then have s: "int (length pre) + 9 + int (length a) < 2 ^ 63" using small by linarith
  then have v: "int_of_u64 ?n = int (length a)" by (intro int_of_u64_of_nat) linarith
  have "open_chain_loop U (open_file content) (int (length pre)) h bs =
      open_chain_loop U (open_file content) (wrap64 (int (length pre) + 9 + int_of_u64 ?n)) h bs"
    by (subst open_chain_loop.simps) (simp add: r len Let_def)
  also have "wrap64 (int (length pre) + 9 + int_of_u64 ?n) = int (length (pre @ action_record U a))"
    using s by (simp add: v wrap64_id length_action_record [OF U])
  also have "open_chain_loop U (open_file content) (int (length (pre @ action_record U a))) h bs =
      open_chain_loop U (open_file content) (int (length ((pre @ action_record U a) @ concat (map (action_record U) xs)))) h bs"
    using Cons.prems by (intro Cons.IH) simp
  finally show ?case by simp
qed simp

text \<open>
  A file of records: each block with the epoch of its header. \<open>found_blocks\<close> is what opening
  finds in it from an offset, after a block of epoch \<open>h\<close>: the positions where the actions of
  the blocks start, or the first header that does not follow.
\<close>

fun record_chain :: "util \<Rightarrow> (u64 \<times> bytes list) list \<Rightarrow> bytes" where
  "record_chain U [] = []"
| "record_chain U ((e, acts) # rest) = block_record U e acts @ record_chain U rest"

fun found_blocks :: "int \<Rightarrow> u64 \<Rightarrow> (u64 \<times> bytes list) list \<Rightarrow> bc_error + int list" where
  "found_blocks off h [] = Inr []"
| "found_blocks off h ((e, acts) # rest) =
     (if e > 0 \<and> e \<noteq> h + 1 then Inl (OutOfSequence off)
      else map_sum id ((#) (off + 9)) (found_blocks (off + block_size acts) e rest))"

lemma open_records:
  assumes U: "u64_codec U" and c: "content = pre @ record_chain U blocks @ tail" and small: "int (length content) < 2 ^ 63"
    and tail: "length tail < 9"
  shows "open_chain_loop U (open_file content) (int (length pre)) h bs =
    Some (map_sum id ((@) bs) (found_blocks (int (length pre)) h blocks))"
  using c
proof (induction blocks arbitrary: pre h bs)
  case Nil
  with tail show ?case by (subst open_chain_loop.simps) (simp add: file_ReadAt_def open_file_def)
next
  case (Cons block rest)
  obtain e acts where block: "block = (e, acts)" by fastforce
  have c: "content = pre @ PutUint64 U e [topos_MsgBlock] @ (concat (map (action_record U) acts) @ record_chain U rest @ tail)"
    using Cons.prems by (simp add: block block_record_def)
  note r = read_record [OF U c]
  have len: "length (PutUint64 U e [topos_MsgBlock]) = 9" by (rule length_put9 [OF U])
  show ?case
  proof (cases "e > 0 \<and> e \<noteq> h + 1")
    case True
    then show ?thesis by (subst open_chain_loop.simps) (simp add: block r len Let_def)
  next
    case False
    let ?pos = "int (length pre) + 9"
    have "open_chain_loop U (open_file content) (int (length pre)) h bs =
        open_chain_loop U (open_file content) ?pos e (bs @ [?pos])"
      by (subst open_chain_loop.simps) (use False in \<open>auto simp: r len Let_def\<close>)
    also have "?pos = int (length (pre @ PutUint64 U e [topos_MsgBlock]))" by (simp add: len)
    also have "open_chain_loop U (open_file content) \<dots> e (bs @ [int (length (pre @ PutUint64 U e [topos_MsgBlock]))]) =
        open_chain_loop U (open_file content)
          (int (length ((pre @ PutUint64 U e [topos_MsgBlock]) @ concat (map (action_record U) acts)))) e
          (bs @ [int (length (pre @ PutUint64 U e [topos_MsgBlock]))])"
      using c small by (intro open_actions [OF U]) simp_all
    also have "(pre @ PutUint64 U e [topos_MsgBlock]) @ concat (map (action_record U) acts) = pre @ block_record U e acts"
      by (simp add: block_record_def)
    also have "open_chain_loop U (open_file content) (int (length (pre @ block_record U e acts))) e
          (bs @ [int (length (pre @ PutUint64 U e [topos_MsgBlock]))]) =
        Some (map_sum id ((@) (bs @ [int (length (pre @ PutUint64 U e [topos_MsgBlock]))]))
          (found_blocks (int (length (pre @ block_record U e acts))) e rest))"
      using Cons.prems by (intro Cons.IH) (simp add: block)
    finally show ?thesis using False
      by (cases "found_blocks (int (length pre) + block_size acts) e rest")
        (auto simp: block len length_block_record [OF U])
  qed
qed

text \<open>Blocks of consecutive epochs are all found.\<close>

fun numbered :: "u64 \<Rightarrow> bytes list list \<Rightarrow> (u64 \<times> bytes list) list" where
  "numbered e [] = []"
| "numbered e (acts # rest) = (e, acts) # numbered (e + 1) rest"

lemma record_chain_numbered: "record_chain U (numbered e actss) = chain_content U e actss"
  by (induction actss arbitrary: e) simp_all

lemma found_numbered: "e = 0 \<or> e = h + 1 \<Longrightarrow> found_blocks off h (numbered e actss) = Inr (positions_of off actss)"
  by (induction actss arbitrary: off h e) auto

section \<open>Writing\<close>

lemma write_actions_block:
  assumes "[] \<notin> set acts" and "\<not> f_closed f" and "f_writable f" and "\<forall>n \<in> set ns. n < length acts"
  shows "write_actions U (block_of e acts) ns f =
    Inr (None, f\<lparr>f_content := f_content f @ concat (map (\<lambda>n. action_record U (tl (acts ! n))) ns)\<rparr>)"
  using assms(2-4)
proof (induction ns arbitrary: f)
  case (Cons n ns)
  have "acts ! n \<noteq> []" using assms(1) Cons.prems(3) nth_mem by (metis list.set_intros(1))
  then have "mb_Get (block_of e acts) (int n) = Inr (Some (tl (acts ! n)))"
    using block_of_Get [of n acts e] Cons.prems(3) by simp
  with Cons show ?case by (simp add: file_Write_def)
qed simp

text \<open>A writable chain with no protocol state, the actions of one block after another.\<close>

fun write_chain ::
  "util \<Rightarrow> crypto \<Rightarrow> 'x protocol_state \<Rightarrow> bytes list list \<Rightarrow> 'x blockchain \<Rightarrow> 'x blockchain go" where
  "write_chain U C S [] b = Inr b"
| "write_chain U C S (acts # rest) b =
     go_bind (foldl (\<lambda>r a. go_bind r (\<lambda>c. go_bind (bc_Append S a c) (\<lambda>(err, c'). Inr c'))) (Inr b) acts) (\<lambda>b1.
     go_bind (deref (bc_current b1)) (\<lambda>current.
     go_bind (bc_NextBlock U C S (mb_epoch current + 1) (mb_Hash C current) b1) (\<lambda>(err, b2).
       write_chain U C S rest b2)))"

lemma append_all:
  assumes "\<not> bc_locked b" and "bc_state b = None" and "bc_current b = Some c"
  shows "foldl (\<lambda>r a. go_bind r (\<lambda>c. go_bind (bc_Append S a c) (\<lambda>(err, c'). Inr c'))) (Inr b) acts =
    Inr (b\<lparr>bc_current := Some (fold mb_Append acts c)\<rparr>)"
  using assms
proof (induction acts arbitrary: b c)
  case Nil
  then show ?case by (cases b) simp
next
  case (Cons a acts)
  have "bc_Append S a b = Inr (None, b\<lparr>bc_current := Some (mb_Append a c)\<rparr>)"
    using Cons.prems by (cases b) (simp add: bc_Append_def bc_lock_def bc_unlock_def deref_def Let_def)
  then show ?case using Cons.IH [of "b\<lparr>bc_current := Some (mb_Append a c)\<rparr>" "mb_Append a c"] Cons.prems by simp
qed

lemma write_chain_content:
  assumes "\<not> bc_locked b" and "bc_state b = None" and "bc_current b = Some (new_block e)"
    and "\<not> f_closed (bc_file b)" and "f_writable (bc_file b)" and "\<forall>acts \<in> set actss. [] \<notin> set acts"
  shows "\<exists>b'. write_chain U C S actss b = Inr b' \<and> bc_current b' = Some (new_block (e + of_nat (length actss))) \<and>
    f_content (bc_file b') = f_content (bc_file b) @ chain_content U e (map (map tl) actss)"
  using assms
proof (induction actss arbitrary: b e)
  case (Cons acts rest)
  let ?b1 = "b\<lparr>bc_current := Some (block_of e acts)\<rparr>"
  have a: "foldl (\<lambda>r a. go_bind r (\<lambda>c. go_bind (bc_Append S a c) (\<lambda>(err, c'). Inr c'))) (Inr b) acts = Inr ?b1"
    using append_all [OF Cons.prems(1-3)] by (simp add: block_of_def)
  let ?f = "(bc_file b)\<lparr>f_content := f_content (bc_file b) @ PutUint64 U e [topos_MsgBlock]\<rparr>"
  let ?f2 = "(bc_file b)\<lparr>f_content := f_content (bc_file b) @ block_record U e (map tl acts)\<rparr>"
  have tls: "map (\<lambda>n. action_record U (tl (acts ! n))) [0..<length acts] = map (action_record U) (map tl acts)"
    by (rule nth_equalityI) simp_all
  have "write_actions U (block_of e acts) [0..<length acts] ?f =
      Inr (None, ?f\<lparr>f_content := f_content ?f @ concat (map (\<lambda>n. action_record U (tl (acts ! n))) [0..<length acts])\<rparr>)"
    using Cons.prems by (intro write_actions_block) simp_all
  then have w: "write_actions U (block_of e acts) [0..<length acts] ?f = Inr (None, ?f2)"
    unfolding tls by (simp add: block_record_def comp_def)
  let ?b2 = "b\<lparr>bc_file := ?f2, bc_current := Some (new_block (e + 1))\<rparr>"
  have ep: "mb_epoch (block_of e acts) = e" by (simp add: block_of_fields)
  have n: "bc_NextBlock U C S (e + 1) (mb_Hash C (block_of e acts)) ?b1 = Inr (None, ?b2)"
    using Cons.prems w by (cases b) (simp add: bc_NextBlock_def deref_def file_Write_def ep block_of_Len Let_def)
  obtain b' where "write_chain U C S rest ?b2 = Inr b'" "bc_current b' = Some (new_block (e + 1 + of_nat (length rest)))"
    "f_content (bc_file b') = f_content (bc_file ?b2) @ chain_content U (e + 1) (map (map tl) rest)"
    using Cons.IH [of ?b2 "e + 1"] Cons.prems by auto
  then show ?case using a n ep by (simp add: deref_def ac_simps)
qed simp

definition demo_state :: "unit protocol_state" where
  "demo_state = \<lparr>ps_Action = (\<lambda>x a. (False, x)), ps_NextBlock = (\<lambda>x e. (False, x)), ps_Epoch = (\<lambda>x. 0)\<rparr>"

text \<open>A chain as \<open>OpenFSBlockchain\<close> returns it: its file is closed, it has no current block and no state.\<close>

definition opened_chain :: "bytes \<Rightarrow> bool \<Rightarrow> int list \<Rightarrow> 'x blockchain" where
  "opened_chain content strict blocks = \<lparr>bc_locked = False, bc_file = (open_file content)\<lparr>f_closed := True\<rparr>,
     bc_blocks = blocks, bc_current = None, bc_state = None, bc_strict = strict\<rparr>"

definition unusable :: "util \<Rightarrow> crypto \<Rightarrow> 'x protocol_state \<Rightarrow> 'x blockchain \<Rightarrow> bool" where
  "unusable U C S b \<longleftrightarrow>
     (\<forall>e h. bc_NextBlock U C S e h b = Inl NilPanic) \<and> (\<forall>a. bc_Append S a b = Inl NilPanic) \<and>
     (\<forall>e. bc_Sync U C b e = Some ([], Some NilPanic)) \<and>
     (\<forall>e seqs. bc_RetrieveEpoch U b e seqs = Some (Inl NilPanic)) \<and>
     (\<forall>x. bc_UpdateState U S x b = Some (Inl Deadlock)) \<and>
     (\<forall>e block. bc_Block U b e \<noteq> Some (Inr (Inr block)))"

lemma opened_chain_unusable:
  fixes S :: "'x protocol_state"
  shows "unusable U C S (opened_chain content strict blocks)"
proof -
  have "file_ReadAt ((open_file content)\<lparr>f_closed := True\<rparr>) n pos = ([], False)" for n pos
    by (simp add: file_ReadAt_def)
  then have "block_loop U ((open_file content)\<lparr>f_closed := True\<rparr>) pos blk = Some (Inr (Inl CannotParse))" for pos blk
    by (subst block_loop.simps) simp
  then have "bc_Block U (opened_chain content strict blocks :: 'x blockchain) e \<noteq> Some (Inr (Inr block))" for e block
    by (auto simp: bc_Block_def opened_chain_def split: sum.splits)
  then show ?thesis unfolding unusable_def
    by (simp add: opened_chain_def bc_NextBlock_def deref_def bc_Append_def bc_lock_def bc_Sync_def
        bc_RetrieveEpoch_def bc_UpdateState_def UpdateStateWithChain_def Let_def)
qed

section \<open>Properties\<close>

text \<open>C22: Opening a file of blocks, each a header with an epoch and the records of its actions, with
  perhaps a truncated header at the end: the positions found are where each block's actions
  start, and the error is at the first header whose epoch is neither 0 nor the successor of the
  one before it (for the first header: neither 0 nor 1). The chain returned, and there is no
  other constructor of one, cannot be used (\<open>unusable\<close>): its file is closed and it has no
  current block, so that announcing a block, appending an action, answering a sync request and
  retrieving actions panic, no stored block can be read, and passing it a state blocks for ever.\<close>

theorem opened_file_chain:
  fixes S :: "'x protocol_state"
  assumes "u64_codec U" and "content = record_chain U blocks @ tail" and "length tail < 9"
    and "int (length content) < 2 ^ 63"
  shows "OpenFSBlockchain U (Some content) strict =
      Some (map_sum id (opened_chain content strict :: int list \<Rightarrow> 'x blockchain) (found_blocks 0 0 blocks)) \<and>
    (\<forall>b :: 'x blockchain. OpenFSBlockchain U (Some content) strict = Some (Inr b) \<longrightarrow> unusable U C S b)"
proof -
  have "open_chain_loop U (open_file content) (int (length ([] :: bytes))) 0 [] =
      Some (map_sum id ((@) []) (found_blocks (int (length ([] :: bytes))) 0 blocks))"
    using assms by (intro open_records [where tail = tail]) simp_all
  then have "OpenFSBlockchain U (Some content) strict =
      Some (map_sum id (opened_chain content strict :: int list \<Rightarrow> 'x blockchain) (found_blocks 0 0 blocks))"
    by (cases "found_blocks 0 0 blocks") (simp_all add: OpenFSBlockchain_def open_file_def opened_chain_def)
  then show ?thesis
    using opened_chain_unusable [of U C S content strict] by (cases "found_blocks 0 0 blocks") auto
qed

text \<open>A file of the blocks 0, 1 and 2, and one whose second block does not follow.\<close>

theorem opened_file_chain_witness:
  "OpenFSBlockchain demo_util (Some (record_chain demo_util [(0, [[8], []]), (1, []), (2, [[2, 3]])])) True =
     Some (Inr (opened_chain (record_chain demo_util [(0, [[8], []]), (1, []), (2, [[2, 3]])]) True [9, 37, 46] :: unit blockchain)) \<and>
   unusable demo_util demo_crypto demo_state
     (opened_chain (record_chain demo_util [(0, [[8], []]), (1, []), (2, [[2, 3]])]) True [9, 37, 46]) \<and>
   OpenFSBlockchain demo_util (Some (record_chain demo_util [(1, [[8]]), (3, [])] @ [0])) True =
     Some (Inl (OutOfSequence 19) :: bc_error + unit blockchain)"
proof -
  let ?c = "record_chain demo_util [(0, [[8], []]), (1, []), (2, [[2, 3]])]"
  let ?d = "record_chain demo_util [(1, [[8]]), (3, [])] @ [0]"
  have small: "int (length ?c) < 2 ^ 63" "int (length ?d) < 2 ^ 63"
    by (simp_all add: block_record_def action_record_def length_put9 [OF demo_u64_codec])
  have c: "?c = ?c @ []" by simp
  note 1 = opened_file_chain [OF demo_u64_codec c _ small(1), of True demo_crypto demo_state]
    and 2 = opened_file_chain [OF demo_u64_codec refl _ small(2), of True demo_crypto demo_state]
  have ps: "found_blocks 0 0 [(0, [[8], []]), (1, []), (2, [[2, 3]])] = Inr [9, 37, 46]"
    "found_blocks 0 0 [(1, [[8]]), (3, [])] = Inl (OutOfSequence 19)"
    by (simp_all add: block_size_def)
  from 1 2 show ?thesis unfolding ps by (simp del: record_chain.simps)
qed

text \<open>The format the methods write is the one that is opened: were a chain made with a writable file and a
  current block of epoch 0 or 1, which nothing in the package does, the file written by appending
  actions that are not empty and closing the blocks would be opened without error and the positions
  would be those of the blocks; only, as \<open>Get\<close> drops it, each action is one byte short.\<close>

lemma chain_file_roundtrip:
  fixes b :: "'x blockchain"
  assumes "u64_codec U" and "\<not> bc_locked b" and "bc_state b = None" and "bc_current b = Some (new_block e)"
    and "bc_file b = \<lparr>f_content = [], f_closed = False, f_writable = True\<rparr>" and "e = 0 \<or> e = 1"
    and "\<forall>acts \<in> set actss. [] \<notin> set acts" and "int (length (chain_content U e (map (map tl) actss))) < 2 ^ 63"
  shows "\<exists>b' opened. write_chain U C S actss b = Inr b' \<and>
    OpenFSBlockchain U (Some (f_content (bc_file b'))) strict = Some (Inr (opened :: 'x blockchain)) \<and>
    bc_blocks opened = positions_of 0 (map (map tl) actss)"
proof -
  obtain b' where b': "write_chain U C S actss b = Inr b'"
    "f_content (bc_file b') = chain_content U e (map (map tl) actss)"
    using write_chain_content [OF assms(2-4) _ _ assms(7), of U C S] assms(5) by auto
  let ?c = "f_content (bc_file b')"
  have "open_chain_loop U (open_file ?c) (int (length ([] :: bytes))) 0 [] =
      Some (map_sum id ((@) []) (found_blocks (int (length ([] :: bytes))) 0 (numbered e (map (map tl) actss))))"
    using b'(2) assms(8) by (intro open_records [OF assms(1), where tail = "[]"]) (simp_all add: record_chain_numbered)
  moreover have "found_blocks 0 0 (numbered e (map (map tl) actss)) = Inr (positions_of 0 (map (map tl) actss))"
    using assms(6) by (intro found_numbered) simp
  ultimately have "open_chain_loop U (open_file ?c) 0 0 [] = Some (Inr (positions_of 0 (map (map tl) actss)))" by simp
  with b'(1) show ?thesis by (simp add: OpenFSBlockchain_def open_file_def)
qed

lemma chain_file_roundtrip_example:
  "\<exists>b' opened. write_chain demo_util demo_crypto demo_state [[[7, 8], [9]], [], [[1, 2, 3]]]
       \<lparr>bc_locked = False, bc_file = \<lparr>f_content = [], f_closed = False, f_writable = True\<rparr>, bc_blocks = [],
        bc_current = Some (new_block 0), bc_state = None, bc_strict = True\<rparr> = Inr b' \<and>
     OpenFSBlockchain demo_util (Some (f_content (bc_file b'))) True = Some (Inr (opened :: unit blockchain)) \<and>
     bc_blocks opened = [9, 37, 46]"
proof -
  let ?b = "\<lparr>bc_locked = False, bc_file = \<lparr>f_content = [], f_closed = False, f_writable = True\<rparr>, bc_blocks = [],
        bc_current = Some (new_block 0), bc_state = None, bc_strict = True\<rparr> :: unit blockchain"
  have small: "int (length (chain_content demo_util 0 (map (map tl) [[[7, 8], [9]], [], [[1, 2, 3]]]))) < 2 ^ 63"
    by (simp add: block_record_def action_record_def length_put9 [OF demo_u64_codec])
  have acts: "\<forall>acts \<in> set [[[7, 8], [9]], [], [[1, 2, 3 :: byte]]]. [] \<notin> set acts" by simp
  from chain_file_roundtrip [OF demo_u64_codec, of ?b 0, OF _ _ _ _ _ acts small, of demo_crypto demo_state True]
  show ?thesis by (simp add: block_size_def)
qed

text \<open>Whatever the epoch asked for, actions are retrieved from the current block: for an older epoch
  whose block is read, the result is that of the current epoch.\<close>

lemma retrieve_uses_current:
  assumes "bc_current b = Some current" and "height < mb_epoch current"
    and "bc_Block U b height = Some (Inr (Inr block))"
  shows "bc_RetrieveEpoch U b height seqs = bc_RetrieveEpoch U b (mb_epoch current) seqs"
  using assms by (simp add: bc_RetrieveEpoch_def)

text \<open>A chain whose file holds an empty block 0, with current block 1.\<close>

definition demo_blockchain :: "unit blockchain" where
  "demo_blockchain = \<lparr>bc_locked = False, bc_file = open_file (PutUint64 demo_util 0 [topos_MsgBlock]), bc_blocks = [9],
     bc_current = Some (block_of 1 [[7, 8]]), bc_state = None, bc_strict = True\<rparr>"

lemma retrieve_uses_current_example:
  "bc_RetrieveEpoch demo_util demo_blockchain 0 [0] = Some (Inr (Some [Some [8]]))"
proof -
  have len: "length (PutUint64 demo_util 0 [topos_MsgBlock]) = 9" by (rule length_put9 [OF demo_u64_codec])
  have "block_loop demo_util (open_file (PutUint64 demo_util 0 [topos_MsgBlock])) 9 (new_block 0) = Some (Inr (Inr (new_block 0)))"
    using len by (subst block_loop.simps) (simp add: file_ReadAt_def open_file_def)
  then have b: "bc_Block demo_util demo_blockchain 0 = Some (Inr (Inr (new_block 0)))"
    by (simp add: bc_Block_def demo_blockchain_def int_of_u64_def go_index_def)
  have c: "bc_current demo_blockchain = Some (block_of 1 [[7, 8]])" "mb_epoch (block_of 1 [[7, 8]]) = 1"
    by (simp_all add: demo_blockchain_def block_of_fields)
  from retrieve_uses_current [OF c(1) _ b, of "[0]"] c show ?thesis
    using block_of_Get [of 0 "[[7, 8]]" 1]
    by (simp add: bc_RetrieveEpoch_def) (simp add: mb_Len_def block_of_fields ends_of_def)
qed

end
