(* ===== verification/Provider.thy ===== *)
theory Provider
  imports Store Proto_Block Messages Machine
begin

text \<open>
  \<open>topos/blockstore.go\<close>: the node that keeps the blocks of a social protocol in a store and
  serves them, and the client that receives them.

  \<open>provider_step\<close> is the goroutine that reads from the source, \<open>TransmitBlocks\<close> serves one
  connection, \<open>receive_step\<close> is the goroutine of \<open>ReceiveBlocks\<close>.
\<close>

section \<open>The source\<close>

text \<open>The map \<open>notCommit\<close> holds pointers to builders; \<open>p_block\<close> is the builder of the last new block.\<close>

record 'st provider =
  p_notCommit :: "u64 \<rightharpoonup> protocol_builder"
  p_block :: "protocol_builder option"
  p_store :: "'st block_store"

datatype provider_out = CloseListeners

record provider_env =
  pe_wire :: wire
  pe_credentials :: privkey

definition provider_new :: "provider_env \<Rightarrow> 'st provider \<Rightarrow> bytes \<Rightarrow> 'st provider" where
  "provider_new V s data =
     (let U = w_util (pe_wire V)
      in s\<lparr>p_block := Some (NewProtocolBuilder U (fst (ParseUint64 U data 1)))\<rparr>)"

definition provider_action :: "provider_env \<Rightarrow> 'st provider \<Rightarrow> bytes \<Rightarrow> 'st provider" where
  "provider_action V s data =
     (let U = w_util (pe_wire V); action = visible (fst (ParseByteArray U (slice_of data) 1))
      in case p_block s of None \<Rightarrow> s | Some b \<Rightarrow> s\<lparr>p_block := Some (bd_AddAction U action b)\<rparr>)"

definition provider_sealed :: "provider_env \<Rightarrow> 'st provider \<Rightarrow> bytes \<Rightarrow> 'st provider" where
  "provider_sealed V s data =
     (let U = w_util (pe_wire V)
      in case ParseUint64 U data 1 of (epochSeal, position) \<Rightarrow>
           (case p_notCommit s epochSeal of
              Some b \<Rightarrow> if bd_Building b
                then s\<lparr>p_notCommit := (p_notCommit s)(epochSeal \<mapsto> snd (bd_Seal U (w_crypto (pe_wire V)) b))\<rparr>
                else s
            | None \<Rightarrow> s))"

definition provider_committed :: "'st bytestore \<Rightarrow> provider_env \<Rightarrow> 'st provider \<Rightarrow> bytes \<Rightarrow> 'st provider go" where
  "provider_committed P V s data =
     (let U = w_util (pe_wire V)
      in case ParseUint64 U data 1 of (epochCommit, position) \<Rightarrow>
           (let invalidated = fst (ParseHashArray U data position)
            in case p_notCommit s epochCommit of
                 Some b \<Rightarrow>
                   if bd_Sealed b then
                     (let b' = bd_Finalize U (w_crypto (pe_wire V)) invalidated (pe_credentials V) b
                      in go_bind (st_AddBlock U P (bd_Bytes b') (p_store s)) (\<lambda>(err, store).
                           Inr (case err of
                                  None \<Rightarrow> s\<lparr>p_store := store, p_notCommit := (p_notCommit s)(epochCommit := None)\<rparr>
                                | Some e \<Rightarrow> s\<lparr>p_store := store, p_notCommit := (p_notCommit s)(epochCommit \<mapsto> b')\<rparr>)))
                   else Inr s
               | None \<Rightarrow> Inr s))"

definition provider_step ::
  "'st bytestore \<Rightarrow> provider_env \<Rightarrow> 'st provider \<Rightarrow> read_event \<Rightarrow> ('st provider, provider_out) reaction" where
  "provider_step P V s ev =
     (case ev of
        ReadError \<Rightarrow> Return [CloseListeners]
      | Read [] \<Rightarrow> Continue s []
      | Read (k # rest) \<Rightarrow>
          (let data = k # rest; M = w_msg (pe_wire V)
           in if k = MsgNewBlock M then Continue (provider_new V s data) []
              else if k = MsgAction M then Continue (provider_action V s data) []
              else if k = MsgBlockSealed M then Continue (provider_sealed V s data) []
              else if k = MsgBlockCommitted M then
                (case provider_committed P V s data of Inl h \<Rightarrow> Crash h [] | Inr s' \<Rightarrow> Continue s' [])
              else Continue s []))"

text \<open>
  The function. A dial error is reported, but the goroutine is started all the same and reads
  from a nil connection.
\<close>

datatype provider_start = NoListener | NoSource halt | Serving

definition BlockProviderNode ::
  "'st bytestore \<Rightarrow> provider_env \<Rightarrow> bool \<Rightarrow> bool \<Rightarrow> read_event list \<Rightarrow> 'st block_store \<Rightarrow>
     provider_start \<times> provider_out list \<times> 'st provider outcome" where
  "BlockProviderNode P V listening dialed reads store =
     (let s = \<lparr>p_notCommit = Map.empty, p_block = None, p_store = store\<rparr>
      in if \<not> listening then (NoListener, [], Returned)
         else if \<not> dialed then (NoSource NilPanic, [], Crashed NilPanic)
         else (Serving, react (provider_step P V) s reads))"

section \<open>Transmitting\<close>

text \<open>\<open>const buffersize = 1 >> 24\<close>.\<close>

definition buffersize :: int where
  "buffersize = drop_bit 24 1"

text \<open>
  The loop over the epochs. \<open>sends_ok n\<close> says whether the \<open>n\<close>-th send of the connection
  succeeds. It does not end where \<open>last\<close> is the greatest \<open>uint64\<close>.
\<close>

partial_function (option) transmit_loop ::
  "'st bytestore \<Rightarrow> 'st block_store \<Rightarrow> (nat \<Rightarrow> bool) \<Rightarrow> u64 \<Rightarrow> u64 \<Rightarrow> bytes \<Rightarrow> conn_event list \<Rightarrow> conn_event list go option" where
  "transmit_loop S store sends_ok epoch final buffer out =
     (if epoch > final then Some (Inr (out @ [Shutdown]))
      else case st_GetBlock S store (int_of_u64 epoch) of
        Inl h \<Rightarrow> Some (Inl h)
      | Inr block \<Rightarrow>
          (let buffer' = buffer @ (case block of None \<Rightarrow> [] | Some d \<Rightarrow> d)
           in if int (length buffer') > buffersize \<or> epoch = final then
                (if sends_ok (length out) then transmit_loop S store sends_ok (epoch + 1) final [] (out @ [Send buffer'])
                 else Some (Inr (out @ [Send buffer', Shutdown])))
              else transmit_loop S store sends_ok (epoch + 1) final buffer' out))"

text \<open>
  \<open>TransmitBlocks\<close>: \<open>None\<close> as the request means that the receiver sends nothing: the call
  waits, after what it has sent.
\<close>

datatype transmitted = Waiting "conn_event list" | Transmitted "conn_event list"

definition TransmitBlocks ::
  "util \<Rightarrow> 'st bytestore \<Rightarrow> 'st block_store \<Rightarrow> (nat \<Rightarrow> bool) \<Rightarrow> read_event option \<Rightarrow> transmitted go option" where
  "TransmitBlocks U P store sends_ok request =
     (let final = st_Epoch store; hello = Send (PutUint64 U final [])
      in if \<not> sends_ok 0 then Some (Inr (Transmitted [hello, Shutdown]))
         else case request of
           None \<Rightarrow> Some (Inr (Waiting [hello]))
         | Some ReadError \<Rightarrow> Some (Inr (Transmitted [hello, Shutdown]))
         | Some (Read bytes) \<Rightarrow>
             (let start = fst (ParseUint64 U bytes 0)
              in if start > final then Some (Inr (Transmitted [hello, Send (replicate 8 0), Shutdown]))
                 else map_option (\<lambda>r. go_bind r (\<lambda>evs. Inr (Transmitted evs)))
                   (transmit_loop P store sends_ok (if start = 0 then 1 else start) final [] [hello])))"

section \<open>Receiving\<close>

partial_function (option) blocks_loop ::
  "util \<Rightarrow> crypto \<Rightarrow> bytes \<Rightarrow> int \<Rightarrow> protocol_block list \<Rightarrow> protocol_block list option go option" where
  "blocks_loop U C data position protocols =
     (case ParseProtocolBlockWithPosition U C (slice_of data) position of
        None \<Rightarrow> None
      | Some (Inl h) \<Rightarrow> Some (Inl h)
      | Some (Inr (None, p)) \<Rightarrow> Some (Inr None)
      | Some (Inr (Some b, p)) \<Rightarrow>
          if p \<ge> int (length data) then Some (Inr (Some (protocols @ [b])))
          else blocks_loop U C data p (protocols @ [b]))"

definition byteArrayToBlockArray :: "util \<Rightarrow> crypto \<Rightarrow> bytes \<Rightarrow> protocol_block list option go option" where
  "byteArrayToBlockArray U C data = blocks_loop U C data 0 []"

datatype receive_out = Output "protocol_block option" | RxConn conn_event

text \<open>The blocks of one message: those in sequence are put out, the last epoch again and again.\<close>

fun take_blocks :: "u64 \<Rightarrow> u64 \<Rightarrow> protocol_block list \<Rightarrow> receive_out list \<times> u64" where
  "take_blocks lastEpoch epoch [] = ([], epoch)"
| "take_blocks lastEpoch epoch (b # rest) =
     (if epoch = pb_Epoch b then
        (case take_blocks lastEpoch (if epoch < lastEpoch then epoch + 1 else epoch) rest of
           (os, e) \<Rightarrow> (Output (Some b) # os, e))
      else take_blocks lastEpoch epoch rest)"

definition receive_step :: "wire \<Rightarrow> u64 \<Rightarrow> u64 \<Rightarrow> read_event \<Rightarrow> (u64, receive_out) reaction" where
  "receive_step w lastEpoch epoch ev =
     (case ev of
        ReadError \<Rightarrow> Return [Output None, RxConn Shutdown]
      | Read data \<Rightarrow>
          (let short = (if length data < 8 then [RxConn Shutdown, Output None] else [])
           in if length data = 8 \<and> sum_list data = 0 then Return (short @ [Output None, RxConn Shutdown])
              else case byteArrayToBlockArray (w_util w) (w_crypto w) data of
                None \<Rightarrow> Crash Spin short
              | Some (Inl h) \<Rightarrow> Crash h short
              | Some (Inr None) \<Rightarrow> Return (short @ [Output None, RxConn Shutdown])
              | Some (Inr (Some blocks)) \<Rightarrow>
                  (case take_blocks lastEpoch epoch blocks of (os, e) \<Rightarrow> Continue e (short @ os))))"

text \<open>
  \<open>ReceiveBlocks\<close>: the first read is the last epoch of the provider, and the call waits for it.
\<close>

datatype received = ReceiveError | ReceiveWaiting | Received u64 "receive_out list" "u64 outcome"

definition ReceiveBlocks :: "wire \<Rightarrow> bool \<Rightarrow> u64 \<Rightarrow> read_event list \<Rightarrow> received" where
  "ReceiveBlocks w dialed epoch reads =
     (if epoch = 0 then ReceiveError
      else if \<not> dialed then ReceiveError
      else case reads of
        [] \<Rightarrow> ReceiveWaiting
      | ReadError # rest \<Rightarrow> ReceiveError
      | Read bytes # rest \<Rightarrow>
          (let lastEpoch = fst (ParseUint64 (w_util w) bytes 0)
           in if lastEpoch < epoch then Received lastEpoch [Output None] Returned
              else (case react (receive_step w lastEpoch) epoch rest of (os, r) \<Rightarrow> Received lastEpoch os r)))"

section \<open>The store of a provider\<close>

definition provider_idle :: "'st block_store \<Rightarrow> 'st provider \<Rightarrow> bool" where
  "provider_idle store s \<longleftrightarrow> p_notCommit s = Map.empty \<and> p_store s = store"

lemma provider_step_idle:
  assumes "provider_idle store s" and "ev \<noteq> ReadError"
  shows "\<exists>s'. provider_step P V s ev = Continue s' [] \<and> provider_idle store s'"
  using assms
  by (auto simp: provider_idle_def provider_step_def provider_new_def provider_action_def provider_sealed_def
      provider_committed_def Let_def split: read_event.splits list.splits option.splits prod.splits)

definition is_data :: "read_event \<Rightarrow> bool" where
  "is_data ev \<longleftrightarrow> ev \<noteq> ReadError"

interpretation provider: running_loop "provider_step P V" "provider_idle store" is_data "\<lambda>x. False" for P V store
proof (unfold_locales, goal_cases)
  case (1 s e s' os)
  with provider_step_idle [of store s e P V] show ?case by (auto simp: is_data_def)
next
  case (2 s e x)
  with provider_step_idle [of store s e P V] show ?case by (auto simp: is_data_def)
next
  case (3 s e)
  with provider_step_idle [of store s e P V] show ?case by (auto simp: is_data_def)
qed

section \<open>What is transmitted\<close>

lemma buffersize_0: "buffersize = 0"
  by (simp add: buffersize_def)

lemma u64_succ_of_nat: "(of_nat n :: u64) + 1 = of_nat (Suc n)"
  by simp

lemma transmit_loop_sends:
  assumes get: "\<And>k. st_GetBlock P store (int k) = Inr (if k < length ds then Some (ds ! k) else None)"
    and ne: "\<forall>d \<in> set ds. d \<noteq> []" and ok: "\<forall>n. sends_ok n" and small: "int (length ds) < 2 ^ 62" and "n \<le> length ds"
  shows "transmit_loop P store sends_ok (of_nat n) (of_nat (length ds)) [] out =
    Some (Inr (out @ map Send (drop n ds) @ [Send [], Shutdown]))"
  using assms(5)
proof (induction "length ds - n" arbitrary: n out)
  case 0
  then have n: "n = length ds" by simp
  have lt: "\<not> (of_nat n :: u64) > of_nat n" by simp
  have gt: "(of_nat n :: u64) + 1 > of_nat n"
    unfolding u64_succ_of_nat using small n by (simp add: word_less_nat_alt unat_u64_of_nat del: of_nat_Suc)
  have g: "st_GetBlock P store (int_of_u64 (of_nat n)) = Inr None"
    using get [of n] n small by (simp add: int_of_u64_of_nat)
  have "transmit_loop P store sends_ok (of_nat n) (of_nat n) [] out =
      transmit_loop P store sends_ok (of_nat n + 1) (of_nat n) [] (out @ [Send []])"
    by (subst transmit_loop.simps) (simp add: g ok)
  also have "\<dots> = Some (Inr ((out @ [Send []]) @ [Shutdown]))"
    using gt by (subst transmit_loop.simps) simp
  finally show ?case using n by simp
next
  case (Suc m)
  then have n: "n < length ds" by simp
  have lt: "\<not> (of_nat n :: u64) > of_nat (length ds)"
    using small n u64_of_nat_le [of n "length ds"] by (simp add: not_less)
  have g: "st_GetBlock P store (int_of_u64 (of_nat n)) = Inr (Some (ds ! n))"
    using get [of n] n small by (simp add: int_of_u64_of_nat)
  have "ds ! n \<noteq> []" using ne n by simp
  then have "transmit_loop P store sends_ok (of_nat n) (of_nat (length ds)) [] out =
      transmit_loop P store sends_ok (of_nat n + 1) (of_nat (length ds)) [] (out @ [Send (ds ! n)])"
    using lt by (subst transmit_loop.simps) (simp add: g ok buffersize_0)
  also have "\<dots> = Some (Inr ((out @ [Send (ds ! n)]) @ map Send (drop (Suc n) ds) @ [Send [], Shutdown]))"
    unfolding u64_succ_of_nat using Suc by (intro Suc.hyps) simp_all
  finally show ?case by (simp flip: Cons_nth_drop_Suc [OF n])
qed

section \<open>What the receiver sends\<close>

fun silent :: "receive_out \<Rightarrow> bool" where
  "silent (RxConn (Send d)) \<longleftrightarrow> False"
| "silent (RxConn (SendDirect d)) \<longleftrightarrow> False"
| "silent _ \<longleftrightarrow> True"

lemma take_blocks_silent: "x \<in> set (fst (take_blocks l e bs)) \<Longrightarrow> silent x"
  by (induction bs arbitrary: e) (auto split: if_splits prod.splits simp: case_prod_unfold)

lemma receive_step_silent: "x \<in> set (sent (receive_step w l e ev)) \<Longrightarrow> silent x"
  using take_blocks_silent [of x l e]
  by (auto simp: receive_step_def Let_def case_prod_unfold split: read_event.splits if_splits option.splits sum.splits)

interpretation receive: message_loop "receive_step w lastEpoch" "\<lambda>_. True" "\<lambda>_. True" silent for w lastEpoch
  by unfold_locales (auto intro: receive_step_silent)

section \<open>A transmitter and a receiver\<close>

text \<open>
  The two on one connection. \<open>first_request\<close> is the first thing the receiver does that the
  transmitter's read sees: what is sent, or the end of the connection. \<open>delivered_reads\<close> is what
  the receiver reads of what the transmitter did. \<open>transfer n\<close> is what both have done after \<open>n\<close>
  exchanges: each time the transmitter sees what the receiver has done so far, and the other
  way round.
\<close>

fun first_request :: "receive_out list \<Rightarrow> read_event option" where
  "first_request [] = None"
| "first_request (RxConn (Send d) # os) = Some (Read d)"
| "first_request (RxConn (SendDirect d) # os) = Some (Read d)"
| "first_request (RxConn Shutdown # os) = Some ReadError"
| "first_request (RxConn CloseConn # os) = Some ReadError"
| "first_request (_ # os) = first_request os"

fun reads_of :: "conn_event list \<Rightarrow> read_event list" where
  "reads_of [] = []"
| "reads_of (Send d # evs) = Read d # reads_of evs"
| "reads_of (SendDirect d # evs) = Read d # reads_of evs"
| "reads_of (Shutdown # evs) = [ReadError]"
| "reads_of (CloseConn # evs) = [ReadError]"
| "reads_of (Ready # evs) = reads_of evs"

fun delivered_reads :: "transmitted go option \<Rightarrow> read_event list" where
  "delivered_reads (Some (Inr (Waiting evs))) = reads_of evs"
| "delivered_reads (Some (Inr (Transmitted evs))) = reads_of evs"
| "delivered_reads _ = []"

fun received_outs :: "received \<Rightarrow> receive_out list" where
  "received_outs (Received lastEpoch os r) = os"
| "received_outs _ = []"

definition exchange ::
  "wire \<Rightarrow> 'st bytestore \<Rightarrow> 'st block_store \<Rightarrow> u64 \<Rightarrow> read_event option \<Rightarrow> transmitted go option \<times> received" where
  "exchange w P store epoch request =
     (let t = TransmitBlocks (w_util w) P store (\<lambda>k. True) request
      in (t, ReceiveBlocks w True epoch (delivered_reads t)))"

fun transfer ::
  "wire \<Rightarrow> 'st bytestore \<Rightarrow> 'st block_store \<Rightarrow> u64 \<Rightarrow> nat \<Rightarrow> transmitted go option \<times> received" where
  "transfer w P store epoch 0 = exchange w P store epoch None"
| "transfer w P store epoch (Suc n) =
     exchange w P store epoch (first_request (received_outs (snd (transfer w P store epoch n))))"

lemma exchange_none:
  assumes "u64_codec (w_util w)" and "epoch \<noteq> 0"
  shows "exchange w P store epoch None =
    (Some (Inr (Waiting [Send (PutUint64 (w_util w) (st_Epoch store) [])])),
     if st_Epoch store < epoch then Received (st_Epoch store) [Output None] Returned
     else Received (st_Epoch store) [] (Running epoch))"
  using assms(2) parse_put_u64 [OF assms(1), of "st_Epoch store"]
  by (simp add: exchange_def TransmitBlocks_def ReceiveBlocks_def Let_def)

lemma transfer_waits:
  assumes "u64_codec (w_util w)" and "epoch \<noteq> 0"
  shows "transfer w P store epoch n = exchange w P store epoch None"
  by (induction n) (simp_all add: exchange_none [OF assms])

section \<open>What the receiver puts out\<close>

fun put_out :: "receive_out list \<Rightarrow> protocol_block list" where
  "put_out [] = []"
| "put_out (Output (Some b) # os) = b # put_out os"
| "put_out (_ # os) = put_out os"

lemma put_out_append [simp]: "put_out (xs @ ys) = put_out xs @ put_out ys"
  by (induction xs rule: put_out.induct) simp_all

text \<open>Blocks in sequence from \<open>e\<close> on, staying at the last epoch \<open>l\<close>.\<close>

definition advance :: "u64 \<Rightarrow> u64 \<Rightarrow> u64" where
  "advance l e = (if e < l then e + 1 else e)"

fun in_sequence :: "u64 \<Rightarrow> u64 \<Rightarrow> protocol_block list \<Rightarrow> bool" where
  "in_sequence l e [] \<longleftrightarrow> True"
| "in_sequence l e (b # bs) \<longleftrightarrow> pb_Epoch b = e \<and> in_sequence l (advance l e) bs"

lemma in_sequence_append:
  "in_sequence l e (xs @ ys) \<longleftrightarrow> in_sequence l e xs \<and> in_sequence l ((advance l ^^ length xs) e) ys"
  by (induction xs arbitrary: e) (auto simp: funpow_swap1)

lemma in_sequence_nth:
  "in_sequence l e bs \<Longrightarrow> e \<le> l \<Longrightarrow> k < length bs \<Longrightarrow> unat (pb_Epoch (bs ! k)) = min (unat e + k) (unat l)"
proof (induction bs arbitrary: e k)
  case (Cons b bs)
  show ?case
  proof (cases k)
    case 0
    with Cons.prems show ?thesis by (simp add: word_le_nat_alt)
  next
    case (Suc j)
    have rest: "in_sequence l (advance l e) bs" using Cons.prems(1) by simp
    show ?thesis
    proof (cases "e < l")
      case True
      then have "e + 1 \<noteq> 0" using max_word_max [of l] by (metis not_less max_word_wrap)
      then have "unat (advance l e) = Suc (unat e)" and "advance l e \<le> l"
        using True by (simp_all add: advance_def unat_u64_succ word_le_nat_alt word_less_nat_alt)
      with Cons.IH [OF rest _, of j] Cons.prems(3) Suc show ?thesis by simp
    next
      case False
      with Cons.prems(2) have "advance l e = l" "e = l" by (auto simp: advance_def)
      with Cons.IH [OF rest _, of j] Cons.prems(3) Suc show ?thesis by simp
    qed
  qed
qed simp

lemma take_blocks_sequence:
  "in_sequence l e (put_out (fst (take_blocks l e bs))) \<and>
   snd (take_blocks l e bs) = (advance l ^^ length (put_out (fst (take_blocks l e bs)))) e"
  by (induction bs arbitrary: e) (auto simp: case_prod_unfold advance_def funpow_swap1)

lemma receive_step_sequence:
  "in_sequence l e (put_out (sent (receive_step w l e ev))) \<and>
   (\<forall>e' os. receive_step w l e ev = Continue e' os \<longrightarrow> e' = (advance l ^^ length (put_out os)) e)"
  using take_blocks_sequence [of l e]
  by (auto simp: receive_step_def Let_def case_prod_unfold split: read_event.splits if_splits option.splits sum.splits)

lemma receive_sequence: "in_sequence l e (put_out (fst (react (receive_step w l) e evs)))"
proof (induction evs arbitrary: e)
  case (Cons ev evs)
  then show ?case using receive_step_sequence [of l e w ev]
    by (cases "receive_step w l e ev") (auto simp: in_sequence_append case_prod_unfold)
qed simp

text \<open>No block put out has a signature that its publisher verifies.\<close>

definition unverified :: "crypto \<Rightarrow> protocol_block \<Rightarrow> bool" where
  "unverified C b \<longleftrightarrow> \<not> Verify C (pb_Publisher b) (pb_Hash b) (pb_Siganture b)"

lemma parsed_unverified:
  "ParseProtocolBlockWithPosition U C data position = Some (Inr (Some b, q)) \<Longrightarrow> unverified C b"
  by (auto simp: ParseProtocolBlockWithPosition_def unverified_def Let_def
      split: if_splits option.splits sum.splits prod.splits)

lemma blocks_loop_unverified:
  assumes "blocks_loop U C data position protocols = Some r" and "r = Inr (Some bs)" and "\<forall>b \<in> set protocols. unverified C b"
  shows "\<forall>b \<in> set bs. unverified C b"
proof -
  have "\<forall>bs. r = Inr (Some bs) \<longrightarrow> (\<forall>b \<in> set protocols. unverified C b) \<longrightarrow> (\<forall>b \<in> set bs. unverified C b)"
  proof (rule blocks_loop.raw_induct [where P = "\<lambda>U C data position protocols r.
      \<forall>bs. r = Inr (Some bs) \<longrightarrow> (\<forall>b \<in> set protocols. unverified C b) \<longrightarrow> (\<forall>b \<in> set bs. unverified C b)", OF _ assms(1)])
    fix f U C data position protocols r
    assume IH: "\<And>U C data position protocols r. f U C data position protocols = Some r \<Longrightarrow>
        \<forall>bs. r = Inr (Some bs) \<longrightarrow> (\<forall>b \<in> set protocols. unverified C b) \<longrightarrow> (\<forall>b \<in> set bs. unverified C b)"
      and eq: "(case ParseProtocolBlockWithPosition U C (slice_of data) position of
        None \<Rightarrow> None
      | Some (Inl h) \<Rightarrow> Some (Inl h)
      | Some (Inr (None, p)) \<Rightarrow> Some (Inr None)
      | Some (Inr (Some b, p)) \<Rightarrow>
          if p \<ge> int (length data) then Some (Inr (Some (protocols @ [b])))
          else f U C data p (protocols @ [b])) = Some r"
    show "\<forall>bs. r = Inr (Some bs) \<longrightarrow> (\<forall>b \<in> set protocols. unverified C b) \<longrightarrow> (\<forall>b \<in> set bs. unverified C b)"
      using eq by (auto split: option.splits sum.splits prod.splits if_splits dest!: IH dest: parsed_unverified)
  qed
  then show ?thesis using assms(2,3) by blast
qed

lemma take_blocks_set: "b \<in> set (put_out (fst (take_blocks l e bs))) \<Longrightarrow> b \<in> set bs"
  by (induction bs arbitrary: e) (auto simp: case_prod_unfold split: if_splits)

lemma receive_step_unverified:
  assumes "b \<in> set (put_out (sent (receive_step w l e ev)))"
  shows "unverified (w_crypto w) b"
proof -
  have ok: "\<forall>b \<in> set bs. unverified (w_crypto w) b"
    if "byteArrayToBlockArray (w_util w) (w_crypto w) data = Some (Inr (Some bs))" for data bs
    using that by (auto simp: byteArrayToBlockArray_def dest: blocks_loop_unverified)
  obtain data bs where "byteArrayToBlockArray (w_util w) (w_crypto w) data = Some (Inr (Some bs))"
    and "b \<in> set (put_out (fst (take_blocks l e bs)))"
    using assms by (auto simp: receive_step_def Let_def case_prod_unfold
        split: read_event.splits if_splits option.splits sum.splits)
  then show ?thesis using ok take_blocks_set by blast
qed

lemma receive_unverified: "b \<in> set (put_out (fst (react (receive_step w l) e evs))) \<Longrightarrow> unverified (w_crypto w) b"
proof (induction evs arbitrary: e)
  case (Cons ev evs)
  then show ?case using receive_step_unverified [of b w l e ev]
    by (cases "receive_step w l e ev") (auto simp: case_prod_unfold)
qed simp

section \<open>Properties\<close>

text \<open>C23: The provider never stores a block: whatever its source sends, its goroutine keeps reading and its
  store stays as it was, because no builder ever enters the map of blocks to be committed.\<close>

theorem provider_stores_nothing:
  assumes "list_all is_data reads"
  shows "\<exists>s. BlockProviderNode P V True True reads store = (Serving, [], Running s) \<and> p_store s = store"
proof -
  let ?s = "\<lparr>p_notCommit = Map.empty, p_block = None, p_store = store\<rparr>"
  have i: "provider_idle store ?s" by (simp add: provider_idle_def)
  obtain s os where r: "react (provider_step P V) ?s reads = (os, Running s)" "provider_idle store s"
    using provider.react_runs [OF i assms] by blast
  with provider.react_good [OF i assms, of P V] have "os = []" by (cases os) auto
  with r show ?thesis by (simp add: BlockProviderNode_def provider_idle_def)
qed

definition demo_provider :: provider_env where
  "demo_provider = \<lparr>pe_wire = demo_wire, pe_credentials = [1, 1]\<rparr>"

text \<open>A whole block, from its announcement to its commit.\<close>

theorem provider_stores_nothing_witness:
  "\<exists>s. BlockProviderNode demo_store demo_provider True True
     [Read (NewBlockSocial demo_util demo_msg 1), Read (ActionSocial demo_msg [1, 0, 7]),
      Read (SealBlockSocial demo_util demo_msg 1 [5, 5]), Read (CommitBlockSocial demo_util demo_msg 1 [])]
     (NewBlockStore demo_store (replicate 64 0)) = (Serving, [], Running s) \<and> st_blocks (p_store s) = []"
proof -
  let ?reads = "[Read (NewBlockSocial demo_util demo_msg 1), Read (ActionSocial demo_msg [1, 0, 7]),
      Read (SealBlockSocial demo_util demo_msg 1 [5, 5]), Read (CommitBlockSocial demo_util demo_msg 1 [])]"
  have "list_all is_data ?reads" by (simp add: is_data_def)
  from provider_stores_nothing [OF this, of demo_store demo_provider "NewBlockStore demo_store (replicate 64 0)"]
  show ?thesis by (metis NewBlockStore_def block_store.select_convs(3))
qed

text \<open>C24: What is transmitted from a store that was built by adding blocks: after the last epoch, one message
  per block, from the block at the requested index to the end, and an empty message; the first block
  added, whose index is 0, is never transmitted, as 0 is replaced by 1, and a request past the end is
  answered with eight zero bytes.\<close>

theorem transmit_spec:
  assumes "u64_codec U" and "store_is_bytes P content" and "content st = replicate cap 0"
    and "list_all (\<lambda>d. d \<noteq> [] \<and> 8 + length d \<le> cap) ds" and "ds \<noteq> []" and "int (length ds) < 2 ^ 62" and "int n < 2 ^ 62"
    and "\<forall>k. sends_ok k"
  shows "\<exists>s. add_blocks U P ds (NewBlockStore P st) = Inr s \<and>
    TransmitBlocks U P s sends_ok (Some (Read (PutUint64 U (of_nat n) []))) =
      Some (Inr (Transmitted (Send (PutUint64 U (of_nat (length ds)) []) #
        (if n \<le> length ds then map Send (drop (max 1 n) ds) @ [Send [], Shutdown]
         else [Send (replicate 8 0), Shutdown]))))"
proof -
  have fits: "list_all (\<lambda>d. 8 + length d \<le> cap) ds" and ne: "\<forall>d \<in> set ds. d \<noteq> []"
    using assms(4) by (auto simp: list_all_iff)
  obtain s where s: "add_blocks U P ds (NewBlockStore P st) = Inr s" "st_Epoch s = of_nat (length ds)"
    "\<And>k. st_GetBlock P s (int k) = Inr (if k < length ds then Some (ds ! k) else None)"
    using added_blocks [OF assms(1-3) fits] by blast
  have start: "fst (ParseUint64 U (PutUint64 U (of_nat n) []) 0) = of_nat n" by (rule parse_put_u64 [OF assms(1)])
  have le: "(of_nat n :: u64) \<le> of_nat (length ds) \<longleftrightarrow> n \<le> length ds"
    using assms(6,7) by (intro u64_of_nat_le) simp_all
  have un: "unat (of_nat n :: u64) = n" using assms(7) by (intro unat_u64_of_nat) simp
  have zero: "(of_nat n :: u64) = 0 \<longleftrightarrow> n = 0"
    by (metis un unat_eq_zero of_nat_0)
  show ?thesis
  proof (cases "n \<le> length ds")
    case True
    have m: "(if (of_nat n :: u64) = 0 then 1 else of_nat n) = (of_nat (max 1 n) :: u64)"
      using zero by (cases n) (simp_all add: max_def)
    have "max 1 n \<le> length ds" using True assms(5) by (cases ds) auto
    from transmit_loop_sends [OF s(3) ne assms(8,6) this]
    have "transmit_loop P s sends_ok (of_nat (max 1 n)) (of_nat (length ds)) [] [Send (PutUint64 U (of_nat (length ds)) [])] =
      Some (Inr ([Send (PutUint64 U (of_nat (length ds)) [])] @ map Send (drop (max 1 n) ds) @ [Send [], Shutdown]))" .
    with s(1,2) start le True m assms(8) show ?thesis
      by (simp add: TransmitBlocks_def Let_def not_less del: of_nat_max)
  next
    case False
    with s(1,2) start le assms(8) show ?thesis by (simp add: TransmitBlocks_def not_le)
  qed
qed

theorem transmit_spec_witness:
  "\<exists>s. add_blocks demo_util demo_store [[1], [2], [3]] (NewBlockStore demo_store (replicate 27 0)) = Inr s \<and>
     TransmitBlocks demo_util demo_store s (\<lambda>k. True) (Some (Read (PutUint64 demo_util 0 []))) =
       Some (Inr (Transmitted [Send (PutUint64 demo_util 3 []), Send [2], Send [3], Send [], Shutdown]))"
proof -
  have f: "list_all (\<lambda>d. d \<noteq> [] \<and> 8 + length d \<le> 27) [[1], [2], [3 :: byte]]" by simp
  have k: "\<forall>k. (\<lambda>k. True) k" by simp
  from transmit_spec [OF demo_u64_codec demo_store_is_bytes refl f _ _ _ k, of 0] show ?thesis by simp
qed

text \<open>C25: What a receiver does. Whatever it reads: the blocks it puts out have the epoch it asks for,
  then the following ones up to the provider's last epoch and then that one again and again, each
  of them has a signature that its publisher does not verify, and it sends nothing. And on a
  connection with a transmitter of this repository, whatever its store: after any number of
  exchanges the transmitter has sent its last epoch and waits for a request, and the receiver
  has put out no block: it waits for blocks, or, when it was told an epoch before the one it
  wants, has returned without closing the connection.\<close>

theorem receive_spec:
  assumes "u64_codec (w_util w)" and "epoch \<noteq> 0"
  shows "(\<forall>reads lastEpoch os r. ReceiveBlocks w dialed epoch reads = Received lastEpoch os r \<longrightarrow>
      list_all silent os \<and> (\<forall>n < length (put_out os).
        unat (pb_Epoch (put_out os ! n)) = min (unat epoch + n) (unat lastEpoch) \<and>
        \<not> Verify (w_crypto w) (pb_Publisher (put_out os ! n)) (pb_Hash (put_out os ! n)) (pb_Siganture (put_out os ! n)))) \<and>
    (\<forall>n. transfer w P store epoch n =
      (Some (Inr (Waiting [Send (PutUint64 (w_util w) (st_Epoch store) [])])),
       if st_Epoch store < epoch then Received (st_Epoch store) [Output None] Returned
       else Received (st_Epoch store) [] (Running epoch)))"
proof -
  have "list_all silent os \<and> (\<forall>n < length (put_out os).
      unat (pb_Epoch (put_out os ! n)) = min (unat epoch + n) (unat lastEpoch) \<and> unverified (w_crypto w) (put_out os ! n))"
    if rx: "ReceiveBlocks w dialed epoch reads = Received lastEpoch os r" for reads lastEpoch os r
  proof -
    consider "os = [Output None]"
      | evs where "os = fst (react (receive_step w lastEpoch) epoch evs)" "epoch \<le> lastEpoch"
      using rx by (auto simp: ReceiveBlocks_def Let_def not_less case_prod_unfold split: if_splits list.splits read_event.splits)
    then show ?thesis
    proof cases
      case (2 evs)
      then show ?thesis
        using receive.react_good [OF TrueI, of evs w lastEpoch epoch]
          in_sequence_nth [OF receive_sequence, of epoch lastEpoch] receive_unverified [of _ w lastEpoch epoch evs]
        by (simp add: list_all_iff)
    qed simp
  qed
  moreover have "\<forall>n. transfer w P store epoch n = exchange w P store epoch None"
    using transfer_waits [OF assms] by blast
  ultimately show ?thesis by (simp add: exchange_none [OF assms] unverified_def)
qed

text \<open>A wire under which the parser gives a block.\<close>

definition null_wire :: wire where
  "null_wire = demo_wire\<lparr>w_util := demo_util\<lparr>ParseSignature := demo_fixed 6\<rparr>, w_crypto := null_crypto\<rparr>"

text \<open>The bytes of a block whose epoch is one byte and in which everything else is empty.\<close>

definition null_data :: "byte \<Rightarrow> bytes" where
  "null_data k = k # replicate 21 0"

lemma length_null_data [simp]: "length (null_data k) = 22"
  by (simp add: null_data_def)

lemma le_value_zeros: "le_value (replicate n 0) = 0"
  by (induction n) simp_all

lemma null_epoch: "ParseUint64 (w_util null_wire) (null_data k) 0 = (word_of_nat (unat k), 8)"
proof -
  have "demo_get 8 (null_data k) 0 = unat k"
    by (simp add: demo_get_def null_data_def take_Cons' take_replicate le_value_zeros)
  then show ?thesis by (simp add: null_wire_def demo_util_def)
qed

lemma null_actions:
  "parse_actions (w_util null_wire) (slice_of (null_data k)) 8 [] = Some ([], \<lparr>visible = [], spare = replicate 12 0\<rparr>, 10)"
proof -
  have "demo_get 2 (null_data k) 8 = 0"
    by (simp add: demo_get_def null_data_def drop_Cons' take_replicate le_value_zeros)
  then have "ParseByteArray (w_util null_wire) (slice_of (null_data k)) 8 = demo_slice (slice_of (null_data k)) 10 0"
    by (simp add: null_wire_def demo_util_def slice_of_def)
  also have "\<dots> = (\<lparr>visible = [], spare = replicate 12 0\<rparr>, 10)"
    by (simp add: demo_slice_def slice_of_def null_data_def drop_Cons')
  finally show ?thesis by (subst parse_actions.simps) simp
qed

lemma null_array:
  "\<exists>b. byteArrayToBlockArray (w_util null_wire) null_crypto (null_data k) = Some (Inr (Some [b])) \<and> pb_Epoch b = word_of_nat (unat k)"
proof -
  have tail: "ParseHashArray (w_util null_wire) [] 10 = ([], 12)" "ParseHash (w_util null_wire) [] 12 = ([], 14)"
    "ParseToken (w_util null_wire) [] 14 = ([], 16)" "ParseSignature (w_util null_wire) [] 16 = ([], 22)"
    by (simp_all add: null_wire_def demo_wire_def demo_util_def demo_get_def demo_fixed_def)
  obtain b where "ParseProtocolBlockWithPosition (w_util null_wire) null_crypto (slice_of (null_data k)) 0 = Some (Inr (Some b, 22))"
    and "pb_Epoch b = word_of_nat (unat k)"
    by (simp add: ParseProtocolBlockWithPosition_def null_epoch null_actions tail slice_to_def null_crypto_def)
  then show ?thesis
    unfolding byteArrayToBlockArray_def by (subst blocks_loop.simps) simp
qed

text \<open>A receiver that is given a block, and one that is connected to a transmitter with three blocks.\<close>

theorem receive_spec_witness:
  "\<exists>b. ReceiveBlocks null_wire True 1 [Read (null_data 1), Read (null_data 1), ReadError] =
      Received 1 [Output (Some b), Output None, RxConn Shutdown] Returned \<and>
    unat (pb_Epoch b) = 1 \<and> \<not> Verify null_crypto (pb_Publisher b) (pb_Hash b) (pb_Siganture b) \<and>
    transfer null_wire demo_store ((NewBlockStore demo_store (replicate 27 0))\<lparr>st_Epoch := 3\<rparr>) 1 5 =
      (Some (Inr (Waiting [Send (PutUint64 (w_util null_wire) 3 [])])), Received 3 [] (Running 1))"
proof -
  obtain b where b: "byteArrayToBlockArray (w_util null_wire) null_crypto (null_data 1) = Some (Inr (Some [b]))"
    and e: "pb_Epoch b = 1" using null_array [of 1] by auto
  note b
  moreover have "fst (ParseUint64 (w_util null_wire) (null_data 1) 0) = 1" by (simp add: null_epoch)
  ultimately have "ReceiveBlocks null_wire True 1 [Read (null_data 1), Read (null_data 1), ReadError] =
      Received 1 [Output (Some b), Output None, RxConn Shutdown] Returned"
    by (simp add: ReceiveBlocks_def receive_step_def null_wire_def e Let_def)
  moreover have u: "u64_codec (w_util null_wire)"
    using demo_u64_codec by (simp add: u64_codec_def null_wire_def)
  moreover have "(1 :: u64) \<noteq> 0" by simp
  note rs = receive_spec [OF u this, of True demo_store "(NewBlockStore demo_store (replicate 27 0))\<lparr>st_Epoch := 3\<rparr>"]
  ultimately have "\<not> Verify null_crypto (pb_Publisher b) (pb_Hash b) (pb_Siganture b)"
    using rs [THEN conjunct1, rule_format] by (fastforce simp: null_wire_def)
  moreover note \<open>ReceiveBlocks null_wire True 1 _ = _\<close> rs [THEN conjunct2, rule_format, of 5]
  ultimately show ?thesis using e by (intro exI [where x = b]) simp
qed

end
