(* ===== verification/Sorter.thy ===== *)
theory Sorter
  imports Provider Listener
begin

text \<open>
  \<open>topos/sync.go\<close>: \<open>BlockSorter\<close>, which is to put blocks in order of their epochs, and
  \<open>SyncSocial\<close>, which feeds a store with the old blocks of a provider and the new ones of a node.
\<close>

section \<open>The sorter\<close>

record block_sorter =
  so_incomplete :: "protocol_block list"
  so_last :: u64

text \<open>What is sent on the channel \<open>sequence\<close>.\<close>

type_synonym sequence = "protocol_block option list"

definition NewBlockSorter :: "u64 \<Rightarrow> block_sorter" where
  "NewBlockSorter epoch = \<lparr>so_incomplete = [], so_last = epoch\<rparr>"

definition so_Epoch :: "block_sorter \<Rightarrow> u64" where
  "so_Epoch b = so_last b"

text \<open>The loop over the blocks kept: the block goes before the first one with a smaller epoch.\<close>

fun so_insert :: "protocol_block \<Rightarrow> protocol_block list \<Rightarrow> protocol_block list" where
  "so_insert block [] = [block]"
| "so_insert block (b # rest) =
     (if pb_Epoch block = pb_Epoch b then b # rest
      else if pb_Epoch b < pb_Epoch block then block # b # rest
      else b # so_insert block rest)"

definition so_AddBlock :: "protocol_block option \<Rightarrow> block_sorter \<Rightarrow> sequence \<times> block_sorter" where
  "so_AddBlock blk s =
     (case blk of
        None \<Rightarrow> ([None], s)
      | Some block \<Rightarrow>
          if pb_Epoch block \<le> so_last s then ([], s)
          else if pb_Epoch block = so_last s + 1 then ([Some block], s)
          else ([], s\<lparr>so_incomplete := so_insert block (so_incomplete s)\<rparr>))"

fun so_run :: "protocol_block option list \<Rightarrow> block_sorter \<Rightarrow> sequence \<times> block_sorter" where
  "so_run [] s = ([], s)"
| "so_run (b # rest) s =
     (case so_AddBlock b s of (os, s1) \<Rightarrow> (case so_run rest s1 of (os', s2) \<Rightarrow> (os @ os', s2)))"

text \<open>Kept: blocks past the next epoch, strictly descending.\<close>

definition sorter_inv :: "u64 \<Rightarrow> block_sorter \<Rightarrow> bool" where
  "sorter_inv l s \<longleftrightarrow> so_last s = l \<and> sorted_wrt (>) (map pb_Epoch (so_incomplete s)) \<and>
     (\<forall>b \<in> set (so_incomplete s). pb_Epoch b > l \<and> pb_Epoch b \<noteq> l + 1)"

lemma set_so_insert: "set (so_insert block bs) \<subseteq> insert block (set bs)"
  by (induction bs) auto

lemma epochs_so_insert: "pb_Epoch ` set (so_insert block bs) = insert (pb_Epoch block) (pb_Epoch ` set bs)"
  by (induction bs) auto

lemma sorted_so_insert:
  "sorted_wrt (>) (map pb_Epoch bs) \<Longrightarrow> sorted_wrt (>) (map pb_Epoch (so_insert block bs))"
proof (induction bs)
  case (Cons b bs)
  then show ?case using set_so_insert [of block bs] by fastforce
qed simp

text \<open>What the sorter lets through: nil, and blocks of the next epoch.\<close>

definition passes :: "u64 \<Rightarrow> protocol_block option \<Rightarrow> bool" where
  "passes l blk \<longleftrightarrow> (case blk of None \<Rightarrow> True | Some b \<Rightarrow> pb_Epoch b = l + 1 \<and> pb_Epoch b > l)"

lemma sorter_inv_Add:
  assumes "sorter_inv l s" and "so_AddBlock blk s = (os, s')"
  shows "sorter_inv l s' \<and> os = (if passes l blk then [blk] else []) \<and>
    pb_Epoch ` set (so_incomplete s') = pb_Epoch ` set (so_incomplete s) \<union>
      {e. \<exists>b. blk = Some b \<and> e = pb_Epoch b \<and> e > l \<and> e \<noteq> l + 1}"
proof (cases blk)
  case None
  with assms show ?thesis by (auto simp: so_AddBlock_def passes_def)
next
  case (Some block)
  show ?thesis
  proof (cases "pb_Epoch block \<le> l \<or> pb_Epoch block = l + 1")
    case True
    with assms Some show ?thesis by (auto simp: so_AddBlock_def sorter_inv_def passes_def split: if_splits)
  next
    case False
    with assms Some have "s' = s\<lparr>so_incomplete := so_insert block (so_incomplete s)\<rparr>" "os = []"
      by (auto simp: so_AddBlock_def sorter_inv_def)
    with assms(1) Some False set_so_insert [of block "so_incomplete s"] show ?thesis
      by (auto simp: sorter_inv_def sorted_so_insert epochs_so_insert passes_def not_le)
  qed
qed

lemma so_run_inv:
  "sorter_inv l s \<Longrightarrow> sorter_inv l (snd (so_run bs s)) \<and> fst (so_run bs s) = filter (passes l) bs \<and>
    pb_Epoch ` set (so_incomplete (snd (so_run bs s))) = pb_Epoch ` set (so_incomplete s) \<union>
      {e. \<exists>b. Some b \<in> set bs \<and> e = pb_Epoch b \<and> e > l \<and> e \<noteq> l + 1}"
proof (induction bs arbitrary: s)
  case Nil
  then show ?case by simp
next
  case (Cons blk bs)
  obtain os s1 where a: "so_AddBlock blk s = (os, s1)" by fastforce
  note A = sorter_inv_Add [OF Cons.prems a]
  have r: "so_run (blk # bs) s = (os @ fst (so_run bs s1), snd (so_run bs s1))"
    by (simp add: a case_prod_unfold)
  show ?case unfolding r using A Cons.IH [of s1] by (auto simp del: so_run.simps)
qed

section \<open>SyncSocial\<close>

text \<open>A receive of the \<open>select\<close>: from the old blocks or from the new ones; \<open>None\<close> is nil.\<close>

datatype sync_in = OldBlock "protocol_block option" | NewBlock "protocol_block option"

datatype sync_out = AddToStore "protocol_block option" | Interrupted

record sync_state =
  sy_live :: bool
  sy_finishedOld :: bool

definition sync_step :: "sync_state \<Rightarrow> sync_in \<Rightarrow> (sync_state, sync_out) reaction" where
  "sync_step s ev =
     (case ev of
        OldBlock (Some b) \<Rightarrow> Continue s [AddToStore (Some b)]
      | OldBlock None \<Rightarrow>
          (let s' = s\<lparr>sy_finishedOld := True\<rparr> in if \<not> sy_live s' then Return [] else Continue s' [])
      | NewBlock None \<Rightarrow>
          (let s' = s\<lparr>sy_live := False\<rparr>
           in if sy_finishedOld s' then Return [Interrupted] else Continue s' [AddToStore None])
      | NewBlock (Some b) \<Rightarrow> Continue s [])"

text \<open>
  The function: the store's next epoch is asked for, and the listener of new blocks starts at
  the provider's last epoch, with the provider's own address. \<open>events\<close> are the receives of the
  loop in their order.
\<close>

datatype sync_social =
    SyncFailed
  | SyncWaiting  \<comment> \<open>\<open>ReceiveBlocks\<close> has not returned\<close>
  | Syncing u64 "sync_out list" "sync_state outcome"  \<comment> \<open>with the epoch the listener asks for\<close>

definition SyncSocial :: "wire \<Rightarrow> bool \<Rightarrow> u64 \<Rightarrow> read_event list \<Rightarrow> sync_in list \<Rightarrow> sync_social" where
  "SyncSocial w dialed storeEpoch reads events =
     (case ReceiveBlocks w dialed (storeEpoch + 1) reads of
        ReceiveError \<Rightarrow> SyncFailed
      | ReceiveWaiting \<Rightarrow> SyncWaiting
      | Received lastEpoch os r \<Rightarrow>
          (case react sync_step \<lparr>sy_live = True, sy_finishedOld = False\<rparr> events of
             (outs, e) \<Rightarrow> Syncing lastEpoch outs e))"

fun added :: "sync_out list \<Rightarrow> protocol_block option list" where
  "added [] = []"
| "added (AddToStore b # os) = b # added os"
| "added (Interrupted # os) = added os"

fun old_blocks :: "sync_in list \<Rightarrow> protocol_block list" where
  "old_blocks [] = []"
| "old_blocks (OldBlock (Some b) # evs) = b # old_blocks evs"
| "old_blocks (_ # evs) = old_blocks evs"

lemma added_append [simp]: "added (xs @ ys) = added xs @ added ys"
  by (induction xs rule: added.induct) auto

text \<open>The blocks that reach the store, without the nils.\<close>

definition stored_blocks :: "sync_out list \<Rightarrow> protocol_block list" where
  "stored_blocks os = concat (map (\<lambda>x. case x of None \<Rightarrow> [] | Some b \<Rightarrow> [b]) (added os))"

lemma sync_step_simps [simp]:
  "sync_step s (OldBlock (Some b)) = Continue s [AddToStore (Some b)]"
  "sync_step s (NewBlock (Some b)) = Continue s []"
  "sync_step s (OldBlock None) = (if sy_live s then Continue (s\<lparr>sy_finishedOld := True\<rparr>) [] else Return [])"
  "sync_step s (NewBlock None) =
     (if sy_finishedOld s then Return [Interrupted] else Continue (s\<lparr>sy_live := False\<rparr>) [AddToStore None])"
  by (simp_all add: sync_step_def Let_def)

lemma sync_prefix:
  "\<exists>n. stored_blocks (fst (react sync_step s evs)) = take n (old_blocks evs)"
proof (induction evs arbitrary: s)
  case Nil
  then show ?case by (simp add: stored_blocks_def)
next
  case (Cons ev evs)
  have later: "\<exists>n. stored_blocks (fst (react sync_step s' evs)) = take n (old_blocks evs)" for s'
    by (rule Cons.IH)
  consider b where "ev = OldBlock (Some b)" | "ev = OldBlock None" | b where "ev = NewBlock (Some b)" | "ev = NewBlock None"
    by (metis option.exhaust sync_in.exhaust)
  then show ?case
  proof cases
    case (1 b)
    obtain n where "stored_blocks (fst (react sync_step s evs)) = take n (old_blocks evs)" using later by blast
    with 1 show ?thesis
      by (intro exI [where x = "Suc n"]) (simp add: stored_blocks_def case_prod_unfold)
  next
    case 2
    show ?thesis
    proof (cases "sy_live s")
      case True
      with 2 later [of "s\<lparr>sy_finishedOld := True\<rparr>"] show ?thesis
        by (auto simp: stored_blocks_def case_prod_unfold Let_def)
    next
      case False
      with 2 show ?thesis
        by (intro exI [where x = 0]) (simp add: stored_blocks_def Let_def)
    qed
  next
    case (3 b)
    with later [of s] show ?thesis by (auto simp: stored_blocks_def case_prod_unfold)
  next
    case 4
    show ?thesis
    proof (cases "sy_finishedOld s")
      case False
      with 4 later [of "s\<lparr>sy_live := False\<rparr>"] show ?thesis
        by (auto simp: stored_blocks_def case_prod_unfold Let_def)
    next
      case True
      with 4 show ?thesis
        by (intro exI [where x = 0]) (simp add: stored_blocks_def Let_def)
    qed
  qed
qed

section \<open>Properties\<close>

text \<open>C26: The sorter never gets past its first epoch: whatever is added to it, it sends exactly the nils and the
  blocks of the epoch after the one it was created with, repetitions included, and every later epoch
  that was added stays in its list, strictly descending, for ever.\<close>

theorem sorter_never_advances:
  "so_Epoch (snd (so_run bs (NewBlockSorter l))) = l \<and>
   fst (so_run bs (NewBlockSorter l)) = filter (passes l) bs \<and>
   sorted_wrt (>) (map pb_Epoch (so_incomplete (snd (so_run bs (NewBlockSorter l))))) \<and>
   set (map pb_Epoch (so_incomplete (snd (so_run bs (NewBlockSorter l))))) =
     {e. \<exists>b. Some b \<in> set bs \<and> e = pb_Epoch b \<and> e > l \<and> e \<noteq> l + 1}"
proof -
  have "sorter_inv l (NewBlockSorter l)" by (simp add: sorter_inv_def NewBlockSorter_def)
  from so_run_inv [OF this, of bs] show ?thesis
    by (simp add: sorter_inv_def so_Epoch_def NewBlockSorter_def)
qed

text \<open>While it syncs, the store is given only blocks of the provider, in their order: no block that the
  node delivers as new ever reaches it, whatever the order in which both arrive.\<close>

lemma sync_drops_new_blocks:
  assumes "SyncSocial w dialed storeEpoch reads events = Syncing lastEpoch outs r"
  shows "\<exists>n. stored_blocks outs = take n (old_blocks events)"
proof -
  have "outs = fst (react sync_step \<lparr>sy_live = True, sy_finishedOld = False\<rparr> events)"
    using assms by (auto simp: SyncSocial_def split: received.splits prod.splits)
  then show ?thesis using sync_prefix by simp
qed

lemma sync_drops_new_blocks_example:
  "\<exists>n. stored_blocks [AddToStore (Some (fresh_block demo_crypto 1))] =
     take n (old_blocks [NewBlock (Some (fresh_block demo_crypto 6)), OldBlock (Some (fresh_block demo_crypto 1)), OldBlock None])"
proof -
  have "ReceiveBlocks demo_wire True (0 + 1) [Read (PutUint64 demo_util 5 [])] = Received 5 [] (Running 1)"
    using parse_put_u64 [OF demo_u64_codec, of 5] by (simp add: ReceiveBlocks_def demo_wire_def Let_def)
  then have "SyncSocial demo_wire True 0 [Read (PutUint64 demo_util 5 [])]
      [NewBlock (Some (fresh_block demo_crypto 6)), OldBlock (Some (fresh_block demo_crypto 1)), OldBlock None] =
    Syncing 5 [AddToStore (Some (fresh_block demo_crypto 1))] (Running \<lparr>sy_live = True, sy_finishedOld = True\<rparr>)"
    by (simp add: SyncSocial_def)
  then show ?thesis by (rule sync_drops_new_blocks)
qed

end
