(* ===== verification/Gateway.thy ===== *)
theory Gateway
  imports Ext Machine
begin

text \<open>
  \<open>topos/gateway.go\<close>: the gateway that collects actions from its connections and submits them
  to a node.

  \<open>wait_step\<close> is the goroutine of a connection (\<open>WaitForActions\<close>), \<open>gateway_step\<close> the loop of
  \<open>NewGateway\<close> that receives from all of them. The dresser is a function on actions; for
  the one of the file, the void action of \<open>breeze/protocol/actions\<close> is a parameter.
\<close>

section \<open>The dresser\<close>

record 'v void_ext =
  ActionKind :: "bytes \<Rightarrow> byte"
  IVoid :: byte
  ParseVoid :: "bytes \<Rightarrow> 'v option"
  VoidSetWallet :: "token \<Rightarrow> 'v \<Rightarrow> 'v"
  VoidSetFee :: "u64 \<Rightarrow> 'v \<Rightarrow> 'v"
  VoidSign :: "privkey \<Rightarrow> 'v \<Rightarrow> 'v"
  VoidSerialize :: "'v \<Rightarrow> bytes"

record void_dresser =
  vd_secret :: privkey
  vd_wallet :: token
  vd_fee :: u64

definition NewBreezeVoidDresser :: "crypto \<Rightarrow> privkey \<Rightarrow> u64 \<Rightarrow> void_dresser" where
  "NewBreezeVoidDresser C pk fee = \<lparr>vd_secret = pk, vd_wallet = PublicKey C pk, vd_fee = fee\<rparr>"

definition vd_SetFee :: "u64 \<Rightarrow> void_dresser \<Rightarrow> void_dresser" where
  "vd_SetFee fee b = b\<lparr>vd_fee := fee\<rparr>"

definition vd_Dress :: "'v void_ext \<Rightarrow> void_dresser \<Rightarrow> bytes \<Rightarrow> bytes" where
  "vd_Dress X b data =
     (if ActionKind X data = IVoid X then
        (case ParseVoid X data of
           None \<Rightarrow> data
         | Some void \<Rightarrow> VoidSerialize X (VoidSign X (vd_secret b) (VoidSetFee X (vd_fee b) (VoidSetWallet X (vd_wallet b) void))))
      else data)"

section \<open>Connections\<close>

text \<open>What the loop receives: a \<open>GatewayConnection\<close> with its token and whether it is live, or an action.\<close>

datatype gateway_in = Connection token bool | ActionIn bytes

datatype wait_out = ToGateway gateway_in | WaitConn conn_event

definition wait_step :: "chainmsg \<Rightarrow> token \<Rightarrow> unit \<Rightarrow> read_event \<Rightarrow> (unit, wait_out) reaction" where
  "wait_step M t s ev =
     (case ev of
        ReadError \<Rightarrow> Return [WaitConn Shutdown, ToGateway (Connection t False)]
      | Read data \<Rightarrow>
          if length data < 2 \<or> data ! 0 \<noteq> MsgActionSubmit M
          then Return [WaitConn Shutdown, ToGateway (Connection t False)]
          else Continue s [ToGateway (ActionIn (drop 1 data))])"

definition WaitForActions :: "chainmsg \<Rightarrow> token \<Rightarrow> read_event list \<Rightarrow> wait_out list \<times> unit outcome" where
  "WaitForActions M t reads = react (wait_step M t) () reads"

section \<open>The loop\<close>

text \<open>\<open>g_live\<close> are the tokens of the map of live connections, in the order a \<open>range\<close> visits them.\<close>

record gateway =
  g_live :: "token list"
  g_shutdown :: bool

datatype gateway_out =
    FinalizeNil
  | ShutdownConn token
  | ToNode bytes
  | FinalizeErr

record gateway_env =
  ge_msg :: chainmsg
  ge_dresser :: "(bytes \<Rightarrow> bytes) option"

definition submitted :: "gateway_env \<Rightarrow> bytes \<Rightarrow> bytes" where
  "submitted G data = MsgActionSubmit (ge_msg G) # (case ge_dresser G of None \<Rightarrow> data | Some dress \<Rightarrow> dress data)"

definition gateway_step :: "gateway_env \<Rightarrow> gateway \<Rightarrow> gateway_in \<Rightarrow> (gateway, gateway_out) reaction" where
  "gateway_step G s ev =
     (case ev of
        Connection t live \<Rightarrow>
          (let s' = (if live then s\<lparr>g_live := (if t \<in> set (g_live s) then g_live s else g_live s @ [t])\<rparr>
                     else s\<lparr>g_live := filter (\<lambda>u. u \<noteq> t) (g_live s)\<rparr>)
           in if g_shutdown s' \<and> length (g_live s') = 0 then Return [FinalizeNil] else Continue s' [])
      | ActionIn data \<Rightarrow>
          (if length data = 0
           then Continue (s\<lparr>g_shutdown := True\<rparr>) (map ShutdownConn (g_live s) @ [ToNode (submitted G data)])
           else Continue s [ToNode (submitted G data)]))"

definition NewGateway :: "gateway_env \<Rightarrow> bool \<Rightarrow> bool \<Rightarrow> gateway_in list \<Rightarrow> gateway_out list \<times> gateway outcome" where
  "NewGateway G listening dialed events =
     (if \<not> listening \<or> \<not> dialed then ([FinalizeErr], Returned)
      else react (gateway_step G) \<lparr>g_live = [], g_shutdown = False\<rparr> events)"

section \<open>What the connections send\<close>

fun to_gateway :: "wait_out list \<Rightarrow> gateway_in list" where
  "to_gateway [] = []"
| "to_gateway (ToGateway e # os) = e # to_gateway os"
| "to_gateway (WaitConn c # os) = to_gateway os"

text \<open>Never an empty action, never a live connection.\<close>

fun from_connection :: "gateway_in \<Rightarrow> bool" where
  "from_connection (Connection t live) \<longleftrightarrow> \<not> live"
| "from_connection (ActionIn data) \<longleftrightarrow> data \<noteq> []"

fun sends_from_connection :: "wait_out \<Rightarrow> bool" where
  "sends_from_connection (ToGateway e) \<longleftrightarrow> from_connection e"
| "sends_from_connection (WaitConn c) \<longleftrightarrow> True"

interpretation wait: message_loop "wait_step M t" "\<lambda>_. True" "\<lambda>_. True" sends_from_connection for M t
  by unfold_locales (auto simp: wait_step_def split: read_event.splits if_splits)

lemma to_gateway_from: "list_all sends_from_connection os \<Longrightarrow> list_all from_connection (to_gateway os)"
  by (induction os rule: to_gateway.induct) auto

lemma connection_events: "e \<in> set (to_gateway (fst (WaitForActions M t reads))) \<Longrightarrow> from_connection e"
  using to_gateway_from [OF wait.react_good [where s = "()" and es = reads and M = M and t = t]]
  by (auto simp: WaitForActions_def list_all_iff)

definition gateway_idle :: "gateway \<Rightarrow> bool" where
  "gateway_idle s \<longleftrightarrow> g_live s = [] \<and> \<not> g_shutdown s"

fun is_submission :: "gateway_env \<Rightarrow> gateway_out \<Rightarrow> bool" where
  "is_submission G (ToNode d) \<longleftrightarrow> d \<noteq> [] \<and> hd d = MsgActionSubmit (ge_msg G)"
| "is_submission G _ \<longleftrightarrow> False"

lemma gateway_step_idle:
  "gateway_idle s \<Longrightarrow> from_connection e \<Longrightarrow>
     gateway_step G s e = Continue s (case e of ActionIn data \<Rightarrow> [ToNode (submitted G data)] | _ \<Rightarrow> [])"
  by (cases s) (auto simp: gateway_step_def gateway_idle_def Let_def split: gateway_in.splits)

interpretation gateway: running_loop "gateway_step G" gateway_idle from_connection "is_submission G" for G
  by unfold_locales (auto simp: gateway_step_idle submitted_def split: gateway_in.splits)

lemma gateway_forwards_all:
  "gateway_idle s \<Longrightarrow> list_all from_connection events \<Longrightarrow>
     react (gateway_step G) s events =
       (concat (map (\<lambda>e. case e of ActionIn data \<Rightarrow> [ToNode (submitted G data)] | _ \<Rightarrow> []) events), Running s)"
  by (induction events) (simp_all add: gateway_step_idle)

section \<open>Properties\<close>

text \<open>C28: Whatever its connections send, in whatever order it receives it, the gateway submits to the node
  exactly the actions of the valid messages, dressed, in the order received, and goes on for ever; its
  map of live connections stays empty, and it never shuts down.\<close>

theorem gateway_submits_all:
  assumes "\<forall>e \<in> set events. \<exists>t reads. e \<in> set (to_gateway (fst (WaitForActions (ge_msg G) t reads)))"
  shows "NewGateway G True True events =
    (concat (map (\<lambda>e. case e of ActionIn data \<Rightarrow> [ToNode (submitted G data)] | _ \<Rightarrow> []) events),
     Running \<lparr>g_live = [], g_shutdown = False\<rparr>)"
proof -
  have "list_all from_connection events" using assms connection_events by (fastforce simp: list_all_iff)
  then show ?thesis using gateway_forwards_all [of "\<lparr>g_live = [], g_shutdown = False\<rparr>"]
    by (simp add: NewGateway_def gateway_idle_def)
qed

theorem gateway_submits_all_witness:
  "NewGateway \<lparr>ge_msg = demo_msg, ge_dresser = Some rev\<rparr> True True [ActionIn [7, 8], Connection [1, 1] False, ActionIn [9]] =
     ([ToNode [3, 8, 7], ToNode [3, 9]], Running \<lparr>g_live = [], g_shutdown = False\<rparr>)"
proof -
  let ?G = "\<lparr>ge_msg = demo_msg, ge_dresser = Some rev\<rparr>"
  have 1: "to_gateway (fst (WaitForActions (ge_msg ?G) [1, 1] [Read [3, 7, 8], ReadError])) = [ActionIn [7, 8], Connection [1, 1] False]"
    by (simp add: WaitForActions_def wait_step_def demo_msg_def)
  have 2: "to_gateway (fst (WaitForActions (ge_msg ?G) [2, 2] [Read [3, 9]])) = [ActionIn [9]]"
    by (simp add: WaitForActions_def wait_step_def demo_msg_def)
  have "\<forall>e \<in> set [ActionIn [7, 8], Connection [1, 1] False, ActionIn [9]].
      \<exists>t reads. e \<in> set (to_gateway (fst (WaitForActions (ge_msg ?G) t reads)))"
    using 1 2 by (metis list.set_intros(1) list.set_intros(2) set_ConsD empty_iff list.set(1))
  from gateway_submits_all [OF this] show ?thesis by (simp add: submitted_def demo_msg_def)
qed

end
