(* ===== verification/Poa.thy ===== *)
theory Poa
  imports Blockchain
begin

text \<open>
  \<open>topos/poa.go\<close>: a single authority that forms the blocks of a protocol. \<open>poa_step\<close> is the
  goroutine that manages connections and forms blocks together with the one that broadcasts: they
  meet on unbuffered channels, one message for each action incorporated and for each tick.
  A sync request starts a goroutine of its own, \<open>go blocks.Sync\<close>, which runs at some later time:
  \<open>poa_syncs\<close> are those started that have not run, and the event \<open>SyncRuns k\<close> is the scheduler's,
  that the \<open>k\<close>-th of them runs. A panic in any goroutine ends the process.
\<close>

record 'x poa =
  poa_state :: 'x
  poa_incoming :: "token set"
  poa_blocks :: recent_blocks
  poa_syncs :: "(token \<times> u64) list"

datatype poa_in =
    EndIncoming token
  | NewIncoming "token option"    \<comment> \<open>\<open>None\<close>: the connection could not be promoted\<close>
  | Proposed bytes
  | Tick
  | NewOutgoing token u64
  | SyncRuns nat

datatype poa_out =
    DropDeadConns
  | BroadcastMsg bytes
  | ListenTo token             \<comment> \<open>\<open>go WaitForProtocolActions\<close>\<close>
  | AddOutgoing token          \<comment> \<open>\<open>pool.Add\<close>\<close>
  | Synced token "conn_event list"

text \<open>The broadcasting goroutine on a new block and on an incorporated action.\<close>

definition on_tick :: "util \<Rightarrow> crypto \<Rightarrow> u64 \<Rightarrow> recent_blocks \<Rightarrow> recent_blocks \<times> poa_out list" where
  "on_tick U C epoch r =
     (let h = mb_Hash C (rb_current r)
      in (rb_NextBlock r, [DropDeadConns, BroadcastMsg (PutHash U h (PutUint64 U epoch [topos_MsgBlock]))]))"

definition on_incorporated :: "bytes \<Rightarrow> poa_out list" where
  "on_incorporated action = [BroadcastMsg ([topos_MsgAction] @ action)]"

definition poa_step ::
  "util \<Rightarrow> crypto \<Rightarrow> 'x protocol_state \<Rightarrow> 'x poa \<Rightarrow> poa_in \<Rightarrow> ('x poa, poa_out) reaction" where
  "poa_step U C S s ev =
     (case ev of
        EndIncoming t \<Rightarrow> Continue (s\<lparr>poa_incoming := poa_incoming s - {t}\<rparr>) []
      | NewIncoming None \<Rightarrow> Crash NilPanic []
      | NewIncoming (Some t) \<Rightarrow> Continue (s\<lparr>poa_incoming := insert t (poa_incoming s)\<rparr>) [ListenTo t]
      | Proposed action \<Rightarrow>
          (case ps_Action S (poa_state s) action of (err, x) \<Rightarrow>
             Continue (s\<lparr>poa_state := x\<rparr>) (if err then on_incorporated action else []))
      | Tick \<Rightarrow>
          (let epoch = ps_Epoch S (poa_state s) + 1; x = snd (ps_NextBlock S (poa_state s) epoch)
           in case on_tick U C epoch (poa_blocks s) of (r, os) \<Rightarrow> Continue (s\<lparr>poa_state := x, poa_blocks := r\<rparr>) os)
      | NewOutgoing t epoch \<Rightarrow> Continue (s\<lparr>poa_syncs := poa_syncs s @ [(t, epoch)]\<rparr>) [AddOutgoing t]
      | SyncRuns k \<Rightarrow>
          if k < length (poa_syncs s) then
            (case poa_syncs s ! k of (t, epoch) \<Rightarrow>
               (case rb_Sync U C (poa_blocks s) epoch of
                  (evs, Some h) \<Rightarrow> Crash h [Synced t evs]
                | (evs, None) \<Rightarrow>
                    Continue (s\<lparr>poa_syncs := take k (poa_syncs s) @ drop (Suc k) (poa_syncs s)\<rparr>) [Synced t evs]))
          else Continue s [])"

definition NewSingleAuthority ::
  "util \<Rightarrow> crypto \<Rightarrow> 'x protocol_state \<Rightarrow> int \<Rightarrow> 'x \<Rightarrow> bool \<Rightarrow> bool \<Rightarrow> poa_in list \<Rightarrow> poa_out list \<times> 'x poa outcome" where
  "NewSingleAuthority U C S keep x incoming outgoing events =
     (if \<not> incoming \<or> \<not> outgoing then ([], Returned)
      else react (poa_step U C S)
        \<lparr>poa_state = x, poa_incoming = {}, poa_blocks = NewRecentBlocks keep (ps_Epoch S x),
         poa_syncs = []\<rparr> events)"

text \<open>\<open>WaitForOutgoingSyncRequest\<close> and \<open>WaitForProtocolActions\<close> of the file.\<close>

definition poa_WaitForOutgoingSyncRequest :: "util \<Rightarrow> read_event \<Rightarrow> conn_event list + u64" where
  "poa_WaitForOutgoingSyncRequest U ev =
     (case ev of
        ReadError \<Rightarrow> Inl [Shutdown]
      | Read data \<Rightarrow>
          if length data \<noteq> 9 \<or> hd data \<noteq> topos_MsgSyncRequest then Inl [Shutdown]
          else Inr (fst (ParseUint64 U data 1)))"

datatype protocol_wait = TerminateConn | SubmitAction bytes | ProtoConn conn_event

definition protocol_wait_step :: "unit \<Rightarrow> read_event \<Rightarrow> (unit, protocol_wait) reaction" where
  "protocol_wait_step s ev =
     (case ev of
        ReadError \<Rightarrow> Return [ProtoConn Shutdown, TerminateConn]
      | Read data \<Rightarrow>
          if length data < 2 \<or> data ! 0 \<noteq> topos_MsgActionSubmit then Return [ProtoConn Shutdown, TerminateConn]
          else Continue s [SubmitAction (drop 1 data)])"

definition WaitForProtocolActions :: "read_event list \<Rightarrow> protocol_wait list \<times> unit outcome" where
  "WaitForProtocolActions reads = react protocol_wait_step () reads"

section \<open>What is broadcast\<close>

text \<open>The broadcasts of a run, and what they should be given the answers of the protocol state.\<close>

fun broadcasts :: "poa_out list \<Rightarrow> bytes list" where
  "broadcasts [] = []"
| "broadcasts (BroadcastMsg m # os) = m # broadcasts os"
| "broadcasts (_ # os) = broadcasts os"

lemma broadcasts_append [simp]: "broadcasts (xs @ ys) = broadcasts xs @ broadcasts ys"
  by (induction xs rule: broadcasts.induct) auto

text \<open>
  \<open>kept\<close> says whether a block is kept for those that sync, \<open>pending\<close> is the number of syncs
  started that have not run. The result is the broadcasts, and the panic that ends the process.
\<close>

fun authority ::
  "util \<Rightarrow> crypto \<Rightarrow> 'x protocol_state \<Rightarrow> int \<Rightarrow> bool \<Rightarrow> nat \<Rightarrow> 'x \<Rightarrow> poa_in list \<Rightarrow> bytes list \<times> halt option" where
  "authority U C S keep kept pending x [] = ([], None)"
| "authority U C S keep kept pending x (Proposed a # evs) =
     (case authority U C S keep kept pending (snd (ps_Action S x a)) evs of
        (ms, h) \<Rightarrow> ((if fst (ps_Action S x a) then [topos_MsgAction # a] else []) @ ms, h))"
| "authority U C S keep kept pending x (Tick # evs) =
     (case authority U C S keep (1 \<le> keep) pending (snd (ps_NextBlock S x (ps_Epoch S x + 1))) evs of
        (ms, h) \<Rightarrow> (PutHash U (Hasher C []) (PutUint64 U (ps_Epoch S x + 1) [topos_MsgBlock]) # ms, h))"
| "authority U C S keep kept pending x (NewOutgoing t e # evs) = authority U C S keep kept (pending + 1) x evs"
| "authority U C S keep kept pending x (SyncRuns k # evs) =
     (if pending \<le> k then authority U C S keep kept pending x evs
      else if kept then authority U C S keep kept (pending - 1) x evs
      else ([], Some IndexPanic))"
| "authority U C S keep kept pending x (NewIncoming None # evs) = ([], Some NilPanic)"
| "authority U C S keep kept pending x (NewIncoming (Some t) # evs) = authority U C S keep kept pending x evs"
| "authority U C S keep kept pending x (EndIncoming t # evs) = authority U C S keep kept pending x evs"

definition empty_blocks :: "'x poa \<Rightarrow> bool" where
  "empty_blocks s \<longleftrightarrow> (\<forall>b \<in> set (rb_current (poa_blocks s) # rb_blocks (poa_blocks s)). mb_data b = [] \<and> mb_actions b = [])"

lemma NextBlock_blocks: "set (rb_blocks (rb_NextBlock r)) \<subseteq> insert (rb_current r) (set (rb_blocks r))"
  using set_drop_subset [of 1 "rb_blocks r @ [rb_current r]"]
  by (auto simp: rb_NextBlock_def Let_def simp del: drop_append)

lemma empty_blocks_tick:
  "empty_blocks s \<Longrightarrow> empty_blocks (s\<lparr>poa_state := x, poa_blocks := rb_NextBlock (poa_blocks s)\<rparr>)"
  using NextBlock_blocks [of "poa_blocks s"]
  by (auto simp: empty_blocks_def) (auto simp: rb_NextBlock_def new_block_def Let_def)

lemma poa_step_empty:
  assumes "empty_blocks s" and "poa_step U C S s ev = Continue s' os"
  shows "empty_blocks s'"
  using assms empty_blocks_tick [OF assms(1)]
  by (auto simp: poa_step_def on_tick_def empty_blocks_def Let_def
      split: poa_in.splits option.splits prod.splits if_splits)

interpretation poa: message_loop "poa_step U C S" empty_blocks "\<lambda>_. True" "\<lambda>_. True" for U C S
  by unfold_locales (auto intro: poa_step_empty)

text \<open>With empty blocks \<open>Sync\<close> panics where it has no block to count from, and only there.\<close>

lemma empty_Sync:
  assumes "\<forall>b \<in> set (rb_current r # rb_blocks r). mb_data b = [] \<and> mb_actions b = []"
  shows "snd (rb_Sync U C r epoch) = (if rb_blocks r = [] then Some IndexPanic else None)"
proof (cases "rb_blocks r")
  case Nil
  then show ?thesis by (simp add: rb_Sync_def)
next
  case (Cons first rest)
  have sends: "snd (send_block U e h b) = None" if "mb_actions b = []" for e h b
    using that by (simp add: send_block_def mb_Len_def and_then_def)
  have all: "snd (in_order (map (\<lambda>n. send_block U (e n) (h n) (cache ! n)) [1..<length cache])) = None"
    if "\<forall>b \<in> set cache. mb_actions b = []" for cache e h
    using that sends by (subst in_order_sends) (auto simp: list_all_iff)
  have cache: "\<forall>b \<in> set (drop n (rb_blocks r) @ [mb_Clone (rb_current r)]). mb_actions b = []" for n
    using assms by (auto simp: mb_Clone_def dest: in_set_dropD)
  show ?thesis
    using all [OF cache] Cons by (simp add: rb_Sync_def Let_def and_then_def)
qed

lemma poa_step_cases:
  "poa_step U C S s (EndIncoming t) = Continue (s\<lparr>poa_incoming := poa_incoming s - {t}\<rparr>) []"
  "poa_step U C S s (NewIncoming None) = Crash NilPanic []"
  "poa_step U C S s (NewIncoming (Some t)) = Continue (s\<lparr>poa_incoming := insert t (poa_incoming s)\<rparr>) [ListenTo t]"
  "poa_step U C S s (Proposed a) = Continue (s\<lparr>poa_state := snd (ps_Action S (poa_state s) a)\<rparr>)
     (if fst (ps_Action S (poa_state s) a) then on_incorporated a else [])"
  "poa_step U C S s Tick = Continue (s\<lparr>poa_state := snd (ps_NextBlock S (poa_state s) (ps_Epoch S (poa_state s) + 1)),
       poa_blocks := fst (on_tick U C (ps_Epoch S (poa_state s) + 1) (poa_blocks s))\<rparr>)
     (snd (on_tick U C (ps_Epoch S (poa_state s) + 1) (poa_blocks s)))"
  "poa_step U C S s (NewOutgoing t e) = Continue (s\<lparr>poa_syncs := poa_syncs s @ [(t, e)]\<rparr>) [AddOutgoing t]"
  "length (poa_syncs s) \<le> k \<Longrightarrow> poa_step U C S s (SyncRuns k) = Continue s []"
  "k < length (poa_syncs s) \<Longrightarrow> poa_syncs s ! k = (t, e) \<Longrightarrow> rb_Sync U C (poa_blocks s) e = (evs, None) \<Longrightarrow>
     poa_step U C S s (SyncRuns k) =
       Continue (s\<lparr>poa_syncs := take k (poa_syncs s) @ drop (Suc k) (poa_syncs s)\<rparr>) [Synced t evs]"
  "k < length (poa_syncs s) \<Longrightarrow> poa_syncs s ! k = (t, e) \<Longrightarrow> rb_Sync U C (poa_blocks s) e = (evs, Some h) \<Longrightarrow>
     poa_step U C S s (SyncRuns k) = Crash h [Synced t evs]"
  by (simp_all add: poa_step_def Let_def case_prod_unfold)

text \<open>The state of the authority and the parameters of \<open>authority\<close>.\<close>

definition tracks :: "int \<Rightarrow> bool \<Rightarrow> nat \<Rightarrow> 'x poa \<Rightarrow> bool" where
  "tracks keep kept pending s \<longleftrightarrow> empty_blocks s \<and> rb_maxBlocks (poa_blocks s) = keep \<and>
     (rb_blocks (poa_blocks s) = [] \<longleftrightarrow> \<not> kept) \<and> (kept \<longrightarrow> 1 \<le> keep) \<and> length (poa_syncs s) = pending"

lemma tracks_tick:
  assumes "tracks keep kept pending s"
  shows "tracks keep (1 \<le> keep) pending (s\<lparr>poa_state := x, poa_blocks := rb_NextBlock (poa_blocks s)\<rparr>)"
proof -
  have "rb_blocks (rb_NextBlock (poa_blocks s)) = [] \<longleftrightarrow> \<not> 1 \<le> keep"
    using assms by (auto simp: tracks_def rb_NextBlock_def Let_def)
  moreover have "rb_maxBlocks (rb_NextBlock (poa_blocks s)) = rb_maxBlocks (poa_blocks s)"
    by (simp add: rb_NextBlock_def Let_def)
  moreover have "empty_blocks (s\<lparr>poa_state := x, poa_blocks := rb_NextBlock (poa_blocks s)\<rparr>)"
    using assms by (intro empty_blocks_tick) (simp add: tracks_def)
  ultimately show ?thesis using assms by (simp add: tracks_def)
qed

lemma tracks_syncs: "tracks keep kept pending s \<Longrightarrow> tracks keep kept (length l) (s\<lparr>poa_syncs := l\<rparr>)"
  by (simp add: tracks_def empty_blocks_def)

text \<open>How a run ends.\<close>

fun ends_as :: "halt option \<Rightarrow> 's outcome \<Rightarrow> bool" where
  "ends_as None r \<longleftrightarrow> (\<exists>s. r = Running s)"
| "ends_as (Some h) r \<longleftrightarrow> r = Crashed h"

lemma react_authority:
  assumes "tracks keep kept pending s"
  shows "broadcasts (fst (react (poa_step U C S) s events)) = fst (authority U C S keep kept pending (poa_state s) events) \<and>
    ends_as (snd (authority U C S keep kept pending (poa_state s) events)) (snd (react (poa_step U C S) s events))"
  using assms
proof (induction events arbitrary: s kept pending)
  case (Cons ev events)
  note IH = Cons.IH
  show ?case
  proof (cases ev)
    case (EndIncoming t)
    have "tracks keep kept pending (s\<lparr>poa_incoming := poa_incoming s - {t}\<rparr>)"
      using Cons.prems by (simp add: tracks_def empty_blocks_def)
    from IH [OF this] EndIncoming show ?thesis by (simp add: poa_step_cases case_prod_unfold)
  next
    case (NewIncoming c)
    show ?thesis
    proof (cases c)
      case None
      with NewIncoming show ?thesis by (simp add: poa_step_cases)
    next
      case (Some t)
      have "tracks keep kept pending (s\<lparr>poa_incoming := insert t (poa_incoming s)\<rparr>)"
        using Cons.prems by (simp add: tracks_def empty_blocks_def)
      from IH [OF this] NewIncoming Some show ?thesis by (simp add: poa_step_cases case_prod_unfold)
    qed
  next
    case (Proposed a)
    have "tracks keep kept pending (s\<lparr>poa_state := snd (ps_Action S (poa_state s) a)\<rparr>)"
      using Cons.prems by (simp add: tracks_def empty_blocks_def)
    from IH [OF this] Proposed show ?thesis by (simp add: poa_step_cases on_incorporated_def case_prod_unfold)
  next
    case Tick
    have "mb_Hash C (rb_current (poa_blocks s)) = Hasher C []"
      using Cons.prems by (simp add: tracks_def empty_blocks_def mb_Hash_def)
    with IH [OF tracks_tick [OF Cons.prems]] Tick show ?thesis
      by (simp add: poa_step_cases on_tick_def Let_def case_prod_unfold)
  next
    case (NewOutgoing t e)
    have "tracks keep kept (pending + 1) (s\<lparr>poa_syncs := poa_syncs s @ [(t, e)]\<rparr>)"
      using tracks_syncs [OF Cons.prems, of "poa_syncs s @ [(t, e)]"] Cons.prems by (simp add: tracks_def)
    from IH [OF this] NewOutgoing show ?thesis by (simp add: poa_step_cases case_prod_unfold)
  next
    case (SyncRuns k)
    have len: "length (poa_syncs s) = pending" using Cons.prems by (simp add: tracks_def)
    show ?thesis
    proof (cases "pending \<le> k")
      case True
      with IH [OF Cons.prems] SyncRuns len show ?thesis by (simp add: poa_step_cases case_prod_unfold)
    next
      case False
      obtain t e where te: "poa_syncs s ! k = (t, e)" by fastforce
      obtain evs h where rs: "rb_Sync U C (poa_blocks s) e = (evs, h)" by fastforce
      have h: "h = (if kept then None else Some IndexPanic)"
        using empty_Sync [of "poa_blocks s" U C e] Cons.prems rs by (auto simp: tracks_def empty_blocks_def)
      show ?thesis
      proof (cases kept)
        case True
        let ?s = "s\<lparr>poa_syncs := take k (poa_syncs s) @ drop (Suc k) (poa_syncs s)\<rparr>"
        have "tracks keep kept (pending - 1) ?s"
          using tracks_syncs [OF Cons.prems, of "take k (poa_syncs s) @ drop (Suc k) (poa_syncs s)"] False len
          by (simp add: min_def)
        from IH [OF this] True False SyncRuns te rs h len show ?thesis
          by (simp add: poa_step_cases case_prod_unfold)
      next
        case no: False
        with False SyncRuns te rs h len show ?thesis by (simp add: poa_step_cases)
      qed
    qed
  qed
qed simp

section \<open>Properties\<close>


text \<open>A protocol state that accepts each action once.\<close>

definition once_state :: "bytes list protocol_state" where
  "once_state = \<lparr>ps_Action = (\<lambda>x a. if a \<in> set x then (True, x) else (False, a # x)),
     ps_NextBlock = (\<lambda>x e. (False, x)), ps_Epoch = (\<lambda>x. 0)\<rparr>"


end
