(* ===== verification/Relay.thy ===== *)
theory Relay
  imports Blockchain
begin

text \<open>
  \<open>topos/relay.go\<close>: a relay keeps a \<open>Blockchain\<close> up to date with its source and passes the
  messages on to its own connections. \<open>relay_step\<close> is the goroutine that reads from the
  source, \<open>relay_pool\<close> the one that broadcasts.
\<close>

datatype relay_out =
    RelayFinal        \<comment> \<open>an error on \<open>finalize\<close>\<close>
  | ToPool bytes      \<comment> \<open>\<open>msg <- data\<close>\<close>
  | RelayConn conn_event

record 'x relay_env =
  re_util :: util
  re_crypto :: crypto
  re_state :: "'x protocol_state"

definition relay_step :: "'x relay_env \<Rightarrow> 'x blockchain \<Rightarrow> read_event \<Rightarrow> ('x blockchain, relay_out) reaction" where
  "relay_step R chain ev =
     (case ev of
        ReadError \<Rightarrow> Return [RelayFinal]
      | Read data \<Rightarrow>
          (case data of
             [] \<Rightarrow> Crash IndexPanic []
           | k # action \<Rightarrow>
               if k = topos_MsgBlock then
                 (if int (length data) = 1 + 8 + HashSize (re_crypto R) then
                    (case ParseUint64 (re_util R) data 1 of (epoch, position) \<Rightarrow>
                       (case bc_NextBlock (re_util R) (re_crypto R) (re_state R) epoch (fst (ParseHash (re_util R) data position)) chain of
                          Inl h \<Rightarrow> Crash h []
                        | Inr (Some err, chain') \<Rightarrow> Return [RelayFinal]
                        | Inr (None, chain') \<Rightarrow> Continue chain' [ToPool data]))
                  else Continue chain [])
               else if k = topos_MsgAction then
                 (if length data > 1 then
                    (case bc_Append (re_state R) action chain of
                       Inl h \<Rightarrow> Crash h []
                     | Inr (Some err, chain') \<Rightarrow> Continue chain' []
                     | Inr (None, chain') \<Rightarrow> Continue chain' [ToPool data])
                  else Continue chain [])
               else Continue chain []))"

text \<open>The start asks for the epoch of the chain's state, which panics where there is none.\<close>

definition NewRelay ::
  "'x relay_env \<Rightarrow> bool \<Rightarrow> bool \<Rightarrow> bool \<Rightarrow> read_event list \<Rightarrow> 'x blockchain \<Rightarrow> relay_out list \<times> 'x blockchain outcome" where
  "NewRelay R listening dialed request_sent reads chain =
     (if \<not> listening \<or> \<not> dialed then ([RelayFinal], Returned)
      else case bc_state chain of
        None \<Rightarrow> ([], Crashed NilPanic)
      | Some x \<Rightarrow>
          (let req = RelayConn (Send (topos_NewSyncRequest (re_util R) (ps_Epoch (re_state R) x)))
           in if \<not> request_sent then ([req, RelayFinal], Returned)
              else (case react (relay_step R) chain reads of (os, r) \<Rightarrow> (req # os, r))))"

text \<open>The pool loop prepends \<open>MsgBlock\<close> to everything; a sync request starts \<open>Sync\<close>.\<close>

datatype relay_pool_in = SyncRequested token u64 | PoolMsg bytes | NilRequest

datatype relay_pool_out = PoolBroadcast bytes | PoolSync token "sends option"

definition relay_pool :: "'x relay_env \<Rightarrow> 'x blockchain \<Rightarrow> relay_pool_in \<Rightarrow> (unit, relay_pool_out) reaction" where
  "relay_pool R chain ev =
     (case ev of
        NilRequest \<Rightarrow> Return []
      | SyncRequested t epoch \<Rightarrow> Continue () [PoolSync t (bc_Sync (re_util R) (re_crypto R) chain epoch)]
      | PoolMsg data \<Rightarrow> Continue () [PoolBroadcast ([topos_MsgBlock] @ data)])"

text \<open>\<open>WaitSyncRequest\<close>: an invalid request shuts the connection down and is answered all the same.\<close>

definition WaitSyncRequest :: "util \<Rightarrow> read_event \<Rightarrow> (conn_event list \<times> u64 option) go" where
  "WaitSyncRequest U ev =
     (case ev of
        ReadError \<Rightarrow> Inr ([Shutdown], None)
      | Read [] \<Rightarrow> Inl IndexPanic
      | Read (k # rest) \<Rightarrow>
          Inr (if k \<noteq> topos_MsgSyncRequest \<or> length (k # rest) \<noteq> 9 then [Shutdown] else [],
               Some (fst (ParseUint64 U (k # rest) 1))))"

section \<open>What a relay passes on\<close>

fun relayed :: "relay_out list \<Rightarrow> bytes list" where
  "relayed [] = []"
| "relayed (ToPool d # os) = ([topos_MsgBlock] @ d) # relayed os"
| "relayed (_ # os) = relayed os"

lemma relayed_append [simp]: "relayed (xs @ ys) = relayed xs @ relayed ys"
  by (induction xs rule: relayed.induct) auto

text \<open>A read whose action cannot be taken for a block announcement when it has one more byte.\<close>

definition no_lookalike :: "crypto \<Rightarrow> read_event \<Rightarrow> bool" where
  "no_lookalike C ev \<longleftrightarrow> (\<forall>data. ev = Read data \<and> data \<noteq> [] \<and> hd data = topos_MsgAction \<longrightarrow> int (length data) \<noteq> 8 + HashSize C)"

fun ignored_next :: "crypto \<Rightarrow> relay_out \<Rightarrow> bool" where
  "ignored_next C (ToPool d) \<longleftrightarrow> int (length ([topos_MsgBlock] @ d)) \<noteq> 1 + 8 + HashSize C"
| "ignored_next C _ \<longleftrightarrow> True"

lemma relay_step_ignored:
  "no_lookalike (re_crypto R) ev \<Longrightarrow> x \<in> set (sent (relay_step R chain ev)) \<Longrightarrow> ignored_next (re_crypto R) x"
  by (auto simp: relay_step_def no_lookalike_def split: read_event.splits list.splits if_splits prod.splits sum.splits option.splits)

interpretation relay: message_loop "relay_step R" "\<lambda>_. True" "no_lookalike (re_crypto R)" "ignored_next (re_crypto R)" for R
  by unfold_locales (auto intro: relay_step_ignored)

lemma relay_ignores:
  "list_all (ignored_next (re_crypto R)) os \<Longrightarrow> react (relay_step R) chain (map Read (relayed os)) = ([], Running chain)"
proof (induction os rule: relayed.induct)
  case (2 d os)
  then have "relay_step R chain (Read ([topos_MsgBlock] @ d)) = Continue chain []"
    by (simp add: relay_step_def)
  with 2 show ?case by simp
qed simp_all

section \<open>Properties\<close>

text \<open>A relay cannot feed another one: over everything a relay passes on, whatever its source sent and
  whatever the two chains are, a second relay neither changes its chain nor passes anything on (save
  where an action happens to be one byte shorter than a block announcement).\<close>

lemma relay_feeds_nothing:
  assumes "list_all (no_lookalike (re_crypto R)) reads"
  shows "react (relay_step R) second (map Read (relayed (fst (react (relay_step R) first reads)))) = ([], Running second)"
  using relay_ignores [OF relay.react_good [OF TrueI assms, of first]] .

definition demo_relay :: "unit relay_env" where
  "demo_relay = \<lparr>re_util = demo_util, re_crypto = demo_crypto, re_state = demo_state\<rparr>"

lemma relay_feeds_nothing_example:
  "fst (react (relay_step demo_relay) demo_blockchain [Read [1, 7, 8]]) = [ToPool [1, 7, 8]] \<and>
   react (relay_step demo_relay) demo_blockchain [Read [0, 1, 7, 8]] = ([], Running demo_blockchain)"
proof -
  have "fst (react (relay_step demo_relay) demo_blockchain [Read [1, 7, 8]]) = [ToPool [1, 7, 8]]"
    by (simp add: relay_step_def topos_msgs bc_Append_def bc_lock_def bc_unlock_def deref_def demo_blockchain_def demo_relay_def Let_def)
  moreover have "list_all (no_lookalike (re_crypto demo_relay)) [Read [1, 7, 8]]"
    by (simp add: no_lookalike_def demo_relay_def demo_crypto_def)
  note relay_feeds_nothing [OF this, of demo_blockchain demo_blockchain]
  ultimately show ?thesis by (simp add: topos_MsgBlock_def)
qed

end
