(* ===== verification/Blocks.thy ===== *)
theory Blocks
  imports Breeze_Types Messages Block_Log Machine
begin

text \<open>
  The package \<open>blocks\<close>: a store of the blocks of a breeze node (\<open>blocks.go\<close>), and the queries
  and filters on it (\<open>job.go\<close>, \<open>protocol.go\<close>).

  A block goes from \<open>Current\<close> through \<open>Unselaed\<close> to \<open>Sealed\<close>, and is written when it is
  committed. Each builder is in one place at a time, so the lists hold values.
\<close>

record block_pos =
  bp_storagecount :: nat
  bp_offset :: int

record 'a block_builder =
  bb_Header :: breeze_header
  bb_Actions :: 'a

record ('st, 'a) chain_store =
  cs_Storage :: "'st list"
  cs_Blocks :: "block_pos list"
  cs_Current :: "'a block_builder option"
  cs_Unselaed :: "'a block_builder list"
  cs_Sealed :: "'a sealed_block list"

record ('st, 'a) chain_env =
  ce_util :: util
  ce_store :: "'st bytestore"
  ce_actions :: "'a actionarray"
  ce_breeze :: "'a breeze"
  ce_msg :: chainmsg

section \<open>The store\<close>

definition cs_GetBlock :: "('st, 'a) chain_env \<Rightarrow> ('st, 'a) chain_store \<Rightarrow> int \<Rightarrow> bytes option go" where
  "cs_GetBlock V b epoch =
     (if epoch \<ge> int (length (cs_Blocks b)) then Inr None
      else go_bind (go_index (cs_Blocks b) epoch) (\<lambda>index.
           go_bind (go_index (cs_Storage b) (int (bp_storagecount index))) (\<lambda>store.
             let size = fst (ParseUint32 (ce_util V) (ReadAt (ce_store V) store (bp_offset index) 4) 0)
             in Inr (Some (ReadAt (ce_store V) store (bp_offset index + 4) (uint size))))))"

definition cs_New :: "('st, 'a) chain_env \<Rightarrow> breeze_header \<Rightarrow> ('st, 'a) chain_store \<Rightarrow> ('st, 'a) chain_store" where
  "cs_New V header b =
     b\<lparr>cs_Unselaed := (case cs_Current b of None \<Rightarrow> cs_Unselaed b | Some c \<Rightarrow> cs_Unselaed b @ [c]),
       cs_Current := Some \<lparr>bb_Header = header, bb_Actions = NewActionArray (ce_actions V)\<rparr>\<rparr>"

definition cs_Action :: "('st, 'a) chain_env \<Rightarrow> bytes \<Rightarrow> ('st, 'a) chain_store \<Rightarrow> ('st, 'a) chain_store go" where
  "cs_Action V action b =
     (case cs_Current b of
        None \<Rightarrow> Inl NilPanic
      | Some c \<Rightarrow> Inr (b\<lparr>cs_Current := Some (c\<lparr>bb_Actions := ActionsAppend (ce_actions V) (bb_Actions c) action\<rparr>)\<rparr>))"

definition prependSize :: "util \<Rightarrow> bytes \<Rightarrow> bytes" where
  "prependSize U data = PutUint32 U (of_nat (length data)) [] @ data"

text \<open>A seal for an epoch that is not found is logged.\<close>

definition cs_Seal :: "u64 \<Rightarrow> breeze_seal \<Rightarrow> ('st, 'a) chain_store \<Rightarrow> ('st, 'a) chain_store go" where
  "cs_Seal epoch seal b =
     (case cs_Current b of
        None \<Rightarrow> Inl NilPanic
      | Some c \<Rightarrow>
          let (block, b1) =
            (if bh_Epoch (bb_Header c) = epoch then (Some c, b\<lparr>cs_Current := None\<rparr>)
             else (find (\<lambda>r. bh_Epoch (bb_Header r) = epoch) (cs_Unselaed b),
                   b\<lparr>cs_Unselaed := remove_first (\<lambda>r. bh_Epoch (bb_Header r) = epoch) (cs_Unselaed b)\<rparr>))
          in Inr (case block of
                    None \<Rightarrow> b1
                  | Some k \<Rightarrow> b1\<lparr>cs_Sealed := cs_Sealed b1 @
                      [\<lparr>kb_Header = bb_Header k, kb_Actions = Some (bb_Actions k), kb_Seal = seal\<rparr>]\<rparr>))"

definition cs_AppendBlock :: "('st, 'a) chain_env \<Rightarrow> 'a commit_block \<Rightarrow> ('st, 'a) chain_store \<Rightarrow> ('st, 'a) chain_store go" where
  "cs_AppendBlock V commit b =
     (let bytes = SerializeCommitBlock (ce_breeze V) commit; last = length (cs_Storage b) - 1
      in go_bind (go_index (cs_Storage b) (int (length (cs_Storage b)) - 1)) (\<lambda>storage.
           Inr (b\<lparr>cs_Blocks := cs_Blocks b @ [\<lparr>bp_storagecount = last, bp_offset = StoreSize (ce_store V) storage\<rparr>],
                  cs_Storage := (cs_Storage b)[last := AppendBytes (ce_store V) storage (prependSize (ce_util V) bytes)]\<rparr>)))"

definition committed_of :: "'a sealed_block \<Rightarrow> breeze_commit \<Rightarrow> 'a commit_block" where
  "committed_of k commit = \<lparr>kb_Header = kb_Header k, kb_Actions = kb_Actions k, kb_Seal = kb_Seal k, kb_Commit = Some commit\<rparr>"

definition cs_Commit :: "('st, 'a) chain_env \<Rightarrow> u64 \<Rightarrow> breeze_commit \<Rightarrow> ('st, 'a) chain_store \<Rightarrow> ('st, 'a) chain_store go" where
  "cs_Commit V epoch commit b =
     (case find (\<lambda>r. bh_Epoch (kb_Header r) = epoch) (cs_Sealed b) of
        None \<Rightarrow> Inr b
      | Some k \<Rightarrow> cs_AppendBlock V (committed_of k commit)
          (b\<lparr>cs_Sealed := remove_first (\<lambda>r. bh_Epoch (kb_Header r) = epoch) (cs_Sealed b)\<rparr>))"

section \<open>The listener\<close>

datatype blocks_out = BlocksFinal | BlocksSend bytes

definition lift_go :: "'s go \<Rightarrow> ('s, 'o) reaction" where
  "lift_go r = (case r of Inl h \<Rightarrow> Crash h [] | Inr s \<Rightarrow> Continue s [])"

definition blocks_step :: "('st, 'a) chain_env \<Rightarrow> ('st, 'a) chain_store \<Rightarrow> read_event \<Rightarrow> (('st, 'a) chain_store, blocks_out) reaction" where
  "blocks_step V s ev =
     (let M = ce_msg V; B = ce_breeze V
      in case ev of
        ReadError \<Rightarrow> Return [BlocksFinal]
      | Read [] \<Rightarrow> Return [BlocksFinal]
      | Read (k # rest) \<Rightarrow>
          let data = k # rest in
          if k = MsgAction M then lift_go (cs_Action V rest s)
          else if k = MsgNewBlock M then
            (case ParseBlockHeader B rest of None \<Rightarrow> Continue s [] | Some header \<Rightarrow> Continue (cs_New V header s) [])
          else if k = MsgSealBlock M then
            (if length data > 9 then
               (case ParseBlockSeal B (drop 9 data) of
                  None \<Rightarrow> Continue s []
                | Some seal \<Rightarrow> lift_go (cs_Seal (fst (ParseUint64 (ce_util V) data 1)) seal s))
             else Continue s [])
          else if k = MsgCommitBlock M then
            (if length data > 9 then
               (case ParseBlockCommit B (drop 9 data) of
                  None \<Rightarrow> Continue s []
                | Some commit \<Rightarrow> lift_go (cs_Commit V (fst (ParseUint64 (ce_util V) data 1)) commit s))
             else Continue s [])
          else if k = MsgBlockCommitted M then
            (case ParseCommitBlock B rest of None \<Rightarrow> Continue s [] | Some block \<Rightarrow> lift_go (cs_AppendBlock V block s))
          else if k = MsgBlockSealed M then
            (case ParseSealedBlock B rest of
               None \<Rightarrow> Continue s [] | Some block \<Rightarrow> Continue (s\<lparr>cs_Sealed := cs_Sealed s @ [block]\<rparr>) [])
          else Continue s [])"

definition NewBlockListener ::
  "('st, 'a) chain_env \<Rightarrow> bool \<Rightarrow> read_event list \<Rightarrow> ('st, 'a) chain_store \<Rightarrow> blocks_out list \<times> ('st, 'a) chain_store outcome" where
  "NewBlockListener V dialed reads s =
     (if \<not> dialed then ([BlocksFinal], Returned)
      else case react (blocks_step V) s reads of
        (os, r) \<Rightarrow> (BlocksSend [MsgSyncRequest (ce_msg V), 1, 0, 0, 0, 0, 0, 0, 0] # os, r))"

section \<open>Queries\<close>

record query_block =
  qb_Epoch :: u64
  qb_Actions :: "int list"

record query =
  q_Data :: "query_block option list"   \<comment> \<open>pointers, which may be nil\<close>
  q_FilterProtocol :: bool
  q_FilterFunc :: "u32 \<Rightarrow> bool"

text \<open>What a query sends; \<open>query_ok n\<close> says whether the \<open>n\<close>-th send succeeds.\<close>

datatype query_end = QueryDone | QueryErr | QueryPanic halt

text \<open>
  The loop over the actions of a block: \<open>n\<close> of them are left, \<open>i\<close> is the number of the next
  one, \<open>wanted\<close> what is left of the list of the query. A slice of a block that was read
  from a store has no room behind it.
\<close>

fun query_loop ::
  "('st, 'a) chain_env \<Rightarrow> query \<Rightarrow> (nat \<Rightarrow> bool) \<Rightarrow> bytes \<Rightarrow> int \<Rightarrow> int \<Rightarrow> int list \<Rightarrow> nat \<Rightarrow> bytes list \<Rightarrow> bytes list \<times> query_end option" where
  "query_loop V q query_ok block offset i wanted 0 out = (out, None)"
| "query_loop V q query_ok block offset i wanted (Suc n) out =
     (case go_bind (go_index block offset) (\<lambda>lo. go_bind (go_index block (offset + 1)) (\<lambda>hi. Inr (uint lo + 256 * uint hi))) of
        Inl h \<Rightarrow> (out, Some (QueryPanic h))
      | Inr sz \<Rightarrow>
          (case wanted of
             [] \<Rightarrow> (out, Some (QueryPanic IndexPanic))
           | next # later \<Rightarrow>
               if i = next then
                 (case go_slice block (offset + 2) (offset + 2 + sz) of
                    Inl h \<Rightarrow> (out, Some (QueryPanic h))
                  | Inr candidate \<Rightarrow>
                      (let hit = q_FilterProtocol q \<and> q_FilterFunc q (ActionProtocol (ce_breeze V) candidate)
                       in if hit \<and> \<not> query_ok (length out) then (out @ [candidate], Some QueryErr)
                          else let out' = (if hit then out @ [candidate] else out)
                               in if later = [] then (out', None)
                                  else query_loop V q query_ok block (offset + 2 + sz) (i + 1) later n out'))
               else query_loop V q query_ok block (offset + 2 + sz) (i + 1) wanted n out))"

fun query_blocks ::
  "('st, 'a) chain_env \<Rightarrow> ('st, 'a) chain_store \<Rightarrow> query \<Rightarrow> (nat \<Rightarrow> bool) \<Rightarrow> query_block option list \<Rightarrow> bytes list \<Rightarrow> bytes list \<times> query_end" where
  "query_blocks V s q query_ok [] out = (out, QueryDone)"
| "query_blocks V s q query_ok (None # rest) out = (out, QueryPanic NilPanic)"
| "query_blocks V s q query_ok (Some qb # rest) out =
     (case cs_GetBlock V s (int_of_u64 (qb_Epoch qb)) of
        Inl h \<Rightarrow> (out, QueryPanic h)
      | Inr blk \<Rightarrow>
          (let block = (case blk of None \<Rightarrow> [] | Some d \<Rightarrow> d)
           in case ParseUint32 (ce_util V) block (BlockActionOffset (ce_breeze V)) of (count, offset) \<Rightarrow>
                if qb_Actions qb = [] then (out, QueryPanic IndexPanic)
                else (case query_loop V q query_ok block offset 0 (qb_Actions qb) (unat count) out of
                        (out', None) \<Rightarrow> query_blocks V s q query_ok rest out'
                      | (out', Some e) \<Rightarrow> (out', e))))"

definition ExecuteQuery ::
  "('st, 'a) chain_env \<Rightarrow> ('st, 'a) chain_store \<Rightarrow> query \<Rightarrow> (nat \<Rightarrow> bool) \<Rightarrow> bytes list \<times> query_end" where
  "ExecuteQuery V s q query_ok = query_blocks V s q query_ok (q_Data q) []"

text \<open>
  \<open>FilterProtocolOnBlock\<close> appends to its own copy of \<open>output\<close>, which is what the definition
  gives; \<open>FilterProtocolAllBlocks\<close> calls it once per block with its own copy each time.
\<close>

definition FilterProtocolOnBlock ::
  "('st, 'a) chain_env \<Rightarrow> ('st, 'a) chain_store \<Rightarrow> u64 \<Rightarrow> 'a \<Rightarrow> (u32 \<Rightarrow> bool) \<Rightarrow> 'a go" where
  "FilterProtocolOnBlock V s epoch output keep =
     go_bind (cs_GetBlock V s (int_of_u64 epoch)) (\<lambda>blk.
       let block = (case blk of None \<Rightarrow> [] | Some d \<Rightarrow> d);
           all = fst (ParseActionsArray (ce_breeze V) block (BlockActionOffset (ce_breeze V)))
       in Inr (fold (\<lambda>action out. if keep (ActionProtocol (ce_breeze V) action)
                                  then ActionsAppend (ce_actions V) out action else out) all output))"

fun filter_all_loop :: "('st, 'a) chain_env \<Rightarrow> ('st, 'a) chain_store \<Rightarrow> 'a \<Rightarrow> (u32 \<Rightarrow> bool) \<Rightarrow> nat list \<Rightarrow> 'a go" where
  "filter_all_loop V s output keep [] = Inr output"
| "filter_all_loop V s output keep (epoch # rest) =
     go_bind (FilterProtocolOnBlock V s (of_nat epoch) output keep) (\<lambda>copied. filter_all_loop V s output keep rest)"

definition FilterProtocolAllBlocks :: "('st, 'a) chain_env \<Rightarrow> ('st, 'a) chain_store \<Rightarrow> 'a \<Rightarrow> (u32 \<Rightarrow> bool) \<Rightarrow> 'a go" where
  "FilterProtocolAllBlocks V s output keep = filter_all_loop V s output keep [0..<length (cs_Blocks s)]"

section \<open>The store as a log\<close>

text \<open>A 32-bit integer is encoded in four bytes that are parsed back.\<close>

definition u32_codec :: "util \<Rightarrow> bool" where
  "u32_codec U \<longleftrightarrow> (\<forall>v. length (PutUint32 U v []) = 4 \<and> fst (ParseUint32 U (PutUint32 U v []) 0) = v)"

text \<open>\<open>stored_at\<close>: the index entry points to the size and the bytes of \<open>d\<close> in its store.\<close>

definition stored_at :: "util \<Rightarrow> ('st \<Rightarrow> bytes) \<Rightarrow> 'st list \<Rightarrow> block_pos \<Rightarrow> bytes \<Rightarrow> bool" where
  "stored_at U content sts p d \<longleftrightarrow> length d < 2 ^ 32 \<and> bp_storagecount p < length sts \<and>
     (\<exists>pre post. content (sts ! bp_storagecount p) = pre @ prependSize U d @ post \<and> bp_offset p = int (length pre))"

text \<open>What the log is built on: the environment and the contents of the byte stores.\<close>

type_synonym ('st, 'a) log_env = "('st, 'a) chain_env \<times> ('st \<Rightarrow> bytes)"

fun chain_ok :: "('st, 'a) log_env \<Rightarrow> ('st, 'a) chain_store \<Rightarrow> bool" where
  "chain_ok (V, content) s \<longleftrightarrow> u32_codec (ce_util V) \<and> store_is_bytes (ce_store V) content \<and> cs_Storage s \<noteq> [] \<and>
     (\<exists>ds. list_all2 (stored_at (ce_util V) content (cs_Storage s)) (cs_Blocks s) ds)"

fun chain_fits :: "('st, 'a) log_env \<Rightarrow> 'a commit_block \<Rightarrow> bool" where
  "chain_fits (V, content) c \<longleftrightarrow> length (SerializeCommitBlock (ce_breeze V) c) < 2 ^ 32"

fun chain_add :: "('st, 'a) log_env \<Rightarrow> 'a commit_block \<Rightarrow> ('st, 'a) chain_store \<Rightarrow> ('st, 'a) chain_store" where
  "chain_add (V, content) c s = (case cs_AppendBlock V c s of Inr s' \<Rightarrow> s' | Inl h \<Rightarrow> s)"

fun chain_get :: "('st, 'a) log_env \<Rightarrow> ('st, 'a) chain_store \<Rightarrow> nat \<Rightarrow> bytes option go" where
  "chain_get (V, content) s n = cs_GetBlock V s (int n)"

lemma stored_read:
  assumes "u32_codec U" and "store_is_bytes P content" and "stored_at U content sts p d"
  shows "ReadAt P (sts ! bp_storagecount p) (bp_offset p) 4 = PutUint32 U (of_nat (length d)) []"
    and "ReadAt P (sts ! bp_storagecount p) (bp_offset p + 4) (int (length d)) = d"
    and "uint (fst (ParseUint32 U (PutUint32 U (of_nat (length d)) []) 0)) = int (length d)"
proof -
  let ?st = "sts ! bp_storagecount p"
  obtain pre post where c: "content ?st = pre @ prependSize U d @ post" "bp_offset p = int (length pre)" "length d < 2 ^ 32"
    using assms(3) by (auto simp: stored_at_def)
  have l: "length (PutUint32 U (of_nat (length d)) []) = 4" using assms(1) by (simp add: u32_codec_def)
  have "ReadAt P ?st (int (length pre)) (int 4) = take 4 (drop (length pre) (content ?st))"
    by (rule store_is_bytesD(2) [OF assms(2)]) (simp add: c(1) prependSize_def l)
  then show "ReadAt P ?st (bp_offset p) 4 = PutUint32 U (of_nat (length d)) []"
    by (simp add: c prependSize_def l)
  have "ReadAt P ?st (int (length pre + 4)) (int (length d)) = take (length d) (drop (length pre + 4) (content ?st))"
    by (rule store_is_bytesD(2) [OF assms(2)]) (simp add: c(1) prependSize_def l)
  then show "ReadAt P ?st (bp_offset p + 4) (int (length d)) = d"
    by (simp add: c prependSize_def l)
  have "uint (of_nat (length d) :: u32) = int (length d)"
    using c(3) by (simp add: uint_nat unat_of_nat take_bit_nat_eq_self)
  then show "uint (fst (ParseUint32 U (PutUint32 U (of_nat (length d)) []) 0)) = int (length d)"
    using assms(1) by (simp add: u32_codec_def)
qed

lemma stored_get:
  assumes "u32_codec (ce_util V)" and "store_is_bytes (ce_store V) content"
    and "list_all2 (stored_at (ce_util V) content (cs_Storage s)) (cs_Blocks s) ds" and "n < length ds"
  shows "cs_GetBlock V s (int n) = Inr (Some (ds ! n))"
proof -
  have n: "n < length (cs_Blocks s)" and st: "stored_at (ce_util V) content (cs_Storage s) (cs_Blocks s ! n) (ds ! n)"
    using assms(3,4) by (auto simp: list_all2_conv_all_nth)
  have k: "bp_storagecount (cs_Blocks s ! n) < length (cs_Storage s)" using st by (simp add: stored_at_def)
  show ?thesis using n k stored_read [OF assms(1,2) st] by (simp add: cs_GetBlock_def Let_def)
qed

lemma stored_at_append:
  assumes "store_is_bytes P content" and "stored_at U content sts p d"
  shows "stored_at U content (sts[k := AppendBytes P (sts ! k) e]) p d"
proof (cases "bp_storagecount p = k")
  case True
  obtain pre post where c: "length d < 2 ^ 32" "bp_storagecount p < length sts"
    "content (sts ! bp_storagecount p) = pre @ prependSize U d @ post" "bp_offset p = int (length pre)"
    using assms(2) by (auto simp: stored_at_def)
  then have "content (sts[k := AppendBytes P (sts ! k) e] ! bp_storagecount p) = pre @ prependSize U d @ (post @ e)"
    using True by (simp add: store_is_bytesD(4) [OF assms(1)])
  with c show ?thesis unfolding stored_at_def by (metis length_list_update)
next
  case False
  with assms(2) show ?thesis by (simp add: stored_at_def)
qed

lemma AppendBlock_stored:
  assumes "u32_codec (ce_util V)" and P: "store_is_bytes (ce_store V) content" and ne: "cs_Storage s \<noteq> []"
    and ds: "list_all2 (stored_at (ce_util V) content (cs_Storage s)) (cs_Blocks s) ds"
    and small: "length (SerializeCommitBlock (ce_breeze V) c) < 2 ^ 32"
  shows "\<exists>s'. cs_AppendBlock V c s = Inr s' \<and> cs_Storage s' \<noteq> [] \<and> cs_Current s' = cs_Current s \<and>
    cs_Unselaed s' = cs_Unselaed s \<and> cs_Sealed s' = cs_Sealed s \<and> length (cs_Blocks s') = Suc (length (cs_Blocks s)) \<and>
    list_all2 (stored_at (ce_util V) content (cs_Storage s')) (cs_Blocks s') (ds @ [SerializeCommitBlock (ce_breeze V) c])"
proof -
  let ?d = "SerializeCommitBlock (ce_breeze V) c" and ?k = "length (cs_Storage s) - 1"
  let ?st = "cs_Storage s ! ?k"
  have k: "?k < length (cs_Storage s)" using ne by simp
  have "int (length (cs_Storage s)) - 1 = int ?k" using ne by (cases "cs_Storage s") simp_all
  then have i: "go_index (cs_Storage s) (int (length (cs_Storage s)) - 1) = Inr ?st"
    using k by (simp only: go_index_nat) simp
  let ?sts = "(cs_Storage s)[?k := AppendBytes (ce_store V) ?st (prependSize (ce_util V) ?d)]"
  let ?p = "\<lparr>bp_storagecount = ?k, bp_offset = StoreSize (ce_store V) ?st\<rparr>"
  have new: "stored_at (ce_util V) content ?sts ?p ?d"
  proof -
    have "content (?sts ! ?k) = content ?st @ prependSize (ce_util V) ?d @ []"
      using k by (simp add: store_is_bytesD(4) [OF P])
    moreover have "StoreSize (ce_store V) ?st = int (length (content ?st))" by (rule store_is_bytesD(1) [OF P])
    ultimately show ?thesis using k small unfolding stored_at_def by (metis block_pos.select_convs length_list_update)
  qed
  have old: "list_all2 (stored_at (ce_util V) content ?sts) (cs_Blocks s) ds"
    using ds by (rule list_all2_mono) (rule stored_at_append [OF P])
  have "list_all2 (stored_at (ce_util V) content ?sts) (cs_Blocks s @ [?p]) (ds @ [?d])"
    using old new by (simp add: list_all2_appendI)
  then show ?thesis using i ne by (simp add: cs_AppendBlock_def Let_def)
qed

interpretation chain_log: block_log chain_ok chain_fits chain_add chain_get "\<lambda>v s. length (cs_Blocks s)"
  "\<lambda>v c. Inr (Some (SerializeCommitBlock (ce_breeze (fst v)) c))"
proof (unfold_locales, goal_cases)
  case (1 v s c)
  obtain V content where v: "v = (V, content)" by fastforce
  from 1 v obtain ds where h: "u32_codec (ce_util V)" "store_is_bytes (ce_store V) content" "cs_Storage s \<noteq> []"
    "list_all2 (stored_at (ce_util V) content (cs_Storage s)) (cs_Blocks s) ds" "length (SerializeCommitBlock (ce_breeze V) c) < 2 ^ 32"
    by auto
  from AppendBlock_stored [OF h] v h show ?case by auto
next
  case (2 v s c)
  obtain V content where v: "v = (V, content)" by fastforce
  from 2 v obtain ds where h: "u32_codec (ce_util V)" "store_is_bytes (ce_store V) content" "cs_Storage s \<noteq> []"
    "list_all2 (stored_at (ce_util V) content (cs_Storage s)) (cs_Blocks s) ds" "length (SerializeCommitBlock (ce_breeze V) c) < 2 ^ 32"
    by auto
  from AppendBlock_stored [OF h] v show ?case by auto
next
  case (3 v s c)
  obtain V content where v: "v = (V, content)" by fastforce
  from 3 v obtain ds where h: "u32_codec (ce_util V)" "store_is_bytes (ce_store V) content" "cs_Storage s \<noteq> []"
    "list_all2 (stored_at (ce_util V) content (cs_Storage s)) (cs_Blocks s) ds" "length (SerializeCommitBlock (ce_breeze V) c) < 2 ^ 32"
    by auto
  from AppendBlock_stored [OF h] obtain s' where s': "cs_AppendBlock V c s = Inr s'"
    "list_all2 (stored_at (ce_util V) content (cs_Storage s')) (cs_Blocks s') (ds @ [SerializeCommitBlock (ce_breeze V) c])" by blast
  have "length ds = length (cs_Blocks s)" using h(4) by (simp add: list_all2_lengthD)
  with stored_get [OF h(1,2) s'(2), of "length ds"] s'(1) v show ?case by (simp add: nth_append)
next
  case (4 v s c n)
  obtain V content where v: "v = (V, content)" by fastforce
  from 4 v obtain ds where h: "u32_codec (ce_util V)" "store_is_bytes (ce_store V) content" "cs_Storage s \<noteq> []"
    "list_all2 (stored_at (ce_util V) content (cs_Storage s)) (cs_Blocks s) ds" "length (SerializeCommitBlock (ce_breeze V) c) < 2 ^ 32"
    by auto
  from AppendBlock_stored [OF h] obtain s' where s': "cs_AppendBlock V c s = Inr s'"
    "list_all2 (stored_at (ce_util V) content (cs_Storage s')) (cs_Blocks s') (ds @ [SerializeCommitBlock (ce_breeze V) c])" by blast
  have "n < length ds" using 4(3) h(4) by (simp add: list_all2_lengthD)
  with stored_get [OF h(1,2) s'(2), of n] stored_get [OF h(1,2,4), of n] s'(1) v show ?case by (simp add: nth_append)
qed

section \<open>Runs\<close>

datatype chain_store_op =
    StoreNew breeze_header
  | StoreAction bytes
  | StoreSeal u64 breeze_seal
  | StoreCommit u64 breeze_commit

fun cs_apply :: "('st, 'a) chain_env \<Rightarrow> chain_store_op \<Rightarrow> ('st, 'a) chain_store \<Rightarrow> ('st, 'a) chain_store go" where
  "cs_apply V (StoreNew h) s = Inr (cs_New V h s)"
| "cs_apply V (StoreAction a) s = cs_Action V a s"
| "cs_apply V (StoreSeal e seal) s = cs_Seal e seal s"
| "cs_apply V (StoreCommit e commit) s = cs_Commit V e commit s"

fun cs_run :: "('st, 'a) chain_env \<Rightarrow> chain_store_op list \<Rightarrow> ('st, 'a) chain_store \<Rightarrow> ('st, 'a) chain_store go" where
  "cs_run V [] s = Inr s"
| "cs_run V (op # ops) s = go_bind (cs_apply V op s) (cs_run V ops)"

lemma cs_run_append: "cs_run V (xs @ ys) s = go_bind (cs_run V xs s) (cs_run V ys)"
proof (induction xs arbitrary: s)
  case (Cons op xs)
  then show ?case by (cases "cs_apply V op s") simp_all
qed simp

definition array_of :: "('st, 'a) chain_env \<Rightarrow> bytes list \<Rightarrow> 'a" where
  "array_of V acts = foldl (ActionsAppend (ce_actions V)) (NewActionArray (ce_actions V)) acts"

lemma cs_run_actions:
  "cs_Current s = Some c \<Longrightarrow>
     cs_run V (map StoreAction acts) s =
       Inr (s\<lparr>cs_Current := Some (c\<lparr>bb_Actions := foldl (ActionsAppend (ce_actions V)) (bb_Actions c) acts\<rparr>)\<rparr>)"
proof (induction acts arbitrary: s c)
  case Nil
  then show ?case by (cases s) simp
next
  case (Cons a acts)
  then show ?case by (simp add: cs_Action_def)
qed

lemma cs_run_block:
  "cs_run V (StoreNew h # map StoreAction acts) s =
     Inr (s\<lparr>cs_Unselaed := (case cs_Current s of None \<Rightarrow> cs_Unselaed s | Some c \<Rightarrow> cs_Unselaed s @ [c]),
           cs_Current := Some \<lparr>bb_Header = h, bb_Actions = array_of V acts\<rparr>\<rparr>)"
  using cs_run_actions [of "cs_New V h s" "\<lparr>bb_Header = h, bb_Actions = NewActionArray (ce_actions V)\<rparr>" V acts]
  by (simp add: cs_New_def array_of_def)

lemma find_snoc: "\<forall>x \<in> set xs. \<not> p x \<Longrightarrow> p y \<Longrightarrow> find p (xs @ [y]) = Some y"
  by (induction xs) auto

lemma remove_first_snoc: "\<forall>x \<in> set xs. \<not> p x \<Longrightarrow> p y \<Longrightarrow> remove_first p (xs @ [y]) = xs"
  by (induction xs) auto

text \<open>A query that filters by no protocol sends nothing.\<close>

lemma query_loop_silent:
  "\<not> q_FilterProtocol q \<Longrightarrow> fst (query_loop V q query_ok block offset i wanted n out) = out"
  by (induction V q query_ok block offset i wanted n out rule: query_loop.induct)
    (auto simp: Let_def split: sum.splits list.splits)

lemma query_blocks_silent: "\<not> q_FilterProtocol q \<Longrightarrow> fst (query_blocks V s q query_ok qbs out) = out"
proof (induction qbs arbitrary: out)
  case (Cons p qbs)
  have loop: "fst (query_loop V q query_ok block offset i wanted n out) = out" for block offset i wanted n
    by (rule query_loop_silent [OF Cons.prems])
  show ?case
  proof (cases p)
    case (Some qb)
    show ?thesis
    proof (cases "cs_GetBlock V s (int_of_u64 (qb_Epoch qb))")
      case (Inr blk)
      define block where "block = (case blk of None \<Rightarrow> [] | Some d \<Rightarrow> d)"
      obtain count offset where p: "ParseUint32 (ce_util V) block (BlockActionOffset (ce_breeze V)) = (count, offset)" by fastforce
      obtain out' e where q: "query_loop V q query_ok block offset 0 (qb_Actions qb) (unat count) out = (out', e)" by fastforce
      with loop [of block offset 0 "qb_Actions qb" "unat count"] have "out' = out" by simp
      with Inr p q Some Cons.IH [OF Cons.prems] show ?thesis
        by (simp add: block_def [symmetric] split: option.split)
    qed (simp add: Some)
  qed simp
qed simp

text \<open>
  What a query finds in a block that holds the actions \<open>acts\<close>: from where their number was parsed,
  each one after its length in two bytes.
\<close>

definition sized :: "bytes \<Rightarrow> bytes" where
  "sized a = [word_of_nat (length a mod 256), word_of_nat (length a div 256)] @ a"

definition wanted_by :: "('st, 'a) chain_env \<Rightarrow> query \<Rightarrow> bytes \<Rightarrow> bool" where
  "wanted_by V q a \<longleftrightarrow> q_FilterProtocol q \<and> q_FilterFunc q (ActionProtocol (ce_breeze V) a)"

lemma sized_length:
  assumes "length a < 65536"
  shows "uint (word_of_nat (length a mod 256) :: byte) + 256 * uint (word_of_nat (length a div 256) :: byte) = int (length a)"
proof -
  have "uint (word_of_nat (length a mod 256) :: byte) = int (length a mod 256)"
    by (simp add: uint_nat unat_of_nat)
  moreover have "unat (word_of_nat (length a div 256) :: byte) = length a div 256"
    using assms by (simp add: unat_of_nat)
  then have "uint (word_of_nat (length a div 256) :: byte) = int (length a div 256)" by (simp add: uint_nat)
  ultimately show ?thesis by (simp add: zmod_int zdiv_int)
qed

lemma read_sized:
  assumes "length a < 65536" and "block = pre @ sized a @ rest"
  shows "go_bind (go_index block (int (length pre))) (\<lambda>lo. go_bind (go_index block (int (length pre) + 1)) (\<lambda>hi. Inr (uint lo + 256 * uint hi))) = Inr (int (length a))"
    and "go_slice block (int (length pre) + 2) (int (length pre) + 2 + int (length a)) = Inr a"
proof -
  have "go_index block (int (length pre)) = Inr (word_of_nat (length a mod 256))"
    by (simp add: assms(2) sized_def nth_append)
  moreover have "go_index block (int (length pre) + 1) = Inr (word_of_nat (length a div 256))"
    using go_index_nat [of block "Suc (length pre)"] by (simp add: assms(2) sized_def nth_append add.commute)
  ultimately show "go_bind (go_index block (int (length pre))) (\<lambda>lo. go_bind (go_index block (int (length pre) + 1)) (\<lambda>hi. Inr (uint lo + 256 * uint hi))) = Inr (int (length a))"
    using sized_length [OF assms(1)] by simp
  show "go_slice block (int (length pre) + 2) (int (length pre) + 2 + int (length a)) = Inr a"
    using go_slice_nat [of block "length pre + 2" "length pre + 2 + length a"] by (simp add: assms(2) sized_def ac_simps)
qed

lemma query_loop_finds:
  "\<forall>a \<in> set acts. length a < 65536 \<Longrightarrow> wanted \<noteq> [] \<Longrightarrow> sorted_wrt (<) wanted \<Longrightarrow>
   \<forall>n \<in> set wanted. i \<le> n \<and> n < i + int (length acts) \<Longrightarrow>
   query_loop V q (\<lambda>n. True) (pre @ concat (map sized acts) @ post) (int (length pre)) i wanted (length acts) out =
     (out @ filter (wanted_by V q) (map (\<lambda>n. acts ! nat (n - i)) wanted), None)"
proof (induction acts arbitrary: pre i wanted out)
  case Nil
  then show ?case by (cases wanted) auto
next
  case (Cons a acts)
  define block where "block = pre @ concat (map sized (a # acts)) @ post"
  obtain nxt later where w: "wanted = nxt # later" using Cons.prems(2) by (cases wanted) auto
  have a: "length a < 65536" and acts: "\<forall>a \<in> set acts. length a < 65536" using Cons.prems(1) by auto
  have "block = pre @ sized a @ (concat (map sized acts) @ post)" by (simp add: block_def)
  note read = read_sized [OF a this]
  have block: "block = (pre @ sized a) @ concat (map sized acts) @ post"
    and len: "int (length pre) + 2 + int (length a) = int (length (pre @ sized a))" by (simp_all add: sized_def block_def)
  note read = read(1) read(2) [unfolded len]
  have shift: "map (\<lambda>n. (a # acts) ! nat (n - i)) ns = map (\<lambda>n. acts ! nat (n - (i + 1))) ns" if "\<forall>n \<in> set ns. i < n" for ns
    using that by (auto simp: nth_Cons' nat_diff_distrib' intro!: arg_cong [where f = "(!) acts"])
  show ?case
  proof (cases "i = nxt")
    case True
    define out' where "out' = (if wanted_by V q a then out @ [a] else out)"
    have later: "\<forall>n \<in> set later. i < n" using Cons.prems(3) w True by auto
    have step: "query_loop V q (\<lambda>n. True) block (int (length pre)) i wanted (length (a # acts)) out =
      (if later = [] then (out', None)
       else query_loop V q (\<lambda>n. True) block (int (length (pre @ sized a))) (i + 1) later (length acts) out')"
      by (simp add: read len w True out'_def wanted_by_def del: go_index_nat length_append)
    have names: "map (\<lambda>n. (a # acts) ! nat (n - i)) wanted = a # map (\<lambda>n. acts ! nat (n - (i + 1))) later"
      unfolding w list.map shift [OF later] using True by simp
    have "query_loop V q (\<lambda>n. True) block (int (length pre)) i wanted (length (a # acts)) out =
        (out' @ filter (wanted_by V q) (map (\<lambda>n. acts ! nat (n - (i + 1))) later), None)"
    proof (cases "later = []")
      case True
      then show ?thesis by (simp only: step if_True) simp
    next
      case False
      have "\<forall>n \<in> set later. i + 1 \<le> n \<and> n < i + 1 + int (length acts)" using later Cons.prems(4) w by auto
      from Cons.IH [OF acts False _ this, of "pre @ sized a" out'] Cons.prems(3)
      have "query_loop V q (\<lambda>n. True) block (int (length (pre @ sized a))) (i + 1) later (length acts) out' =
          (out' @ filter (wanted_by V q) (map (\<lambda>n. acts ! nat (n - (i + 1))) later), None)"
        by (simp add: block w del: length_append)
      then show ?thesis by (simp only: step False if_False)
    qed
    then show ?thesis unfolding block_def [symmetric] names by (simp only: out'_def) simp
  next
    case False
    then have later: "\<forall>n \<in> set wanted. i < n" using Cons.prems(3,4) w by force
    then have "\<forall>n \<in> set wanted. i + 1 \<le> n \<and> n < i + 1 + int (length acts)" using Cons.prems(4) by auto
    from Cons.IH [OF acts Cons.prems(2,3) this, of "pre @ sized a" out]
    have "query_loop V q (\<lambda>n. True) block (int (length (pre @ sized a))) (i + 1) wanted (length acts) out =
        (out @ filter (wanted_by V q) (map (\<lambda>n. acts ! nat (n - (i + 1))) wanted), None)" by (simp only: block)
    moreover have "query_loop V q (\<lambda>n. True) block (int (length pre)) i wanted (length (a # acts)) out =
        query_loop V q (\<lambda>n. True) block (int (length (pre @ sized a))) (i + 1) wanted (length acts) out"
      using False by (simp add: read len w del: go_index_nat length_append)
    ultimately show ?thesis unfolding block_def [symmetric] shift [OF later] by (simp only:)
  qed
qed

text \<open>A query block names a stored block with these actions, in increasing order.\<close>

definition finds_in :: "('st, 'a) chain_env \<Rightarrow> ('st, 'a) chain_store \<Rightarrow> query_block \<Rightarrow> bytes list \<Rightarrow> bool" where
  "finds_in V s qb acts \<longleftrightarrow>
     (\<exists>pre post. cs_GetBlock V s (int_of_u64 (qb_Epoch qb)) = Inr (Some (pre @ concat (map sized acts) @ post)) \<and>
        ParseUint32 (ce_util V) (pre @ concat (map sized acts) @ post) (BlockActionOffset (ce_breeze V)) =
          (of_nat (length acts), int (length pre))) \<and>
     length acts < 2 ^ 32 \<and> (\<forall>a \<in> set acts. length a < 65536) \<and>
     qb_Actions qb \<noteq> [] \<and> sorted_wrt (<) (qb_Actions qb) \<and> (\<forall>n \<in> set (qb_Actions qb). 0 \<le> n \<and> n < int (length acts))"

definition named_actions :: "query_block list \<Rightarrow> bytes list list \<Rightarrow> bytes list" where
  "named_actions qbs actss = concat (map (\<lambda>(qb, acts). map (\<lambda>n. acts ! nat n) (qb_Actions qb)) (zip qbs actss))"

lemma query_blocks_find:
  "list_all2 (finds_in V s) qbs actss \<Longrightarrow>
   query_blocks V s q (\<lambda>n. True) (map Some qbs) out = (out @ filter (wanted_by V q) (named_actions qbs actss), QueryDone)"
proof (induction qbs actss arbitrary: out rule: list_all2_induct)
  case Nil
  then show ?case by (simp add: named_actions_def)
next
  case (Cons qb qbs acts actss)
  obtain pre post where g: "cs_GetBlock V s (int_of_u64 (qb_Epoch qb)) = Inr (Some (pre @ concat (map sized acts) @ post))"
    and p: "ParseUint32 (ce_util V) (pre @ concat (map sized acts) @ post) (BlockActionOffset (ce_breeze V)) =
          (of_nat (length acts), int (length pre))"
    and short: "length acts < 2 ^ 32" "\<forall>a \<in> set acts. length a < 65536"
    and q: "qb_Actions qb \<noteq> []" "sorted_wrt (<) (qb_Actions qb)" "\<forall>n \<in> set (qb_Actions qb). 0 \<le> n \<and> n < 0 + int (length acts)"
    using Cons.hyps(1) unfolding finds_in_def by auto
  have "unat (of_nat (length acts) :: u32) = length acts" using short(1) by (simp add: unat_of_nat)
  with query_loop_finds [OF short(2) q, of V q pre post out] g p q(1) Cons.IH
  show ?case by (simp add: named_actions_def)
qed

lemma filter_all_unchanged: "filter_all_loop V s output keep ns = Inr r \<Longrightarrow> r = output"
  by (induction ns) (auto simp: go_bind_Inr_conv)

section \<open>A concrete store\<close>

definition demo_chain_env :: "(bytes, bytes list) chain_env" where
  "demo_chain_env = \<lparr>ce_util = demo_util, ce_store = demo_store, ce_actions = demo_actions, ce_breeze = demo_breeze, ce_msg = demo_msg\<rparr>"

lemma demo_u32_codec: "u32_codec demo_util"
proof -
  have "unat v < 256 ^ 4" for v :: u32
    using unsigned_less [of v, where 'a = nat] by simp
  then have "demo_get 4 (le_bytes 4 (unat v)) 0 = unat v" for v :: u32
    using demo_get_put [of "unat v" 4 "[]" "[]"] by simp
  then show ?thesis by (simp add: u32_codec_def demo_util_def demo_put_def)
qed

definition demo_empty_store :: "(bytes, bytes list) chain_store" where
  "demo_empty_store = \<lparr>cs_Storage = [[]], cs_Blocks = [], cs_Current = None, cs_Unselaed = [], cs_Sealed = []\<rparr>"

section \<open>Properties\<close>

text \<open>C31: A block goes through the store as announced: a header, its actions, the next header and its
  actions, and then the first block's seal and commit append exactly one block to the log, that
  header's with exactly its actions in order, its seal and its commit; every block stored before
  is read as before, and the second block is the current one with its own actions.\<close>

theorem blocks_pipeline:
  assumes "u32_codec (ce_util V)" and "store_is_bytes (ce_store V) content" and "cs_Storage s \<noteq> []"
    and "list_all2 (stored_at (ce_util V) content (cs_Storage s)) (cs_Blocks s) ds"
    and "cs_Current s = None" and "bh_Epoch h2 \<noteq> bh_Epoch h1"
    and "\<forall>k \<in> set (cs_Unselaed s). bh_Epoch (bb_Header k) \<noteq> bh_Epoch h1"
    and "\<forall>k \<in> set (cs_Sealed s). bh_Epoch (kb_Header k) \<noteq> bh_Epoch h1"
    and "block = \<lparr>kb_Header = h1, kb_Actions = Some (array_of V acts1), kb_Seal = seal, kb_Commit = Some commit\<rparr>"
    and "length (SerializeCommitBlock (ce_breeze V) block) < 2 ^ 32"
  shows "\<exists>s'. cs_run V (StoreNew h1 # map StoreAction acts1 @ StoreNew h2 # map StoreAction acts2 @
        [StoreSeal (bh_Epoch h1) seal, StoreCommit (bh_Epoch h1) commit]) s = Inr s' \<and>
    length (cs_Blocks s') = Suc (length (cs_Blocks s)) \<and>
    cs_GetBlock V s' (int (length (cs_Blocks s))) = Inr (Some (SerializeCommitBlock (ce_breeze V) block)) \<and>
    (\<forall>n < length (cs_Blocks s). cs_GetBlock V s' (int n) = cs_GetBlock V s (int n)) \<and>
    cs_Current s' = Some \<lparr>bb_Header = h2, bb_Actions = array_of V acts2\<rparr> \<and>
    cs_Unselaed s' = cs_Unselaed s \<and> cs_Sealed s' = cs_Sealed s"
proof -
  let ?b1 = "\<lparr>bb_Header = h1, bb_Actions = array_of V acts1\<rparr>" and ?b2 = "\<lparr>bb_Header = h2, bb_Actions = array_of V acts2\<rparr>"
  let ?k1 = "\<lparr>kb_Header = h1, kb_Actions = Some (array_of V acts1), kb_Seal = seal\<rparr>"
  define s1 where "s1 = s\<lparr>cs_Unselaed := cs_Unselaed s @ [?b1], cs_Current := Some ?b2\<rparr>"
  define s2 where "s2 = s\<lparr>cs_Current := Some ?b2, cs_Sealed := cs_Sealed s @ [?k1]\<rparr>"
  define s3 where "s3 = s\<lparr>cs_Current := Some ?b2\<rparr>"
  have two: "cs_run V ((StoreNew h1 # map StoreAction acts1) @ (StoreNew h2 # map StoreAction acts2)) s = Inr s1"
    unfolding cs_run_append cs_run_block go_bind_simps using assms(5) by (cases s) (simp add: s1_def)
  have seal: "cs_Seal (bh_Epoch h1) seal s1 = Inr s2"
    using assms(6,7) by (cases s) (simp add: cs_Seal_def s1_def s2_def find_snoc remove_first_snoc)
  have "committed_of ?k1 commit = block" by (simp add: committed_of_def assms(9))
  then have commit: "cs_Commit V (bh_Epoch h1) commit s2 = cs_AppendBlock V block s3"
    using assms(8) by (cases s) (simp add: cs_Commit_def s2_def s3_def find_snoc remove_first_snoc)
  have ok: "chain_ok (V, content) s3" and fits: "chain_fits (V, content) block"
    using assms(1-4,10) by (auto simp: s3_def)
  have l3: "list_all2 (stored_at (ce_util V) content (cs_Storage s3)) (cs_Blocks s3) ds" "cs_Storage s3 \<noteq> []"
    using assms(3,4) by (simp_all add: s3_def)
  obtain s' where s': "cs_AppendBlock V block s3 = Inr s'" "cs_Current s' = cs_Current s3" "cs_Unselaed s' = cs_Unselaed s3"
    "cs_Sealed s' = cs_Sealed s3" "length (cs_Blocks s') = Suc (length (cs_Blocks s3))"
    using AppendBlock_stored [OF assms(1,2) l3(2,1) assms(10)] by blast
  have same: "cs_GetBlock V s3 = cs_GetBlock V s" by (rule ext) (simp add: cs_GetBlock_def s3_def)
  have b3: "length (cs_Blocks s3) = length (cs_Blocks s)" by (simp add: s3_def)
  have "cs_GetBlock V s' (int (length (cs_Blocks s))) = Inr (Some (SerializeCommitBlock (ce_breeze V) block))"
    using chain_log.get_new [OF ok fits] s'(1) b3 by simp
  moreover have "cs_GetBlock V s' (int n) = cs_GetBlock V s (int n)" if "n < length (cs_Blocks s)" for n
    using chain_log.get_old [OF ok fits, of n] that s'(1) b3 same by simp
  moreover have "cs_run V ((StoreNew h1 # map StoreAction acts1) @ (StoreNew h2 # map StoreAction acts2) @
      [StoreSeal (bh_Epoch h1) seal, StoreCommit (bh_Epoch h1) commit]) s = Inr s'"
    using two seal commit s'(1) unfolding append_assoc [symmetric] cs_run_append [of V "(StoreNew h1 # map StoreAction acts1) @ _"] by simp
  ultimately show ?thesis using s' b3 by (simp add: s3_def)
qed

theorem blocks_pipeline_witness:
  "\<exists>s'. cs_run demo_chain_env [StoreNew (demo_header 1), StoreAction [7], StoreNew (demo_header 2),
       StoreSeal 1 (demo_seal [5, 5, 1, 1]), StoreCommit 1 (demo_commit [])] demo_empty_store = Inr s' \<and>
     cs_GetBlock demo_chain_env s' 0 = Inr (Some [1, 7])"
proof -
  let ?V = demo_chain_env and ?s = demo_empty_store
  have 1: "u32_codec (ce_util ?V)" "store_is_bytes (ce_store ?V) (\<lambda>s. s)" "cs_Storage ?s \<noteq> []"
    "list_all2 (stored_at (ce_util ?V) (\<lambda>s. s) (cs_Storage ?s)) (cs_Blocks ?s) []" "cs_Current ?s = None"
    by (simp_all add: demo_chain_env_def demo_u32_codec demo_store_is_bytes demo_empty_store_def)
  have h: "bh_Epoch (demo_header 1) = 1" "bh_Epoch (demo_header 2) = 2" by (simp_all add: demo_header_def)
  have lists: "cs_Unselaed ?s = []" "cs_Sealed ?s = []" "cs_Blocks ?s = []" by (simp_all add: demo_empty_store_def)
  have arr: "array_of ?V [[7]] = [[7]]" by (simp add: array_of_def demo_chain_env_def demo_actions_def)
  let ?b = "\<lparr>kb_Header = demo_header 1, kb_Actions = Some (array_of ?V [[7]]), kb_Seal = demo_seal [5, 5, 1, 1], kb_Commit = Some (demo_commit [])\<rparr>"
  have ser: "SerializeCommitBlock (ce_breeze ?V) ?b = [1, 7]"
    unfolding arr by (simp add: demo_chain_env_def demo_breeze_def demo_header_def)
  have "\<exists>s'. cs_run ?V (StoreNew (demo_header 1) # map StoreAction [[7]] @ StoreNew (demo_header 2) # map StoreAction [] @
      [StoreSeal (bh_Epoch (demo_header 1)) (demo_seal [5, 5, 1, 1]), StoreCommit (bh_Epoch (demo_header 1)) (demo_commit [])]) ?s = Inr s' \<and>
    cs_GetBlock ?V s' (int (length (cs_Blocks ?s))) = Inr (Some (SerializeCommitBlock (ce_breeze ?V) ?b))"
    using blocks_pipeline [OF 1 _ _ _ refl, of "demo_header 2" "demo_header 1" "[[7]]" "demo_seal [5, 5, 1, 1]" "demo_commit []" "[]"]
    by (simp add: h lists ser del: cs_run.simps) blast
  then show ?thesis by (simp add: h lists ser)
qed

text \<open>A query that does not filter by protocol sends nothing, whatever it asks for, and the filter over all
  blocks leaves the array it is given as it is: the actions found are appended to copies.\<close>

lemma queries_give_nothing:
  assumes "\<not> q_FilterProtocol q" and "FilterProtocolAllBlocks V s output keep = Inr r"
  shows "fst (ExecuteQuery V s q query_ok) = [] \<and> r = output"
  using query_blocks_silent [OF assms(1)] filter_all_unchanged assms(2)
  by (auto simp: ExecuteQuery_def FilterProtocolAllBlocks_def)

definition demo_one_block :: "(bytes, bytes list) chain_store" where
  "demo_one_block = demo_empty_store\<lparr>cs_Storage := [prependSize demo_util [1, 7]], cs_Blocks := [\<lparr>bp_storagecount = 0, bp_offset = 0\<rparr>]\<rparr>"

lemma queries_give_nothing_example:
  "FilterProtocolOnBlock demo_chain_env demo_one_block 0 [] (\<lambda>p. True) = Inr [[7]] \<and>
   FilterProtocolAllBlocks demo_chain_env demo_one_block [] (\<lambda>p. True) = Inr [] \<and>
   fst (ExecuteQuery demo_chain_env demo_one_block \<lparr>q_Data = [Some \<lparr>qb_Epoch = 0, qb_Actions = [0]\<rparr>], q_FilterProtocol = False, q_FilterFunc = (\<lambda>p. True)\<rparr> (\<lambda>n. True)) = []"
proof -
  have g: "cs_GetBlock demo_chain_env demo_one_block (int 0) = Inr (Some ([[1, 7]] ! 0))"
  proof (rule stored_get [where content = "\<lambda>s. s"])
    show "list_all2 (stored_at (ce_util demo_chain_env) (\<lambda>s. s) (cs_Storage demo_one_block)) (cs_Blocks demo_one_block) [[1, 7]]"
      by (auto simp: stored_at_def demo_one_block_def demo_chain_env_def intro: exI [where x = "[]"])
  qed (simp_all add: demo_chain_env_def demo_u32_codec demo_store_is_bytes)
  have one: "FilterProtocolOnBlock demo_chain_env demo_one_block 0 [] (\<lambda>p. True) = Inr [[7]]"
    using g by (simp add: FilterProtocolOnBlock_def int_of_u64_def demo_chain_env_def demo_breeze_def demo_actions_def)
  then have all: "FilterProtocolAllBlocks demo_chain_env demo_one_block [] (\<lambda>p. True) = Inr []"
    by (simp add: FilterProtocolAllBlocks_def demo_one_block_def)
  have "\<not> q_FilterProtocol \<lparr>q_Data = [Some \<lparr>qb_Epoch = 0, qb_Actions = [0]\<rparr>], q_FilterProtocol = False, q_FilterFunc = (\<lambda>p. True)\<rparr>" by simp
  from queries_give_nothing [OF this all] one all show ?thesis by blast
qed

text \<open>C33: What a query sends: where its block numbers name stored blocks and its lists of actions are increasing
  and inside those blocks, and no send fails, a query that filters by protocol sends exactly the named actions whose
  protocol passes the filter, in the order of the query, and a query that does not filter sends
  none of them; either way it ends without an error.\<close>

theorem query_sends:
  assumes "q_Data q = map Some qbs" and "list_all2 (finds_in V s) qbs actss"
  shows "ExecuteQuery V s q (\<lambda>n. True) =
    (if q_FilterProtocol q
     then filter (\<lambda>a. q_FilterFunc q (ActionProtocol (ce_breeze V) a)) (named_actions qbs actss) else [], QueryDone)"
proof -
  have "wanted_by V q = (\<lambda>a. q_FilterProtocol q \<and> q_FilterFunc q (ActionProtocol (ce_breeze V) a))"
    by (rule ext) (simp add: wanted_by_def)
  then show ?thesis using query_blocks_find [OF assms(2), of q "[]"] by (simp add: ExecuteQuery_def assms(1))
qed

definition demo_stored :: bytes where
  "demo_stored = [9, 2, 0, 0, 0] @ concat (map sized [[5, 1], [6]]) @ [3]"

definition demo_two_actions :: "(bytes, bytes list) chain_store" where
  "demo_two_actions = demo_empty_store\<lparr>cs_Storage := [prependSize demo_util demo_stored], cs_Blocks := [\<lparr>bp_storagecount = 0, bp_offset = 0\<rparr>]\<rparr>"

theorem query_sends_witness:
  "ExecuteQuery demo_chain_env demo_two_actions
     \<lparr>q_Data = [Some \<lparr>qb_Epoch = 0, qb_Actions = [0, 1]\<rparr>], q_FilterProtocol = True, q_FilterFunc = (\<lambda>p. p = 6)\<rparr> (\<lambda>n. True) =
   ([[6]], QueryDone)"
proof -
  have "cs_GetBlock demo_chain_env demo_two_actions (int 0) = Inr (Some ([demo_stored] ! 0))"
  proof (rule stored_get [where content = "\<lambda>s. s"])
    show "list_all2 (stored_at (ce_util demo_chain_env) (\<lambda>s. s) (cs_Storage demo_two_actions)) (cs_Blocks demo_two_actions) [demo_stored]"
      by (auto simp: stored_at_def demo_two_actions_def demo_chain_env_def demo_stored_def sized_def intro: exI [where x = "[]"])
  qed (simp_all add: demo_chain_env_def demo_u32_codec demo_store_is_bytes)
  then have g: "cs_GetBlock demo_chain_env demo_two_actions (int_of_u64 0) = Inr (Some demo_stored)" by (simp add: int_of_u64_def)
  have p: "ParseUint32 (ce_util demo_chain_env) demo_stored (BlockActionOffset (ce_breeze demo_chain_env)) =
      (of_nat (length [[5, 1], [6 :: byte]]), int (length [9, 2, 0, 0, 0 :: byte]))"
    by (simp add: demo_chain_env_def demo_util_def demo_breeze_def demo_get_def demo_stored_def)
  have "finds_in demo_chain_env demo_two_actions \<lparr>qb_Epoch = 0, qb_Actions = [0, 1]\<rparr> [[5, 1], [6]]"
    unfolding finds_in_def
    using g p unfolding demo_stored_def
    by (intro conjI exI [where x = "[9, 2, 0, 0, 0]"] exI [where x = "[3]"]) simp_all
  then show ?thesis
    using query_sends [where q = "\<lparr>q_Data = [Some \<lparr>qb_Epoch = 0, qb_Actions = [0, 1]\<rparr>], q_FilterProtocol = True, q_FilterFunc = (\<lambda>p. p = 6)\<rparr>"
        and qbs = "[\<lparr>qb_Epoch = 0, qb_Actions = [0, 1]\<rparr>]" and actss = "[[[5, 1], [6]]]" and V = demo_chain_env and s = demo_two_actions]
    by (simp add: named_actions_def demo_chain_env_def demo_breeze_def)
qed

end
