(* ===== verification/Index.thy ===== *)
theory Index
  imports Blocks "HOL-Library.AList" "HOL-Library.Multiset"
begin

text \<open>
  \<open>index/index.go\<close>: for a hash, the places (epoch and sequence) of the actions it indexes. A
  byte store holds the last epoch in eight bytes and then one record of 24 bytes per entry, the
  first 16 bytes of the hash and the place; a map in memory takes the first four bytes of a hash
  to the positions of its records. The arrays of \<open>NStores\<close> elements are lists; a
  \<open>crypto.Hash\<close> is an array of more than 16 bytes, so that slicing it does not fail.
\<close>

definition StoreBytes :: nat where "StoreBytes = 16"
definition IndexBytes :: nat where "IndexBytes = 4"
definition NStores :: nat where "NStores = 1"

type_synonym position_map = "bytes \<rightharpoonup> int list"

record 'st hash_index =
  ix_store :: "'st list"
  ix_index :: "position_map list"
  ix_lastEpoch :: u64

definition LastIndexedEpoch :: "'st hash_index \<Rightarrow> u64" where
  "LastIndexedEpoch i = ix_lastEpoch i"

definition ix_NextBlock :: "util \<Rightarrow> 'st bytestore \<Rightarrow> u64 \<Rightarrow> 'st hash_index \<Rightarrow> 'st hash_index" where
  "ix_NextBlock U P epoch i =
     (let data = PutUint64 U epoch []
      in i\<lparr>ix_lastEpoch := epoch, ix_store := (ix_store i)[0 := WriteAt P (ix_store i ! 0) 0 data]\<rparr>)"

text \<open>\<open>if indexed, ok := index[partial]; ok { append } else { new }\<close>.\<close>

definition index_at :: "bytes \<Rightarrow> int \<Rightarrow> position_map \<Rightarrow> position_map" where
  "index_at partial position m =
     (case m partial of
        Some indexed \<Rightarrow> m(partial \<mapsto> indexed @ [position])
      | None \<Rightarrow> m(partial \<mapsto> [position]))"

function index_loop :: "'st bytestore \<Rightarrow> 'st \<Rightarrow> int \<Rightarrow> position_map \<Rightarrow> position_map go" where
  "index_loop P file position m =
     (if position < StoreSize P file then
        (case go_slice (ReadAt P file position (int (StoreBytes + 8))) 0 (int IndexBytes) of
           Inl h \<Rightarrow> Inl h
         | Inr partial \<Rightarrow> index_loop P file (position + int (StoreBytes + 8)) (index_at partial position m))
      else Inr m)"
  by pat_completeness auto
termination
  by (relation "measure (\<lambda>(P, file, position, m). nat (StoreSize P file - position))") (auto simp: StoreBytes_def)

declare index_loop.simps [simp del]

fun open_files :: "util \<Rightarrow> 'st bytestore \<Rightarrow> nat \<Rightarrow> 'st list \<Rightarrow> position_map list \<times> u64 \<Rightarrow> (position_map list \<times> u64) go" where
  "open_files U P n [] acc = Inr acc"
| "open_files U P n (file # rest) (maps, lastEpoch) =
     (case (if n = 0 then (8, fst (ParseUint64 U (ReadAt P file 0 8) 0)) else (0, lastEpoch)) of
        (startPos, lastEpoch') \<Rightarrow>
          go_bind (index_loop P file startPos Map.empty) (\<lambda>m. open_files U P (Suc n) rest (maps @ [m], lastEpoch')))"

definition OpenIndex :: "util \<Rightarrow> 'st bytestore \<Rightarrow> 'st list \<Rightarrow> 'st hash_index go" where
  "OpenIndex U P stores =
     go_bind (open_files U P 0 stores ([], 0)) (\<lambda>(maps, lastEpoch).
       Inr \<lparr>ix_store = stores, ix_index = maps, ix_lastEpoch = lastEpoch\<rparr>)"

text \<open>\<open>OpenFileStoreIndex\<close>: what \<open>papirus.OpenFileStore\<close> makes of a path is a parameter.\<close>

definition OpenFileStoreIndex :: "util \<Rightarrow> 'st bytestore \<Rightarrow> (string \<Rightarrow> 'st) \<Rightarrow> string list \<Rightarrow> 'st hash_index go" where
  "OpenFileStoreIndex U P OpenFileStore path = OpenIndex U P (map OpenFileStore path)"

definition PartialHash :: "hash \<Rightarrow> bytes" where
  "PartialHash hash = take IndexBytes hash"

definition HashToFileNum :: "hash \<Rightarrow> nat" where
  "HashToFileNum hash = 0"

fun add_hashes :: "'st bytestore \<Rightarrow> bytes \<Rightarrow> hash list \<Rightarrow> 'st hash_index \<Rightarrow> 'st hash_index" where
  "add_hashes P value [] i = i"
| "add_hashes P value (h # hashes) i =
     (let fileNum = HashToFileNum h;
          file = ix_store i ! fileNum;
          data = take StoreBytes h @ value;
          position = StoreSize P file
      in add_hashes P value hashes
           (i\<lparr>ix_store := (ix_store i)[fileNum := AppendBytes P file data],
             ix_index := (ix_index i)[fileNum := index_at (PartialHash h) position (ix_index i ! fileNum)]\<rparr>))"

text \<open>\<open>uint64(epoch<<32 + sequece)\<close>: the conversion reduces the sum to 64 bits.\<close>

definition ix_Add :: "util \<Rightarrow> 'st bytestore \<Rightarrow> int \<Rightarrow> int \<Rightarrow> hash list \<Rightarrow> 'st hash_index \<Rightarrow> 'st hash_index" where
  "ix_Add U P epoch sequence hashes i =
     (let value = PutUint64 U (u64_of_int (epoch * 2 ^ 32 + sequence)) [] in add_hashes P value hashes i)"

definition compareHash :: "hash \<Rightarrow> bytes \<Rightarrow> bool" where
  "compareHash hash partial =
     (if length partial < StoreBytes then False
      else list_all (\<lambda>n. hash ! n = partial ! n) [0..<StoreBytes])"

text \<open>
  The map \<open>positions\<close> from epochs to sequences is an association list. \<open>(int(value) << 32) >> 32\<close>
  is on \<open>int64\<close>, so the second shift keeps the sign.
\<close>

definition sequence_of :: "u64 \<Rightarrow> int" where
  "sequence_of value = wrap64 (int_of_u64 value * 2 ^ 32) div 2 ^ 32"

fun collect :: "util \<Rightarrow> 'st bytestore \<Rightarrow> 'st \<Rightarrow> hash \<Rightarrow> int list \<Rightarrow> (u64 \<times> int list) list \<Rightarrow> (u64 \<times> int list) list" where
  "collect U P store hash [] positions = positions"
| "collect U P store hash (idx # indexed) positions =
     (let data = ReadAt P store idx (int (StoreBytes + 8))
      in collect U P store hash indexed
           (if compareHash hash data then
              (let value = fst (ParseUint64 U data (int StoreBytes));
                   epoch = drop_bit 32 value;
                   sequence = sequence_of value
               in case map_of positions epoch of
                    None \<Rightarrow> AList.update epoch ([] @ [sequence]) positions
                  | Some sequences \<Rightarrow> AList.update epoch [sequence] positions)
            else positions))"

text \<open>
  The answer is a list of pointers, made with as many nil pointers as there are epochs, to which
  the items are then appended. \<open>iter\<close> is the order in which Go iterates over the map.
\<close>

definition ix_Retrieve ::
  "util \<Rightarrow> 'st bytestore \<Rightarrow> ((u64 \<times> int list) list \<Rightarrow> (u64 \<times> int list) list) \<Rightarrow> hash \<Rightarrow> 'st hash_index \<Rightarrow> query_block option list option" where
  "ix_Retrieve U P iter hash i =
     (let n = HashToFileNum hash; partial = PartialHash hash
      in case (ix_index i ! n) partial of
           None \<Rightarrow> None
         | Some indexed \<Rightarrow>
             (let positions = collect U P (ix_store i ! n) hash indexed []
              in Some (replicate (length positions) None @
                   map (\<lambda>(epoch, actions). Some \<lparr>qb_Epoch = epoch, qb_Actions = actions\<rparr>) (iter positions))))"

section \<open>The abstract index\<close>

text \<open>
  The abstraction: an index stands for the list of its entries (epoch, sequence, hash), in the
  order they were added. \<open>holds U content L i\<close> says that the store holds their records, and
  the map their positions.
\<close>

type_synonym entry = "int \<times> int \<times> hash"

fun entry_bytes :: "util \<Rightarrow> entry \<Rightarrow> bytes" where
  "entry_bytes U (e, s, h) = take StoreBytes h @ PutUint64 U (u64_of_int (e * 2 ^ 32 + s)) []"

fun hash_of :: "entry \<Rightarrow> hash" where
  "hash_of (e, s, h) = h"

definition numbers_of :: "entry list \<Rightarrow> bytes \<Rightarrow> nat list" where
  "numbers_of L k = filter (\<lambda>n. PartialHash (hash_of (L ! n)) = k) [0..<length L]"

definition pos_of :: "nat \<Rightarrow> int" where
  "pos_of n = 8 + int (24 * n)"

definition map_entries :: "entry list \<Rightarrow> position_map" where
  "map_entries L k = (if numbers_of L k = [] then None else Some (map pos_of (numbers_of L k)))"

definition stored_entries :: "util \<Rightarrow> u64 \<Rightarrow> entry list \<Rightarrow> bytes" where
  "stored_entries U lastEpoch L = PutUint64 U lastEpoch [] @ concat (map (entry_bytes U) L)"

definition holds :: "util \<Rightarrow> ('st \<Rightarrow> bytes) \<Rightarrow> entry list \<Rightarrow> 'st hash_index \<Rightarrow> bool" where
  "holds U content L i \<longleftrightarrow> (\<exists>store. i = \<lparr>ix_store = [store], ix_index = [map_entries L], ix_lastEpoch = ix_lastEpoch i\<rparr> \<and>
     content store = stored_entries U (ix_lastEpoch i) L) \<and> list_all (\<lambda>x. 16 \<le> length (hash_of x)) L"

lemma block_at:
  "\<forall>x \<in> set L. length (f x) = c \<Longrightarrow> n < length L \<Longrightarrow> take c (drop (c * n) (concat (map f L))) = f (L ! n)"
proof (induction L arbitrary: n)
  case (Cons x L)
  then show ?case by (cases n) (simp_all add: drop_append)
qed simp

lemma length_put: "u64_codec U \<Longrightarrow> length (PutUint64 U v d) = length d + 8"
  by (metis u64_codecE length_append)

lemma length_entry: "u64_codec U \<Longrightarrow> 16 \<le> length (hash_of x) \<Longrightarrow> length (entry_bytes U x) = 24"
  by (cases x) (simp add: length_put StoreBytes_def)

lemma length_stored_entries:
  assumes "u64_codec U" and "list_all (\<lambda>x. 16 \<le> length (hash_of x)) L"
  shows "length (stored_entries U l L) = 8 + 24 * length L"
proof -
  have "length (concat (map (entry_bytes U) L)) = 24 * length L"
    using assms(2) by (induction L) (simp_all add: length_entry assms(1))
  then show ?thesis by (simp add: stored_entries_def length_put assms(1))
qed

lemma read_entry:
  assumes "u64_codec U" and P: "store_is_bytes P content" and "content s = stored_entries U l L"
    and "list_all (\<lambda>x. 16 \<le> length (hash_of x)) L" and "n < length L"
  shows "ReadAt P s (pos_of n) (int (StoreBytes + 8)) = entry_bytes U (L ! n)"
proof -
  have pos: "pos_of n = int (8 + 24 * n)" by (simp add: pos_of_def)
  have "take 24 (drop (8 + 24 * n) (stored_entries U l L)) = entry_bytes U (L ! n)"
    using block_at [of L "entry_bytes U" 24 n] assms(4,5)
    by (simp add: stored_entries_def length_put [OF assms(1)] length_entry [OF assms(1)] list_all_iff add.commute drop_append)
  moreover have "8 + 24 * n + 24 \<le> length (content s)"
    using assms by (simp add: length_stored_entries)
  ultimately show ?thesis
    using store_is_bytesD(2) [OF P, of "8 + 24 * n" 24 s] unfolding pos by (simp add: StoreBytes_def assms(3))
qed

lemma numbers_of_snoc:
  "numbers_of (L @ [x]) k = numbers_of L k @ (if PartialHash (hash_of x) = k then [length L] else [])"
proof -
  have "filter (\<lambda>n. PartialHash (hash_of ((L @ [x]) ! n)) = k) [0..<length L] = numbers_of L k"
    unfolding numbers_of_def by (rule filter_cong) (auto simp: nth_append)
  then show ?thesis by (simp add: numbers_of_def nth_append)
qed

lemma map_entries_snoc:
  "index_at (PartialHash (hash_of x)) (pos_of (length L)) (map_entries L) = map_entries (L @ [x])"
  by (rule ext) (auto simp: index_at_def map_entries_def numbers_of_snoc split: option.splits)

lemma map_entries_Nil [simp]: "map_entries [] = Map.empty"
  by (rule ext) (simp add: map_entries_def numbers_of_def)

subsection \<open>Opening\<close>

lemma partial_slice:
  "u64_codec U \<Longrightarrow> 16 \<le> length (hash_of x) \<Longrightarrow> go_slice (entry_bytes U x) 0 (int IndexBytes) = Inr (PartialHash (hash_of x))"
  using go_slice_nat [of "entry_bytes U x" 0 IndexBytes]
  by (cases x) (simp add: length_put PartialHash_def StoreBytes_def IndexBytes_def)

lemma index_loop_entries:
  assumes "u64_codec U" and P: "store_is_bytes P content" and c: "content s = stored_entries U l L"
    and long: "list_all (\<lambda>x. 16 \<le> length (hash_of x)) L" and "n \<le> length L"
  shows "index_loop P s (pos_of n) (map_entries (take n L)) = Inr (map_entries L)"
  using assms(5)
proof (induction "length L - n" arbitrary: n)
  case 0
  then show ?case
    using c by (subst index_loop.simps) (simp add: store_is_bytesD(1) [OF P] length_stored_entries [OF assms(1) long] pos_of_def)
next
  case (Suc k)
  then have n: "n < length L" "k = length L - Suc n" by simp_all
  have next_pos: "pos_of n + int (StoreBytes + 8) = pos_of (Suc n)" by (simp add: pos_of_def StoreBytes_def)
  have "16 \<le> length (hash_of (L ! n))" using long n(1) by (simp add: list_all_length)
  note slice = partial_slice [OF assms(1) this]
  have "map_entries (take (Suc n) L) = index_at (PartialHash (hash_of (L ! n))) (pos_of n) (map_entries (take n L))"
    using map_entries_snoc [of "L ! n" "take n L"] n(1) by (simp add: take_Suc_conv_app_nth min_def)
  moreover have "pos_of n < StoreSize P s"
    using n(1) c by (simp add: store_is_bytesD(1) [OF P] length_stored_entries [OF assms(1) long] pos_of_def)
  ultimately show ?case
    using Suc.hyps(1) [OF n(2)] n(1) slice
    by (subst index_loop.simps) (simp add: read_entry [OF assms(1) P c long] next_pos del: of_nat_add)
qed

lemma read_epoch:
  assumes "u64_codec U" and P: "store_is_bytes P content" and "content s = PutUint64 U l [] @ rest"
  shows "fst (ParseUint64 U (ReadAt P s 0 8) 0) = l"
proof -
  obtain e where e: "length e = 8" "\<And>d. PutUint64 U l d = d @ e"
    "\<And>d post. ParseUint64 U (d @ e @ post) (int (length d)) = (l, int (length d) + 8)"
    using u64_codecE [OF assms(1), of l] by blast
  have "ReadAt P s 0 8 = e"
    using store_is_bytesD(2) [OF P, of 0 8 s] assms(3) e(1,2) by simp
  then show ?thesis using e(3) [of "[]" "[]"] by simp
qed

lemma open_holds:
  assumes "u64_codec U" and P: "store_is_bytes P content" and "holds U content L i"
  shows "OpenIndex U P (ix_store i) = Inr i"
proof -
  obtain s where i: "i = \<lparr>ix_store = [s], ix_index = [map_entries L], ix_lastEpoch = ix_lastEpoch i\<rparr>"
    and c: "content s = stored_entries U (ix_lastEpoch i) L" and long: "list_all (\<lambda>x. 16 \<le> length (hash_of x)) L"
    using assms(3) unfolding holds_def by blast
  have "index_loop P s 8 Map.empty = Inr (map_entries L)"
    using index_loop_entries [OF assms(1) P c long, of 0] by (simp add: pos_of_def)
  moreover have "fst (ParseUint64 U (ReadAt P s 0 8) 0) = ix_lastEpoch i"
    by (rule read_epoch [OF assms(1) P]) (simp add: c stored_entries_def)
  ultimately show ?thesis by (subst (1 2) i) (simp add: OpenIndex_def)
qed

subsection \<open>The operations on it\<close>

lemma holds_NextBlock:
  assumes "u64_codec U" and P: "store_is_bytes P content" and "holds U content L i"
  shows "holds U content L (ix_NextBlock U P epoch i)"
proof -
  obtain s where i: "i = \<lparr>ix_store = [s], ix_index = [map_entries L], ix_lastEpoch = ix_lastEpoch i\<rparr>"
    and c: "content s = stored_entries U (ix_lastEpoch i) L" and long: "list_all (\<lambda>x. 16 \<le> length (hash_of x)) L"
    using assms(3) unfolding holds_def by blast
  have "content (WriteAt P s 0 (PutUint64 U epoch [])) = stored_entries U epoch L"
    using store_is_bytesD(3) [OF P, of 0 "PutUint64 U epoch []" s] c
    by (simp add: length_put [OF assms(1)] stored_entries_def)
  then show ?thesis using long by (subst i) (simp add: holds_def ix_NextBlock_def)
qed

lemma holds_add_hashes:
  assumes "u64_codec U" and P: "store_is_bytes P content" and "value = PutUint64 U (u64_of_int (e * 2 ^ 32 + sq)) []"
  shows "holds U content L i \<Longrightarrow> \<forall>h \<in> set hs. 16 \<le> length h \<Longrightarrow>
    holds U content (L @ map (\<lambda>h. (e, sq, h)) hs) (add_hashes P value hs i)"
proof (induction hs arbitrary: L i)
  case (Cons h hs)
  obtain s where i: "i = \<lparr>ix_store = [s], ix_index = [map_entries L], ix_lastEpoch = ix_lastEpoch i\<rparr>"
    and c: "content s = stored_entries U (ix_lastEpoch i) L" and long: "list_all (\<lambda>x. 16 \<le> length (hash_of x)) L"
    using Cons.prems(1) unfolding holds_def by blast
  define i' where "i' = i\<lparr>ix_store := [AppendBytes P s (take StoreBytes h @ value)], ix_index := [map_entries (L @ [(e, sq, h)])]\<rparr>"
  have "StoreSize P s = pos_of (length L)"
    by (simp add: store_is_bytesD(1) [OF P] c length_stored_entries [OF assms(1) long] pos_of_def)
  moreover have "index_at (PartialHash h) (pos_of (length L)) (map_entries L) = map_entries (L @ [(e, sq, h)])"
    using map_entries_snoc [of "(e, sq, h)" L] by simp
  ultimately have "add_hashes P value (h # hs) i = add_hashes P value hs i'"
    by (subst i) (simp add: i'_def HashToFileNum_def Let_def, subst i, simp)
  moreover have "holds U content (L @ [(e, sq, h)]) i'"
    using c long Cons.prems(2) assms(3) unfolding i'_def
    by (subst i) (simp add: holds_def store_is_bytesD(4) [OF P] stored_entries_def)
  ultimately show ?case using Cons.IH [of "L @ [(e, sq, h)]" i'] Cons.prems(2) by simp
qed simp

lemma holds_Add:
  "u64_codec U \<Longrightarrow> store_is_bytes P content \<Longrightarrow> holds U content L i \<Longrightarrow> \<forall>h \<in> set hs. 16 \<le> length h \<Longrightarrow>
    holds U content (L @ map (\<lambda>h. (e, sq, h)) hs) (ix_Add U P e sq hs i)"
  unfolding ix_Add_def Let_def by (rule holds_add_hashes [OF _ _ refl])

subsection \<open>Retrieving\<close>

lemma compareHash_iff:
  "16 \<le> length h \<Longrightarrow> compareHash h p \<longleftrightarrow> 16 \<le> length p \<and> take 16 h = take 16 p"
  by (auto simp: compareHash_def StoreBytes_def list_all_iff list_eq_iff_nth_eq)

lemma place_of_value:
  assumes "0 \<le> e" "e < 2 ^ 32" "0 \<le> s" "s < 2 ^ 31"
  shows "drop_bit 32 (u64_of_int (e * 2 ^ 32 + s)) = u64_of_int e" and "sequence_of (u64_of_int (e * 2 ^ 32 + s)) = s"
proof -
  define v where "v = e * 2 ^ 32 + s"
  have v: "0 \<le> v" "v < 2 ^ 64" using assms by (auto simp: v_def)
  have "uint (drop_bit 32 (u64_of_int v)) = drop_bit 32 v"
    using v by (simp add: u64_of_int_def unsigned_drop_bit_eq uint_word_of_int take_bit_int_eq_self)
  also have "\<dots> = e" using assms by (simp add: v_def drop_bit_eq_div)
  also have "\<dots> = uint (u64_of_int e)"
    using assms by (simp add: u64_of_int_def uint_word_of_int take_bit_int_eq_self)
  finally show "drop_bit 32 (u64_of_int (e * 2 ^ 32 + s)) = u64_of_int e" by (simp add: v_def word_uint_eq_iff)
  have "word_of_int (int_of_u64 (u64_of_int v) * 2 ^ 32) = (word_of_int (v * 2 ^ 32) :: u64)"
    by (simp add: int_of_u64_def u64_of_int_def)
  also have "\<dots> = word_of_int (s * 2 ^ 32)"
  proof -
    have "v * 2 ^ 32 = s * 2 ^ 32 + e * 2 ^ 64" by (simp add: v_def algebra_simps)
    then have "v * 2 ^ 32 mod 2 ^ 64 = s * 2 ^ 32 mod 2 ^ 64" by (simp only: mod_mult_self1)
    then show ?thesis unfolding word_of_int_eq_iff take_bit_eq_mod by simp
  qed
  finally have "wrap64 (int_of_u64 (u64_of_int v) * 2 ^ 32) = wrap64 (s * 2 ^ 32)" by (simp add: wrap64_def)
  also have "\<dots> = s * 2 ^ 32" using assms by (intro wrap64_id) auto
  finally show "sequence_of (u64_of_int (e * 2 ^ 32 + s)) = s" by (simp add: sequence_of_def v_def)
qed

fun place_of :: "entry \<Rightarrow> u64 \<times> int" where
  "place_of (e, s, h) = (u64_of_int e, s)"

definition matching :: "hash \<Rightarrow> entry list \<Rightarrow> entry list" where
  "matching h L = filter (\<lambda>x. take 16 (hash_of x) = take 16 h) L"

fun valid_entry :: "entry \<Rightarrow> bool" where
  "valid_entry (e, s, h) \<longleftrightarrow> 0 \<le> e \<and> e < 2 ^ 32 \<and> 0 \<le> s \<and> s < 2 ^ 31 \<and> 16 \<le> length h"

definition answer :: "entry \<Rightarrow> (u64 \<times> int list) list \<Rightarrow> (u64 \<times> int list) list" where
  "answer x ps = AList.update (fst (place_of x)) [snd (place_of x)] ps"

lemma answers_map: "map_of (fold answer M []) e = map_option (\<lambda>s. [s]) (map_of (rev (map place_of M)) e)"
  by (induction M rule: rev_induct) (auto simp: answer_def update_conv split: prod.splits)

lemma answers_distinct: "distinct (map fst (fold answer M []))"
  by (induction M rule: rev_induct) (simp_all add: answer_def distinct_update)

lemma collect_answers:
  assumes U: "u64_codec U" and P: "store_is_bytes P content" and c: "content s = stored_entries U l L"
    and valid: "list_all valid_entry L" and h: "16 \<le> length h"
  shows "\<forall>n \<in> set ns. n < length L \<Longrightarrow>
    collect U P s h (map pos_of ns) ps = fold answer (matching h (map ((!) L) ns)) ps"
proof (induction ns arbitrary: ps)
  case (Cons n ns)
  have long: "list_all (\<lambda>x. 16 \<le> length (hash_of x)) L" using valid by (auto simp: list_all_iff)
  obtain e sq h' where x: "L ! n = (e, sq, h')" by (cases "L ! n")
  define val where "val = u64_of_int (e * 2 ^ 32 + sq)"
  have "valid_entry (L ! n)" using valid Cons.prems by (simp add: list_all_length)
  then have v: "0 \<le> e" "e < 2 ^ 32" "0 \<le> sq" "sq < 2 ^ 31" "16 \<le> length h'" by (simp_all add: x)
  have place: "drop_bit 32 val = u64_of_int e" "sequence_of val = sq"
    using place_of_value [OF v(1-4)] by (simp_all add: val_def)
  obtain b where "length b = 8" and b: "\<And>d. PutUint64 U val d = d @ b"
    "\<And>d post. ParseUint64 U (d @ b @ post) (int (length d)) = (val, int (length d) + 8)"
    using u64_codecE [OF U, of val] by blast
  have read: "ReadAt P s (pos_of n) (int (StoreBytes + 8)) = take 16 h' @ b"
    using read_entry [OF U P c long, of n] Cons.prems b(1) by (simp add: x StoreBytes_def val_def)
  have parse: "fst (ParseUint64 U (take 16 h' @ b) (int StoreBytes)) = val"
    using b(2) [of "take 16 h'" "[]"] v(5) by (simp add: StoreBytes_def min_absorb2)
  have cmp: "compareHash h (take 16 h' @ b) \<longleftrightarrow> take 16 h' = take 16 h"
    using v(5) by (auto simp: compareHash_iff [OF h])
  have same: "(case m of None \<Rightarrow> AList.update k ([] @ [y]) ps | Some z \<Rightarrow> AList.update k [y] ps) = AList.update k [y] ps"
    for m :: "int list option" and k :: u64 and y by (cases m) simp_all
  have "collect U P s h (map pos_of (n # ns)) ps =
      collect U P s h (map pos_of ns) (if take 16 h' = take 16 h then answer (L ! n) ps else ps)"
    unfolding list.map collect.simps Let_def read parse cmp place same by (simp add: answer_def x)
  also have "\<dots> = fold answer (matching h (map ((!) L) (n # ns))) ps"
    using Cons by (simp add: matching_def x)
  finally show ?case .
qed (simp add: matching_def)

lemma numbered_entries: "map ((!) L) (numbers_of L k) = filter (\<lambda>x. PartialHash (hash_of x) = k) L"
  using filter_map [of "\<lambda>x. PartialHash (hash_of x) = k" "(!) L" "[0..<length L]"]
  by (simp add: map_nth numbers_of_def o_def)

lemma matching_partial: "matching h (filter (\<lambda>x. PartialHash (hash_of x) = PartialHash h) L) = matching h L"
proof -
  have "take 4 a = take 4 b" if "take 16 a = take 16 b" for a b :: hash
    using arg_cong [OF that, of "take 4"] by (simp add: min_def)
  then show ?thesis unfolding matching_def filter_filter PartialHash_def IndexBytes_def by (metis (no_types, lifting))
qed

lemma Retrieve_holds:
  assumes "u64_codec U" and "store_is_bytes P content" and "holds U content L i"
    and "list_all valid_entry L" and "16 \<le> length h"
  shows "ix_Retrieve U P iter h i =
    (if \<exists>x \<in> set L. PartialHash (hash_of x) = PartialHash h
     then Some (let ps = fold answer (matching h L) [] in
       replicate (length ps) None @ map (\<lambda>(epoch, actions). Some \<lparr>qb_Epoch = epoch, qb_Actions = actions\<rparr>) (iter ps))
     else None)"
proof -
  obtain s where i: "i = \<lparr>ix_store = [s], ix_index = [map_entries L], ix_lastEpoch = ix_lastEpoch i\<rparr>"
    and c: "content s = stored_entries U (ix_lastEpoch i) L"
    using assms(3) unfolding holds_def by blast
  let ?ns = "numbers_of L (PartialHash h)"
  have "collect U P s h (map pos_of ?ns) [] = fold answer (matching h L) []"
    using collect_answers [OF assms(1,2) c assms(4,5), of ?ns "[]"]
    by (simp add: numbered_entries matching_partial) (simp add: numbers_of_def)
  moreover have "?ns = [] \<longleftrightarrow> \<not> (\<exists>x \<in> set L. PartialHash (hash_of x) = PartialHash h)"
    by (auto simp: numbers_of_def filter_empty_conv all_set_conv_all_nth)
  ultimately show ?thesis
    by (subst i) (simp add: ix_Retrieve_def HashToFileNum_def map_entries_def Let_def)
qed

section \<open>Properties\<close>

datatype index_op = IndexNext u64 | IndexAdd int int "hash list"

fun ix_apply :: "util \<Rightarrow> 'st bytestore \<Rightarrow> index_op \<Rightarrow> 'st hash_index \<Rightarrow> 'st hash_index" where
  "ix_apply U P (IndexNext epoch) i = ix_NextBlock U P epoch i"
| "ix_apply U P (IndexAdd epoch sequence hashes) i = ix_Add U P epoch sequence hashes i"

fun op_entries :: "index_op \<Rightarrow> entry list" where
  "op_entries (IndexNext epoch) = []"
| "op_entries (IndexAdd epoch sequence hashes) = map (\<lambda>h. (epoch, sequence, h)) hashes"

definition entries_of :: "index_op list \<Rightarrow> entry list" where
  "entries_of ops = concat (map op_entries ops)"

fun last_indexed :: "u64 \<Rightarrow> index_op list \<Rightarrow> u64" where
  "last_indexed l [] = l"
| "last_indexed l (IndexNext epoch # ops) = last_indexed epoch ops"
| "last_indexed l (IndexAdd epoch sequence hashes # ops) = last_indexed l ops"

lemma open_empty:
  assumes "u64_codec U" and "store_is_bytes P content" and "content file = PutUint64 U l []"
  shows "\<exists>i. OpenIndex U P [file] = Inr i \<and> holds U content [] i \<and> ix_lastEpoch i = l"
proof -
  let ?i = "\<lparr>ix_store = [file], ix_index = [Map.empty], ix_lastEpoch = l\<rparr>"
  have "holds U content [] ?i" using assms(3) by (simp add: holds_def stored_entries_def)
  then show ?thesis using open_holds [OF assms(1,2), of "[]" ?i] by auto
qed

lemma epoch_add_hashes [simp]: "ix_lastEpoch (add_hashes P value hs i) = ix_lastEpoch i"
  by (induction hs arbitrary: i) (simp_all add: Let_def)

lemma holds_run:
  assumes "u64_codec U" and "store_is_bytes P content"
  shows "holds U content L i \<Longrightarrow> list_all (\<lambda>x. 16 \<le> length (hash_of x)) (entries_of ops) \<Longrightarrow>
    holds U content (L @ entries_of ops) (fold (ix_apply U P) ops i) \<and>
    ix_lastEpoch (fold (ix_apply U P) ops i) = last_indexed (ix_lastEpoch i) ops"
proof (induction ops arbitrary: L i)
  case (Cons p ops)
  show ?case
  proof (cases p)
    case (IndexNext e)
    then show ?thesis
      using Cons.IH [OF holds_NextBlock [OF assms Cons.prems(1), of e]] Cons.prems(2)
      by (simp add: entries_of_def ix_NextBlock_def Let_def)
  next
    case (IndexAdd e s hs)
    with Cons.prems(2) have "\<forall>h \<in> set hs. 16 \<le> length h"
      by (simp add: entries_of_def list.pred_map comp_def) (simp add: list_all_iff)
    from Cons.IH [OF holds_Add [OF assms Cons.prems(1) this, of e s]] Cons.prems(2) IndexAdd show ?thesis
      by (simp add: entries_of_def ix_Add_def Let_def)
  qed
qed (simp add: entries_of_def)

text \<open>C34: The index in memory and the one on file agree: open an index on a file that holds the eight
  bytes of its last epoch and then any entries, and do any additions and announcements of
  epochs; then opening the file again gives exactly the same index, with the last epoch
  announced. (A new index needs a file in which the eight bytes are already written: nothing here
  writes them before the first addition, and on an empty file the first entry takes their place.)\<close>

theorem index_reopens:
  assumes "u64_codec U" and "store_is_bytes P content" and "content file = stored_entries U l L"
    and "list_all (\<lambda>x. 16 \<le> length (hash_of x)) (L @ entries_of ops)"
  shows "\<exists>i. OpenIndex U P [file] = Inr i \<and> (let j = fold (ix_apply U P) ops i in
    OpenIndex U P (ix_store j) = Inr j \<and> LastIndexedEpoch j = last_indexed l ops)"
proof -
  define i where "i = \<lparr>ix_store = [file], ix_index = [map_entries L], ix_lastEpoch = l\<rparr>"
  have h: "holds U content L i" "list_all (\<lambda>x. 16 \<le> length (hash_of x)) (entries_of ops)"
    using assms(3,4) by (simp_all add: holds_def i_def)
  have i: "OpenIndex U P [file] = Inr i" "ix_lastEpoch i = l"
    using open_holds [OF assms(1,2) h(1)] by (simp_all add: i_def)
  note run = holds_run [OF assms(1,2) h(1,2)]
  show ?thesis
    using i run open_holds [OF assms(1,2) conjunct1 [OF run]] by (simp add: LastIndexedEpoch_def Let_def)
qed

definition demo_hash :: "byte \<Rightarrow> hash" where
  "demo_hash b = replicate 15 0 @ [b]"

definition demo_ops :: "index_op list" where
  "demo_ops = [IndexAdd 3 0 [demo_hash 1, demo_hash 2], IndexNext 3, IndexAdd 3 5 [demo_hash 1], IndexNext 4]"

text \<open>On the header alone, and on a file that has an entry already.\<close>

theorem index_reopens_witness:
  "(\<exists>i. OpenIndex demo_util demo_store [PutUint64 demo_util 0 []] = Inr i \<and>
    (let j = fold (ix_apply demo_util demo_store) demo_ops i in
     OpenIndex demo_util demo_store (ix_store j) = Inr j \<and> LastIndexedEpoch j = 4)) \<and>
   (\<exists>i. OpenIndex demo_util demo_store [stored_entries demo_util 2 [(1, 0, demo_hash 9)]] = Inr i \<and>
    (let j = fold (ix_apply demo_util demo_store) demo_ops i in
     OpenIndex demo_util demo_store (ix_store j) = Inr j \<and> LastIndexedEpoch j = 4))"
  using index_reopens [OF demo_u64_codec demo_store_is_bytes, of "PutUint64 demo_util 0 []" 0 "[]" demo_ops]
    index_reopens [OF demo_u64_codec demo_store_is_bytes refl, of "[(1, 0, demo_hash 9)]" demo_ops 2]
  by (simp add: demo_ops_def demo_hash_def entries_of_def stored_entries_def)

text \<open>C35: What the index finds for a hash: nothing where no hash with the same first four bytes was added;
  otherwise, for every epoch in which a hash with the same first 16 bytes was added, only the last
  sequence added for it, in any order, and before them as many nil pointers as there are such epochs.\<close>

theorem index_retrieve:
  assumes "u64_codec U" and "store_is_bytes P content" and "content file = PutUint64 U l []"
    and "list_all valid_entry (entries_of ops)" and "16 \<le> length h" and "\<And>ps. mset (iter ps) = mset ps"
  shows "\<exists>i qs. OpenIndex U P [file] = Inr i \<and>
    ix_Retrieve U P iter h (fold (ix_apply U P) ops i) =
      (if \<exists>x \<in> set (entries_of ops). PartialHash (hash_of x) = PartialHash h
       then Some (replicate (length qs) None @ map Some qs) else None) \<and>
    distinct (map qb_Epoch qs) \<and>
    (\<forall>e. map_of (map (\<lambda>q. (qb_Epoch q, qb_Actions q)) qs) e =
       map_option (\<lambda>s. [s]) (map_of (rev (map place_of (matching h (entries_of ops)))) e))"
proof -
  let ?L = "entries_of ops" and ?q = "\<lambda>(epoch, actions). \<lparr>qb_Epoch = epoch, qb_Actions = actions\<rparr> :: query_block"
  define ps where "ps = fold answer (matching h ?L) []"
  define qs where "qs = map ?q (iter ps)"
  obtain i where i: "OpenIndex U P [file] = Inr i" "holds U content [] i" "ix_lastEpoch i = l"
    using open_empty [OF assms(1-3)] by blast
  have "list_all (\<lambda>x. 16 \<le> length (hash_of x)) ?L" using assms(4) by (auto simp: list_all_iff)
  from holds_run [OF assms(1,2) i(2) this] have h': "holds U content ?L (fold (ix_apply U P) ops i)" by simp
  have fst_q: "map qb_Epoch qs = map fst (iter ps)" "map (\<lambda>q. (qb_Epoch q, qb_Actions q)) qs = iter ps"
    by (simp_all add: qs_def case_prod_unfold comp_def)
  have d: "distinct (map fst ps)" unfolding ps_def by (rule answers_distinct)
  have m: "mset (map fst (iter ps)) = mset (map fst ps)" using assms(6) by simp
  with d have d': "distinct (map fst (iter ps))" using mset_eq_imp_distinct_iff by metis
  have "map_of (iter ps) = map_of ps"
    using d d' assms(6) by (metis map_of_inject_set set_mset_mset)
  moreover have "length qs = length ps"
    using assms(6) by (metis qs_def length_map size_mset)
  ultimately show ?thesis
    using i(1) Retrieve_holds [OF assms(1,2) h' assms(4,5), of iter] d'
    by (intro exI [where x = i] exI [where x = qs])
      (simp add: fst_q answers_map flip: ps_def, simp add: ps_def answers_map Let_def qs_def comp_def case_prod_unfold)
qed

theorem index_retrieve_witness:
  "\<exists>i qs. OpenIndex demo_util demo_store [PutUint64 demo_util 0 []] = Inr i \<and>
    ix_Retrieve demo_util demo_store rev (demo_hash 1) (fold (ix_apply demo_util demo_store) demo_ops i) =
      Some (replicate (length qs) None @ map Some qs) \<and>
    map_of (map (\<lambda>q. (qb_Epoch q, qb_Actions q)) qs) (u64_of_int 3) = Some [5]"
proof -
  have "list_all valid_entry (entries_of demo_ops)" "16 \<le> length (demo_hash 1)"
    by (simp_all add: demo_ops_def demo_hash_def entries_of_def)
  from index_retrieve [OF demo_u64_codec demo_store_is_bytes refl this mset_rev, of 0]
  obtain i qs where i: "OpenIndex demo_util demo_store [PutUint64 demo_util 0 []] = Inr i"
    and r: "ix_Retrieve demo_util demo_store rev (demo_hash 1) (fold (ix_apply demo_util demo_store) demo_ops i) =
      (if \<exists>x \<in> set (entries_of demo_ops). PartialHash (hash_of x) = PartialHash (demo_hash 1)
       then Some (replicate (length qs) None @ map Some qs) else None)"
    and m: "\<And>e. map_of (map (\<lambda>q. (qb_Epoch q, qb_Actions q)) qs) e =
      map_option (\<lambda>s. [s]) (map_of (rev (map place_of (matching (demo_hash 1) (entries_of demo_ops)))) e)"
    by blast
  have "\<exists>x \<in> set (entries_of demo_ops). PartialHash (hash_of x) = PartialHash (demo_hash 1)"
    by (simp add: demo_ops_def entries_of_def)
  with r have "ix_Retrieve demo_util demo_store rev (demo_hash 1) (fold (ix_apply demo_util demo_store) demo_ops i) =
      Some (replicate (length qs) None @ map Some qs)" by (simp only: if_True)
  moreover have "map_of (rev (map place_of (matching (demo_hash 1) (entries_of demo_ops)))) (u64_of_int 3) = Some 5"
    by (simp add: demo_ops_def demo_hash_def entries_of_def matching_def)
  ultimately show ?thesis using i m [of "u64_of_int 3"] by (intro exI conjI) simp_all
qed

end
