(* ===== verification/Index_Node.thy ===== *)
theory Index_Node
  imports Index Relay
begin

text \<open>
  \<open>index/db.go\<close>: a node that keeps a hash index and a \<open>Blockchain\<close> up to date with its source
  and passes the actions on. \<open>db_step\<close> is the goroutine that reads from the source, on the index
  and the chain it shares; \<open>db_pool\<close> is the one that broadcasts. The loop that accepts
  connections is in \<open>Accept\<close>.
\<close>

record ('x, 'st) db_env =
  db_relay :: "'x relay_env"
  db_store :: "'st bytestore"

type_synonym ('x, 'st) db = "'st hash_index \<times> 'x blockchain"

definition db_step :: "('x, 'st) db_env \<Rightarrow> ('x, 'st) db \<Rightarrow> read_event \<Rightarrow> (('x, 'st) db, relay_out) reaction" where
  "db_step D s ev =
     (case s of (index, chain) \<Rightarrow>
      let R = db_relay D
      in case ev of
        ReadError \<Rightarrow> Return [RelayFinal]
      | Read [] \<Rightarrow> Crash IndexPanic []
      | Read (k # action) \<Rightarrow>
          let data = k # action
          in if k = topos_MsgBlock then
               (if int (length data) = 1 + 8 + HashSize (re_crypto R) then
                  (let epoch = fst (ParseUint64 (re_util R) data 1)
                   in Continue (ix_NextBlock (re_util R) (db_store D) epoch index, chain) [])
                else Continue (index, chain) [])
             else if k = topos_MsgAction then
               (if length data > 1 then
                  (case bc_Append (re_state R) action chain of
                     Inl h \<Rightarrow> Crash h []
                   | Inr (Some err, chain') \<Rightarrow> Continue (index, chain') []
                   | Inr (None, chain') \<Rightarrow> Continue (index, chain') [ToPool data])
                else Continue (index, chain) [])
             else Continue (index, chain) [])"

definition NewDB ::
  "('x, 'st) db_env \<Rightarrow> bool \<Rightarrow> bool \<Rightarrow> bool \<Rightarrow> read_event list \<Rightarrow> ('x, 'st) db \<Rightarrow> relay_out list \<times> ('x, 'st) db outcome" where
  "NewDB D listening dialed request_sent reads s =
     (if \<not> listening \<or> \<not> dialed then ([RelayFinal], Returned)
      else
        let req = RelayConn (Send (topos_NewSyncRequest (re_util (db_relay D)) (ix_lastEpoch (fst s))))
        in if \<not> request_sent then ([req, RelayFinal], Returned)
           else (case react (db_step D) s reads of (os, r) \<Rightarrow> (req # os, r)))"

definition db_pool :: "('x, 'st) db_env \<Rightarrow> 'x blockchain \<Rightarrow> relay_pool_in \<Rightarrow> (unit, relay_pool_out) reaction" where
  "db_pool D chain ev =
     (case ev of
        SyncRequested t epoch \<Rightarrow>
          Continue () [PoolSync t (bc_Sync (re_util (db_relay D)) (re_crypto (db_relay D)) chain epoch)]
      | NilRequest \<Rightarrow> Return []
      | PoolMsg data \<Rightarrow> Continue () [PoolBroadcast ([topos_MsgBlock] @ data)])"

section \<open>What the node indexes\<close>

lemma db_step_index:
  assumes "u64_codec (re_util (db_relay D))" and "store_is_bytes (db_store D) content"
    and "holds (re_util (db_relay D)) content L (fst s)" and "db_step D s ev = Continue s' os"
  shows "holds (re_util (db_relay D)) content L (fst s')"
  using assms(3,4) holds_NextBlock [OF assms(1,2)]
  by (auto simp: db_step_def Let_def split: prod.splits read_event.splits list.splits if_splits sum.splits option.splits)

fun forwarded :: "relay_out \<Rightarrow> bool" where
  "forwarded (ToPool data) \<longleftrightarrow> (\<exists>action. data = topos_MsgAction # action)"
| "forwarded _ \<longleftrightarrow> True"

lemma db_step_forwards: "x \<in> set (sent (db_step D s ev)) \<Longrightarrow> forwarded x"
  by (auto simp: db_step_def Let_def split: prod.splits read_event.splits list.splits if_splits sum.splits option.splits)

text \<open>The index a node of this environment may work on: one that holds the entries \<open>L\<close>.\<close>

definition db_holds :: "('x, 'st) db_env \<Rightarrow> ('st \<Rightarrow> bytes) \<Rightarrow> entry list \<Rightarrow> ('x, 'st) db \<Rightarrow> bool" where
  "db_holds D content L s \<longleftrightarrow> u64_codec (re_util (db_relay D)) \<and> store_is_bytes (db_store D) content \<and>
     holds (re_util (db_relay D)) content L (fst s)"

interpretation db: message_loop "db_step D" "db_holds D content L" "\<lambda>_. True" forwarded for D content L
proof unfold_locales
  fix s s' :: "('a, 'b) db" and e os
  assume "db_holds D content L s" "db_step D s e = Continue s' os"
  then show "db_holds D content L s'" using db_step_index unfolding db_holds_def by blast
qed (rule db_step_forwards)

lemma ix_index_holds: "holds U content L i \<Longrightarrow> ix_index i = [map_entries L]"
  unfolding holds_def by (metis hash_index.select_convs(2))

text \<open>The node never indexes an action: whatever its source sends, the index holds the entries it had
  when the node started, so that a node started on an empty index finds nothing for any hash.\<close>

lemma db_indexes_nothing:
  assumes "u64_codec (re_util (db_relay D))" and "store_is_bytes (db_store D) content"
    and "holds (re_util (db_relay D)) content L i"
    and "react (db_step D) (i, chain) reads = (os, Running (j, chain'))"
  shows "holds (re_util (db_relay D)) content L j \<and> ix_index j = ix_index i \<and>
    (L = [] \<longrightarrow> ix_Retrieve U P iter h j = None)"
proof -
  have "db_holds D content L (i, chain)" using assms(1-3) by (simp add: db_holds_def)
  from db.react_inv [OF this _ assms(4)] have j: "holds (re_util (db_relay D)) content L j"
    by (simp add: db_holds_def list_all_iff)
  then have "ix_index j = ix_index i" using assms(3) by (simp add: ix_index_holds)
  moreover have "ix_Retrieve U P iter h j = None" if "L = []"
    using ix_index_holds [OF j] that by (simp add: ix_Retrieve_def HashToFileNum_def)
  ultimately show ?thesis using j by blast
qed

definition demo_db :: "(unit, bytes) db_env" where
  "demo_db = \<lparr>db_relay = demo_relay, db_store = demo_store\<rparr>"

lemma db_indexes_nothing_example:
  "\<exists>j chain'. react (db_step demo_db) (\<lparr>ix_store = [PutUint64 demo_util 0 []], ix_index = [Map.empty], ix_lastEpoch = 0\<rparr>, demo_blockchain)
      [Read [1, 7, 8], Read ([0] @ PutUint64 demo_util 1 [] @ [0, 0])] = ([ToPool [1, 7, 8]], Running (j, chain')) \<and>
    ix_Retrieve demo_util demo_store rev (demo_hash 1) j = None"
proof -
  let ?i = "\<lparr>ix_store = [PutUint64 demo_util 0 []], ix_index = [Map.empty], ix_lastEpoch = 0\<rparr>"
  let ?reads = "[Read [1, 7, 8], Read ([0] @ PutUint64 demo_util 1 [] @ [0, 0])]"
  have env: "re_util (db_relay demo_db) = demo_util" "db_store demo_db = demo_store"
    by (simp_all add: demo_db_def demo_relay_def)
  have "\<exists>j chain'. react (db_step demo_db) (?i, demo_blockchain) ?reads = ([ToPool [1, 7, 8]], Running (j, chain'))"
    by (simp add: db_step_def topos_msgs bc_Append_def bc_lock_def bc_unlock_def deref_def demo_blockchain_def
        demo_db_def demo_relay_def demo_crypto_def length_put [OF demo_u64_codec] Let_def)
  then obtain j chain' where run: "react (db_step demo_db) (?i, demo_blockchain) ?reads = ([ToPool [1, 7, 8]], Running (j, chain'))"
    by blast
  have "holds demo_util (\<lambda>s. s) [] ?i" by (simp add: holds_def stored_entries_def)
  then have "ix_Retrieve demo_util demo_store rev (demo_hash 1) j = None"
    using db_indexes_nothing [of demo_db "\<lambda>s. s" "[]", OF _ _ _ run] by (simp add: env demo_u64_codec demo_store_is_bytes)
  with run show ?thesis by blast
qed

end
