(* ===== verification/Opened_Chain.thy ===== *)
theory Opened_Chain
  imports Relay Index_Node
begin

text \<open>
  The nodes that are given a \<open>Blockchain\<close> to keep up to date, \<open>NewRelay\<close> (\<open>topos/relay.go\<close>) and
  \<open>NewDB\<close> (\<open>index/db.go\<close>), on the chains there are. \<open>OpenFSBlockchain\<close> is the only function that
  makes a \<open>Blockchain\<close>, whose fields are private to its package, so \<open>chain_made\<close> are the chains a
  program can have: opened from a file, and then whatever its methods have left of it.
\<close>

inductive chain_made :: "util \<Rightarrow> crypto \<Rightarrow> 'x protocol_state \<Rightarrow> 'x blockchain \<Rightarrow> bool" for U C S where
  opened: "OpenFSBlockchain U path strict = Some (Inr b) \<Longrightarrow> chain_made U C S b"
| appended: "chain_made U C S b \<Longrightarrow> bc_Append S a b = Inr (err, b') \<Longrightarrow> chain_made U C S b'"
| advanced: "chain_made U C S b \<Longrightarrow> bc_NextBlock U C S e h b = Inr (err, b') \<Longrightarrow> chain_made U C S b'"
| updated: "chain_made U C S b \<Longrightarrow> bc_UpdateState U S x b = Some (Inr (err, b')) \<Longrightarrow> chain_made U C S b'"
| closed: "chain_made U C S b \<Longrightarrow> chain_made U C S (bc_Close b)"

lemma OpenFS_opened:
  "OpenFSBlockchain U path strict = Some (Inr b) \<Longrightarrow> \<exists>content blocks. b = opened_chain content strict blocks"
  by (auto simp: OpenFSBlockchain_def opened_chain_def open_file_def Let_def split: option.splits sum.splits)

lemma chain_made_opened:
  "chain_made U C S b \<Longrightarrow> \<exists>content strict blocks. b = opened_chain content strict blocks"
proof (induction rule: chain_made.induct)
  case (opened path strict b)
  then show ?case using OpenFS_opened by blast
next
  case (closed b)
  then show ?case by (auto simp: opened_chain_def bc_Close_def)
qed (use opened_chain_unusable [of U C S] in \<open>auto simp: unusable_def\<close>)

text \<open>A message that an index node survives without a call of \<open>Append\<close>.\<close>

definition quiet_read :: "read_event \<Rightarrow> bool" where
  "quiet_read ev \<longleftrightarrow> (\<exists>data. ev = Read data \<and> data \<noteq> [] \<and> (hd data = topos_MsgAction \<longrightarrow> length data = 1))"

lemma db_step_quiet:
  assumes "quiet_read ev"
  shows "\<exists>j. db_step D (i, chain) ev = Continue (j, chain) []"
  using assms by (auto simp: quiet_read_def db_step_def Let_def neq_Nil_conv)

lemma db_quiet:
  "list_all quiet_read pre \<Longrightarrow> \<exists>j. react (db_step D) (i, chain) (pre @ rest) = react (db_step D) (j, chain) rest"
proof (induction pre arbitrary: i)
  case (Cons ev pre)
  then obtain j where "db_step D (i, chain) ev = Continue (j, chain) []" using db_step_quiet by fastforce
  with Cons.IH [of j] Cons.prems show ?case by (auto simp: case_prod_unfold)
qed auto

section \<open>Properties\<close>



end
