(* ===== verification/Block_Listener.thy ===== *)
theory Block_Listener
  imports Blocks
begin

text \<open>
  The listener of \<open>blocks/blocks.go\<close> over any sequence of messages, malformed ones included: what
  the log holds when it starts stays readable, whatever it is sent.
\<close>

definition keeps :: "('st, 'a) chain_env \<Rightarrow> ('st \<Rightarrow> bytes) \<Rightarrow> bytes list \<Rightarrow> ('st, 'a) chain_store \<Rightarrow> bool" where
  "keeps V content ds s \<longleftrightarrow> store_is_bytes (ce_store V) content \<and> length ds \<le> length (cs_Blocks s) \<and>
     list_all2 (stored_at (ce_util V) content (cs_Storage s)) (take (length ds) (cs_Blocks s)) ds"

lemma keeps_cong:
  "cs_Blocks s' = cs_Blocks s \<Longrightarrow> cs_Storage s' = cs_Storage s \<Longrightarrow> keeps V content ds s \<Longrightarrow> keeps V content ds s'"
  by (simp add: keeps_def)

lemma AppendBlock_keeps:
  assumes "cs_AppendBlock V c s = Inr s'" and "keeps V content ds s"
  shows "keeps V content ds s'"
proof -
  have P: "store_is_bytes (ce_store V) content" and n: "length ds \<le> length (cs_Blocks s)"
    and ds: "list_all2 (stored_at (ce_util V) content (cs_Storage s)) (take (length ds) (cs_Blocks s)) ds"
    using assms(2) by (simp_all add: keeps_def)
  let ?k = "length (cs_Storage s) - 1"
  have last_store: "nat (int m - 1) = m - Suc 0" for m by arith
  obtain p where s': "cs_Blocks s' = cs_Blocks s @ [p]"
    "cs_Storage s' = (cs_Storage s)[?k := AppendBytes (ce_store V) (cs_Storage s ! ?k) (prependSize (ce_util V) (SerializeCommitBlock (ce_breeze V) c))]"
    using assms(1) by (auto simp: cs_AppendBlock_def go_bind_Inr_conv go_index_def Let_def last_store split: if_splits)
  have "list_all2 (stored_at (ce_util V) content (cs_Storage s')) (take (length ds) (cs_Blocks s)) ds"
    using ds unfolding s'(2) by (rule list_all2_mono) (rule stored_at_append [OF P])
  then show ?thesis using P n by (simp add: keeps_def s'(1))
qed

lemma Commit_keeps: "cs_Commit V epoch commit s = Inr s' \<Longrightarrow> keeps V content ds s \<Longrightarrow> keeps V content ds s'"
  using AppendBlock_keeps [of V _ "s\<lparr>cs_Sealed := remove_first (\<lambda>r. bh_Epoch (kb_Header r) = epoch) (cs_Sealed s)\<rparr>" s']
    keeps_cong [of "s\<lparr>cs_Sealed := remove_first (\<lambda>r. bh_Epoch (kb_Header r) = epoch) (cs_Sealed s)\<rparr>" s]
  by (auto simp: cs_Commit_def split: option.splits)

lemma Action_same: "cs_Action V a s = Inr s' \<Longrightarrow> cs_Blocks s' = cs_Blocks s \<and> cs_Storage s' = cs_Storage s"
  by (auto simp: cs_Action_def split: option.splits)

lemma Seal_same: "cs_Seal epoch seal s = Inr s' \<Longrightarrow> cs_Blocks s' = cs_Blocks s \<and> cs_Storage s' = cs_Storage s"
  by (auto simp: cs_Seal_def Let_def split: option.splits if_splits)

lemma New_same: "cs_Blocks (cs_New V h s) = cs_Blocks s \<and> cs_Storage (cs_New V h s) = cs_Storage s"
  by (simp add: cs_New_def split: option.splits)

lemma lift_go_Continue: "lift_go r = Continue s os \<longleftrightarrow> r = Inr s \<and> os = []"
  by (auto simp: lift_go_def split: sum.splits)

lemma blocks_step_keeps:
  assumes "keeps V content ds s" and "blocks_step V s ev = Continue s' os"
  shows "keeps V content ds s'"
proof -
  have same: "keeps V content ds t" if "cs_Blocks t = cs_Blocks s" "cs_Storage t = cs_Storage s" for t
    using that assms(1) by (rule keeps_cong)
  have ops: "keeps V content ds (cs_New V h s)"
    "cs_Action V a s = Inr t \<Longrightarrow> keeps V content ds t" "cs_Seal e seal s = Inr t \<Longrightarrow> keeps V content ds t"
    "cs_Commit V e commit s = Inr t \<Longrightarrow> keeps V content ds t" "cs_AppendBlock V c s = Inr t \<Longrightarrow> keeps V content ds t"
    "keeps V content ds (s\<lparr>cs_Sealed := l\<rparr>)"
    for h a t e seal commit c l
    by (simp_all add: same New_same Commit_keeps [OF _ assms(1)] AppendBlock_keeps [OF _ assms(1)])
      (metis same Action_same, metis same Seal_same)
  show ?thesis
    using assms by (auto simp: blocks_step_def Let_def lift_go_Continue intro: ops
        split: read_event.splits list.splits if_splits option.splits)
qed

interpretation listener_log: message_loop "blocks_step V" "keeps V content ds" "\<lambda>_. True" "\<lambda>_. True" for V content ds
  by unfold_locales (auto intro: blocks_step_keeps)

text \<open>C32: Nothing that a node sends can make the listener lose or change a stored block: after any sequence of
  messages, malformed and unexpected ones included, every block that was stored before is read as
  before.\<close>

theorem listener_keeps_blocks:
  assumes "u32_codec (ce_util V)" and "store_is_bytes (ce_store V) content"
    and "list_all2 (stored_at (ce_util V) content (cs_Storage s)) (cs_Blocks s) ds"
    and "react (blocks_step V) s reads = (os, Running s')" and "n < length ds"
  shows "cs_GetBlock V s' (int n) = Inr (Some (ds ! n)) \<and> cs_GetBlock V s (int n) = Inr (Some (ds ! n))"
proof -
  have "keeps V content ds s" using assms(2,3) by (simp add: keeps_def list_all2_lengthD)
  from listener_log.react_inv [OF this _ assms(4)] have k: "keeps V content ds s'" by (simp add: list_all_iff)
  let ?s = "s'\<lparr>cs_Blocks := take (length ds) (cs_Blocks s')\<rparr>"
  have "cs_GetBlock V ?s (int n) = Inr (Some (ds ! n))"
    using k stored_get [OF assms(1,2), of ?s ds] assms(5) by (simp add: keeps_def)
  moreover have "cs_GetBlock V ?s (int n) = cs_GetBlock V s' (int n)"
    using k assms(5) by (simp add: cs_GetBlock_def keeps_def)
  ultimately show ?thesis using stored_get [OF assms(1,2,3,5)] by simp
qed

theorem listener_keeps_blocks_witness:
  "\<exists>os s'. react (blocks_step demo_chain_env) demo_one_block [Read [0], Read [0, 1], Read [1, 9], Read [4, 4], Read [7, 2, 5]] = (os, Running s') \<and>
    cs_GetBlock demo_chain_env s' 0 = Inr (Some [1, 7])"
proof -
  have ds: "list_all2 (stored_at (ce_util demo_chain_env) (\<lambda>s. s) (cs_Storage demo_one_block)) (cs_Blocks demo_one_block) [[1, 7]]"
    by (auto simp: stored_at_def demo_one_block_def demo_chain_env_def intro: exI [where x = "[]"])
  have P: "u32_codec (ce_util demo_chain_env)" "store_is_bytes (ce_store demo_chain_env) (\<lambda>s. s)"
    by (simp_all add: demo_chain_env_def demo_u32_codec demo_store_is_bytes)
  have "\<exists>os s'. react (blocks_step demo_chain_env) demo_one_block [Read [0], Read [0, 1], Read [1, 9], Read [4, 4], Read [7, 2, 5]] = (os, Running s')"
    by (simp add: blocks_step_def demo_chain_env_def demo_msg_def demo_breeze_def cs_New_def cs_Action_def lift_go_def
        demo_one_block_def demo_empty_store_def cs_AppendBlock_def go_index_def Let_def)
  then obtain os s' where run: "react (blocks_step demo_chain_env) demo_one_block [Read [0], Read [0, 1], Read [1, 9], Read [4, 4], Read [7, 2, 5]] = (os, Running s')"
    by blast
  from listener_keeps_blocks [OF P ds run, of 0] run show ?thesis by auto
qed

end
