(* ===== verification/Index_Query.thy ===== *)
theory Index_Query
  imports Index
begin

text \<open>
  The answer of the index (\<open>index/index.go\<close>) as the data of a query (\<open>blocks/job.go\<close>): \<open>Retrieve\<close>
  gives the list of query blocks that \<open>ExecuteQuery\<close> takes.
\<close>

definition query_of :: "query_block option list option \<Rightarrow> bool \<Rightarrow> (u32 \<Rightarrow> bool) \<Rightarrow> query" where
  "query_of found by_protocol keep =
     \<lparr>q_Data = (case found of None \<Rightarrow> [] | Some data \<Rightarrow> data), q_FilterProtocol = by_protocol, q_FilterFunc = keep\<rparr>"

lemma answers_empty: "fold answer M [] = [] \<longleftrightarrow> M = []"
  by (cases M rule: rev_cases) (auto simp: answer_def dest: arg_cong [where f = map_of] simp: update_conv fun_upd_def)

text \<open>A list of items after as many nil pointers.\<close>

lemma execute_nils:
  "length qs = n \<Longrightarrow> ExecuteQuery V s (query_of (Some (replicate n None @ map Some qs)) p keep) ok =
     ([], if n = 0 then QueryDone else QueryPanic NilPanic)"
  by (cases n) (simp_all add: ExecuteQuery_def query_of_def)

text \<open>C36: A query made from what the index retrieves never sends an action: where a hash with the same 16 bytes
  was added the query panics at once on a nil pointer, and otherwise it has nothing to look for.\<close>

theorem retrieved_query_panics:
  assumes "u64_codec U" and "store_is_bytes P content" and "content file = PutUint64 U l []"
    and "list_all valid_entry (entries_of ops)" and "16 \<le> length h" and "\<And>ps. mset (iter ps) = mset ps"
  shows "\<exists>i. OpenIndex U P [file] = Inr i \<and>
    ExecuteQuery V s (query_of (ix_Retrieve U P iter h (fold (ix_apply U P) ops i)) by_protocol keep) ok =
      ([], if matching h (entries_of ops) = [] then QueryDone else QueryPanic NilPanic)"
proof -
  let ?L = "entries_of ops"
  let ?q = "\<lambda>(epoch, actions). \<lparr>qb_Epoch = epoch, qb_Actions = actions\<rparr> :: query_block"
  define ps where "ps = fold answer (matching h ?L) []"
  obtain i where i: "OpenIndex U P [file] = Inr i" "holds U content [] i"
    using open_empty [OF assms(1-3)] by blast
  have "list_all (\<lambda>x. 16 \<le> length (hash_of x)) ?L" using assms(4) by (auto simp: list_all_iff)
  from holds_run [OF assms(1,2) i(2) this] have h': "holds U content ?L (fold (ix_apply U P) ops i)" by simp
  have r: "ix_Retrieve U P iter h (fold (ix_apply U P) ops i) =
      (if \<exists>x \<in> set ?L. PartialHash (hash_of x) = PartialHash h
       then Some (replicate (length ps) None @ map Some (map ?q (iter ps))) else None)"
    using Retrieve_holds [OF assms(1,2) h' assms(4,5), of iter]
    by (simp add: ps_def Let_def comp_def case_prod_unfold)
  have "length (map ?q (iter ps)) = length ps" using mset_eq_length [OF assms(6), of ps] by simp
  note nils = execute_nils [OF this, of V s by_protocol keep ok]
  moreover have empty: "ps = [] \<longleftrightarrow> matching h ?L = []" by (simp add: ps_def answers_empty)
  moreover have "matching h ?L = []" if "\<not> (\<exists>x \<in> set ?L. PartialHash (hash_of x) = PartialHash h)"
  proof -
    have "filter (\<lambda>x. PartialHash (hash_of x) = PartialHash h) ?L = []" using that by (simp add: filter_empty_conv)
    then show ?thesis using matching_partial [of h ?L] by (simp add: matching_def)
  qed
  ultimately have "ExecuteQuery V s (query_of (ix_Retrieve U P iter h (fold (ix_apply U P) ops i)) by_protocol keep) ok =
      ([], if matching h ?L = [] then QueryDone else QueryPanic NilPanic)"
    unfolding r by (auto simp: ExecuteQuery_def query_of_def)
  with i(1) show ?thesis by blast
qed

theorem retrieved_query_panics_witness:
  "\<exists>i. OpenIndex demo_util demo_store [PutUint64 demo_util 0 []] = Inr i \<and>
    ExecuteQuery demo_chain_env demo_two_actions
      (query_of (ix_Retrieve demo_util demo_store rev (demo_hash 1) (fold (ix_apply demo_util demo_store) demo_ops i)) True (\<lambda>p. True)) (\<lambda>n. True) =
      ([], QueryPanic NilPanic)"
proof -
  have "list_all valid_entry (entries_of demo_ops)" "16 \<le> length (demo_hash 1)"
    by (simp_all add: demo_ops_def demo_hash_def entries_of_def)
  moreover have "matching (demo_hash 1) (entries_of demo_ops) \<noteq> []"
    by (simp add: demo_ops_def demo_hash_def entries_of_def matching_def)
  ultimately show ?thesis
    using retrieved_query_panics [OF demo_u64_codec demo_store_is_bytes refl _ _ mset_rev, of demo_ops "demo_hash 1" 0
        demo_chain_env demo_two_actions True "\<lambda>p. True" "\<lambda>n. True"]
    by (simp only: if_False simp_thms)
qed

end
