(* ===== verification/Accept.thy ===== *)
theory Accept
  imports Index_Node Provider Poa Node Gateway
begin

text \<open>
  The loops that accept connections: of \<open>social/node.go\<close>, \<open>topos/blockstore.go\<close>, \<open>topos/gateway.go\<close>,
  \<open>topos/poa.go\<close>, \<open>topos/relay.go\<close> and \<open>index/db.go\<close>. What \<open>Accept\<close> and \<open>socket.PromoteConnection\<close>
  give is the input: an error, or a connection with its token, where \<open>None\<close> means that it could
  not be promoted, in which case the trusted connection is nil.
\<close>

datatype accept_event = AcceptError | Accepted "token option"

datatype accept_out =
    RejectConn                \<comment> \<open>\<open>conn.Close()\<close>\<close>
  | Serve "token option"      \<comment> \<open>what is done with a trusted connection, which may be nil\<close>
  | AcceptFinal               \<comment> \<open>\<open>finalize <- err\<close>\<close>

definition gateway_accept :: "unit \<Rightarrow> accept_event \<Rightarrow> (unit, accept_out) reaction" where
  "gateway_accept s ev =
     (case ev of
        AcceptError \<Rightarrow> Return []
      | Accepted conn \<Rightarrow> (case conn of None \<Rightarrow> Continue () [RejectConn] | Some t \<Rightarrow> Continue () [Serve (Some t)]))"

definition relay_accept :: "unit \<Rightarrow> accept_event \<Rightarrow> (unit, accept_out) reaction" where
  "relay_accept s ev =
     (case ev of
        AcceptError \<Rightarrow> Return []
      | Accepted conn \<Rightarrow> (case conn of None \<Rightarrow> Continue () [RejectConn] | Some t \<Rightarrow> Continue () [Serve (Some t)]))"

definition db_accept :: "unit \<Rightarrow> accept_event \<Rightarrow> (unit, accept_out) reaction" where
  "db_accept s ev =
     (case ev of
        AcceptError \<Rightarrow> Return []
      | Accepted conn \<Rightarrow> (case conn of None \<Rightarrow> Continue () [RejectConn] | Some t \<Rightarrow> Continue () [Serve (Some t)]))"

definition provider_accept :: "unit \<Rightarrow> accept_event \<Rightarrow> (unit, accept_out) reaction" where
  "provider_accept s ev =
     (case ev of
        AcceptError \<Rightarrow> Return [AcceptFinal]
      | Accepted conn \<Rightarrow> (case conn of None \<Rightarrow> Continue () [RejectConn] | Some t \<Rightarrow> Continue () [Serve (Some t)]))"

text \<open>
  \<open>NewBlockProvider\<close>: the same loop; the channel returned is nil once it listens, and holds the
  error where it cannot.
\<close>

definition NewBlockProvider :: "bool \<Rightarrow> accept_event list \<Rightarrow> accept_out list option \<times> accept_out list \<times> unit outcome" where
  "NewBlockProvider listening events =
     (if \<not> listening then (Some [AcceptFinal], [], Returned)
      else case react provider_accept () events of (os, r) \<Rightarrow> (None, os, r))"

text \<open>
  The loops of the single authority and of the node: an error is ignored and the loop goes on, and a
  connection that could not be promoted is closed and handed on all the same.
\<close>

definition poa_incoming_accept :: "unit \<Rightarrow> accept_event \<Rightarrow> (unit, accept_out) reaction" where
  "poa_incoming_accept s ev =
     (case ev of
        AcceptError \<Rightarrow> Continue () []
      | Accepted trusted \<Rightarrow> Continue () ((if trusted = None then [RejectConn] else []) @ [Serve trusted]))"

definition poa_outgoing_accept :: "unit \<Rightarrow> accept_event \<Rightarrow> (unit, accept_out) reaction" where
  "poa_outgoing_accept s ev =
     (case ev of
        AcceptError \<Rightarrow> Continue () []
      | Accepted trusted \<Rightarrow> Continue () ((if trusted = None then [RejectConn] else []) @ [Serve trusted]))"

definition node_accept :: "unit \<Rightarrow> accept_event \<Rightarrow> (unit, accept_out) reaction" where
  "node_accept s ev =
     (case ev of
        AcceptError \<Rightarrow> Continue () []
      | Accepted trusted \<Rightarrow> Continue () ((if trusted = None then [RejectConn] else []) @ [Serve trusted]))"

section \<open>What is served\<close>

fun connections :: "accept_event list \<Rightarrow> token option list" where
  "connections [] = []"
| "connections (AcceptError # es) = connections es"
| "connections (Accepted t # es) = t # connections es"

fun served :: "accept_out list \<Rightarrow> token option list" where
  "served [] = []"
| "served (Serve t # os) = t # served os"
| "served (_ # os) = served os"

lemma served_append [simp]: "served (xs @ ys) = served xs @ served ys"
  by (induction xs rule: served.induct) simp_all

definition accepted :: "accept_event \<Rightarrow> bool" where
  "accepted ev \<longleftrightarrow> ev \<noteq> AcceptError"

text \<open>The loops that end at the first error serve the connections promoted before it.\<close>

lemma careful_accept:
  assumes "\<And>s ev. step s ev = (case ev of AcceptError \<Rightarrow> Return errs
      | Accepted conn \<Rightarrow> (case conn of None \<Rightarrow> Continue () [RejectConn] | Some t \<Rightarrow> Continue () [Serve (Some t)]))"
    and "served errs = []"
  shows "served (fst (react step () events)) = filter (\<lambda>t. t \<noteq> None) (connections (takeWhile accepted events))"
  by (induction events)
    (auto simp: assms accepted_def case_prod_unfold split: accept_event.splits option.splits)

lemmas gateway_serves = careful_accept [where step = gateway_accept, OF gateway_accept_def, simplified]
lemmas relay_serves = careful_accept [where step = relay_accept, OF relay_accept_def, simplified]
lemmas db_serves = careful_accept [where step = db_accept, OF db_accept_def, simplified]
lemmas provider_serves = careful_accept [where step = provider_accept, OF provider_accept_def, simplified]

text \<open>The other loops run for ever and serve everything, nil connections included.\<close>

lemma careless_accept:
  assumes "\<And>s ev. step s ev = (case ev of AcceptError \<Rightarrow> Continue () []
      | Accepted trusted \<Rightarrow> Continue () ((if trusted = None then [RejectConn] else []) @ [Serve trusted]))"
  shows "served (fst (react step () events)) = connections events \<and> snd (react step () events) = Running ()"
  by (induction events) (auto simp: assms case_prod_unfold split: accept_event.splits)

lemmas node_serves = careless_accept [where step = node_accept, OF node_accept_def]
lemmas outgoing_serves = careless_accept [where step = poa_outgoing_accept, OF poa_outgoing_accept_def]
lemmas incoming_serves = careless_accept [where step = poa_incoming_accept, OF poa_incoming_accept_def]

text \<open>
  So one connection that cannot be promoted crashes the single authority, whatever else it is sent
  before, as soon as its goroutine receives what the accepting loop hands on.
\<close>

lemma poa_crash:
  assumes "react (poa_step U C S) s events = (os, Running s')"
  shows "react (poa_step U C S) s (events @ [NewIncoming None]) = (os, Crashed NilPanic)"
  by (simp add: react_append assms poa_step_def)

lemma unpromoted_crashes:
  assumes "react (poa_step U C S) s (map NewIncoming ts) = (os, Running s')"
    and "served (fst (react poa_incoming_accept () (map (\<lambda>t. Accepted t) ts @ [Accepted None]))) = us"
  shows "react (poa_step U C S) s (map NewIncoming us) = (os, Crashed NilPanic)"
proof -
  have "connections (map (\<lambda>t. Accepted t) ts @ [Accepted None]) = ts @ [None]" by (induction ts) simp_all
  then have "us = ts @ [None]" using incoming_serves assms(2) by simp
  then show ?thesis using poa_crash [OF assms(1)] by simp
qed

end
