(* ===== verification/Disk.thy ===== *)
theory Disk
  imports Prelude
begin

text \<open>
  What the repository uses of Go's \<open>os\<close>, \<open>io\<close> and \<open>path/filepath\<close>: a disk of files and
  directories under opaque paths, files opened by name, and paths joined. A disk also says which
  paths cannot be accessed (their directory is missing, no permission), whether writes fail, and
  on which files reading past what can be read fails with an error other than \<open>io.EOF\<close>.
\<close>

datatype node = FileNode bytes | DirNode

record disk =
  dk_nodes :: "string \<Rightarrow> node option"
  dk_denied :: "string \<Rightarrow> bool"
  dk_full :: bool
  dk_failing :: "string \<Rightarrow> bool"

datatype stat = NotExist | StatError | Info bool  \<comment> \<open>whether it is a directory\<close>

definition os_Stat :: "string \<Rightarrow> disk \<Rightarrow> stat" where
  "os_Stat path d =
     (if dk_denied d path then StatError
      else case dk_nodes d path of None \<Rightarrow> NotExist | Some DirNode \<Rightarrow> Info True | Some (FileNode data) \<Rightarrow> Info False)"

text \<open>\<open>os.Create\<close> truncates a file that exists.\<close>

definition os_Create :: "string \<Rightarrow> disk \<Rightarrow> disk option" where
  "os_Create path d =
     (if dk_denied d path \<or> dk_nodes d path = Some DirNode then None
      else Some (d\<lparr>dk_nodes := (dk_nodes d)(path \<mapsto> FileNode [])\<rparr>))"

text \<open>\<open>os.OpenFile\<close> for reading and writing, without \<open>O_CREATE\<close>: the content.\<close>

definition os_OpenFile :: "string \<Rightarrow> disk \<Rightarrow> bytes option" where
  "os_OpenFile path d =
     (if dk_denied d path then None
      else case dk_nodes d path of Some (FileNode data) \<Rightarrow> Some data | _ \<Rightarrow> None)"

definition os_ReadDir :: "string \<Rightarrow> disk \<Rightarrow> bool" where
  "os_ReadDir path d \<longleftrightarrow> \<not> dk_denied d path \<and> dk_nodes d path = Some DirNode"

definition os_Mkdir :: "string \<Rightarrow> disk \<Rightarrow> disk option" where
  "os_Mkdir path d =
     (if dk_denied d path \<or> dk_full d \<or> dk_nodes d path \<noteq> None then None
      else Some (d\<lparr>dk_nodes := (dk_nodes d)(path \<mapsto> DirNode)\<rparr>))"

text \<open>An open file, written at its end; a write gives no disk where it fails.\<close>

record handle =
  h_path :: string
  h_closed :: bool

definition file_append :: "handle \<Rightarrow> bytes \<Rightarrow> disk \<Rightarrow> disk option" where
  "file_append h data d =
     (if h_closed h \<or> dk_full d then None
      else case dk_nodes d (h_path h) of
             Some (FileNode old) \<Rightarrow> Some (d\<lparr>dk_nodes := (dk_nodes d)(h_path h \<mapsto> FileNode (old @ data))\<rparr>)
           | _ \<Rightarrow> None)"

text \<open>\<open>n, err := io.ReadFull(file, buf)\<close>, where \<open>rest\<close> is what is left to read: what was read, what is then left, and the error.\<close>

datatype read_err = NoErr | EOF | OtherErr

definition ReadFull :: "bool \<Rightarrow> nat \<Rightarrow> bytes \<Rightarrow> bytes \<times> bytes \<times> read_err" where
  "ReadFull failing n rest =
     (if n \<le> length rest then (take n rest, drop n rest, NoErr)
      else (rest, [], if failing \<or> rest \<noteq> [] then OtherErr else EOF))"

lemma os_Create_file:
  "\<not> dk_denied d path \<Longrightarrow> dk_nodes d path \<noteq> Some DirNode \<Longrightarrow>
   os_Create path d = Some (d\<lparr>dk_nodes := (dk_nodes d)(path \<mapsto> FileNode [])\<rparr>)"
  by (simp add: os_Create_def)

section \<open>Paths\<close>

text \<open>\<open>filepath.Join\<close> on Unix: the elements that are not empty, joined by slashes and cleaned.\<close>

fun split_path :: "string \<Rightarrow> string list" where
  "split_path [] = [[]]"
| "split_path (c # cs) =
     (if c = CHR ''/'' then [] # split_path cs
      else case split_path cs of [] \<Rightarrow> [[c]] | w # ws \<Rightarrow> (c # w) # ws)"

fun join_path :: "string list \<Rightarrow> string" where
  "join_path [] = []"
| "join_path [w] = w"
| "join_path (w # ws) = w @ ''/'' @ join_path ws"

fun clean_parts :: "bool \<Rightarrow> string list \<Rightarrow> string list \<Rightarrow> string list" where
  "clean_parts rooted out [] = rev out"
| "clean_parts rooted out (w # ws) =
     (if w = [] \<or> w = ''.'' then clean_parts rooted out ws
      else if w = ''..'' then
        (if out \<noteq> [] \<and> hd out \<noteq> ''..'' then clean_parts rooted (tl out) ws
         else if rooted then clean_parts rooted out ws
         else clean_parts rooted (w # out) ws)
      else clean_parts rooted (w # out) ws)"

definition Clean :: "string \<Rightarrow> string" where
  "Clean path =
     (let rooted = (path \<noteq> [] \<and> hd path = CHR ''/'');
          cleaned = (if rooted then ''/'' else []) @ join_path (clean_parts rooted [] (split_path path))
      in if cleaned = [] then ''.'' else cleaned)"

definition Join :: "string list \<Rightarrow> string" where
  "Join elems = (let used = filter (\<lambda>e. e \<noteq> []) elems in if used = [] then [] else Clean (join_path used))"

lemma Join_example: "Join [''/home/ana'', ''.freehandle'', ''../vault//keys''] = ''/home/ana/vault/keys''"
  by (simp add: Join_def Clean_def)

end
