(* ===== verification/Vault.thy ===== *)
theory Vault
  imports Disk Ext
begin

text \<open>
  \<open>vault/vault.go\<close>: private keys in a file. The file is a salt of 32 bytes and then, for each
  key, its sealed bytes after their length in one byte; the first key is the master key. The key
  of the cipher comes from a password and the salt. The mutex of a vault is not modelled: its
  methods run one at a time.
\<close>

text \<open>
  What the file calls of \<open>breeze/crypto\<close> and \<open>scrypt\<close>, as parameters: \<open>scrypt.Key\<close> at the
  parameters the code gives it, the cipher, whose \<open>Seal\<close> also takes the randomness it draws,
  the size of a private key and the public key of one. A random salt and a random pair of keys
  are arguments of the operations that draw them.
\<close>

record 'c vault_ext =
  ScryptKey :: "bytes \<Rightarrow> bytes \<Rightarrow> bytes option"
  CipherFromKey :: "bytes \<Rightarrow> 'c"
  CipherSeal :: "'c \<Rightarrow> bytes \<Rightarrow> bytes \<Rightarrow> bytes"
  CipherOpen :: "'c \<Rightarrow> bytes \<Rightarrow> bytes option"
  PrivateKeySize :: nat
  KeyPublic :: "privkey \<Rightarrow> token"

record 'c secure_vault =
  sv_SecretKey :: privkey
  sv_Secrets :: "token \<rightharpoonup> privkey"
  sv_file :: handle
  sv_cipher :: 'c

definition sv_Close :: "'c secure_vault \<Rightarrow> 'c secure_vault" where
  "sv_Close v = v\<lparr>sv_file := (sv_file v)\<lparr>h_closed := True\<rparr>\<rparr>"

definition with_len :: "bytes \<Rightarrow> bytes" where
  "with_len sealed = [word_of_nat (length sealed)] @ sealed"

definition GenerateNewKey ::
  "'c vault_ext \<Rightarrow> token \<times> privkey \<Rightarrow> bytes \<Rightarrow> disk \<Rightarrow> 'c secure_vault \<Rightarrow> ((token \<times> privkey) \<times> disk \<times> 'c secure_vault) go" where
  "GenerateNewKey E pair nonce d v =
     (case pair of (token, newKey) \<Rightarrow>
        (let sealed = CipherSeal E (sv_cipher v) nonce newKey
         in case file_append (sv_file v) (with_len sealed) d of
              None \<Rightarrow> Inl Fatal
            | Some d' \<Rightarrow> Inr ((token, newKey), d', v\<lparr>sv_Secrets := (sv_Secrets v)(token \<mapsto> newKey)\<rparr>)))"

definition NewSecureVault ::
  "'c vault_ext \<Rightarrow> bytes \<Rightarrow> token \<times> privkey \<Rightarrow> bytes \<Rightarrow> bytes \<Rightarrow> string \<Rightarrow> disk \<Rightarrow> (disk \<times> 'c secure_vault) go" where
  "NewSecureVault E salt pair nonce password fileName d =
     (case os_Create fileName d of
        None \<Rightarrow> Inl Fatal
      | Some d1 \<Rightarrow>
          (case ScryptKey E password salt of
             None \<Rightarrow> Inl Fatal
           | Some cipherKey \<Rightarrow>
               (let secret = snd pair;
                    vault = \<lparr>sv_SecretKey = secret, sv_Secrets = Map.empty,
                      sv_file = \<lparr>h_path = fileName, h_closed = False\<rparr>, sv_cipher = CipherFromKey E cipherKey\<rparr>
                in case file_append (sv_file vault) salt d1 of
                     None \<Rightarrow> Inl Fatal
                   | Some d2 \<Rightarrow>
                       (let sealed = CipherSeal E (sv_cipher vault) nonce secret
                        in case file_append (sv_file vault) (with_len sealed) d2 of
                             None \<Rightarrow> Inl Fatal
                           | Some d3 \<Rightarrow> Inr (d3, vault)))))"

text \<open>\<open>var key crypto.PrivateKey; copy(key[:], naked)\<close>.\<close>

definition copy_key :: "'c vault_ext \<Rightarrow> bytes \<Rightarrow> privkey" where
  "copy_key E naked = take (PrivateKeySize E) (naked @ replicate (PrivateKeySize E) 0)"

text \<open>
  The loop over the keys of the file. A read that fails with an error other than \<open>io.EOF\<close> is tried
  again, so the loop may not end. When a size has been read there is no error, so the test for
  \<open>io.EOF\<close> after a key never holds.
\<close>

partial_function (option) vault_loop ::
  "'c vault_ext \<Rightarrow> 'c \<Rightarrow> bool \<Rightarrow> bytes \<Rightarrow> bool \<Rightarrow> privkey \<Rightarrow> (token \<rightharpoonup> privkey) \<Rightarrow> (privkey \<times> (token \<rightharpoonup> privkey)) go option" where
  "vault_loop E c failing rest first secret secrets =
     (let r = ReadFull failing 1 rest; size = fst r; rest1 = fst (snd r); err = snd (snd r)
      in if length size = 1 then
           (let n = unat (hd size);
                r2 = ReadFull failing n rest1; keyBytes = fst r2; rest2 = fst (snd r2)
            in if length keyBytes = n then
                 (case CipherOpen E c keyBytes of
                    None \<Rightarrow> Some (Inl Fatal)
                  | Some naked \<Rightarrow>
                      (let key = copy_key E naked; secrets' = secrets(KeyPublic E key \<mapsto> key)
                       in if err = EOF then Some (Inr (if first then key else secret, secrets'))
                          else vault_loop E c failing rest2 False (if first then key else secret) secrets'))
               else Some (Inl Fatal))
         else if err = EOF then Some (Inr (secret, secrets))
         else vault_loop E c failing rest1 first secret secrets)"

definition OpenVaultFromPassword ::
  "'c vault_ext \<Rightarrow> bytes \<Rightarrow> string \<Rightarrow> disk \<Rightarrow> 'c secure_vault go option" where
  "OpenVaultFromPassword E password fileName d =
     (case os_OpenFile fileName d of
        None \<Rightarrow> Some (Inl Fatal)
      | Some content \<Rightarrow>
          (let r = ReadFull (dk_failing d fileName) 32 content; salt = fst r
           in if length salt \<noteq> 32 then Some (Inl Fatal)
              else case ScryptKey E password salt of
                     None \<Rightarrow> Some (Inl Fatal)
                   | Some key \<Rightarrow>
                       (let c = CipherFromKey E key
                        in map_option (map_sum id (\<lambda>(secret, secrets).
                               \<lparr>sv_SecretKey = secret, sv_Secrets = secrets,
                                sv_file = \<lparr>h_path = fileName, h_closed = False\<rparr>, sv_cipher = c\<rparr>))
                             (vault_loop E c (dk_failing d fileName) (fst (snd r)) True
                                (replicate (PrivateKeySize E) 0) Map.empty))))"

section \<open>Reading what was written\<close>

text \<open>
  Documented behaviour: what the cipher seals it opens, sealed keys are short (their length is
  written in one byte), and the file of a key of the right size is what \<open>RandomAsymetricKey\<close> gives.
\<close>

definition cipher_law :: "'c vault_ext \<Rightarrow> bool" where
  "cipher_law E \<longleftrightarrow> (\<forall>c nonce x. CipherOpen E c (CipherSeal E c nonce x) = Some x) \<and>
     (\<forall>c nonce x. length x = PrivateKeySize E \<longrightarrow> length (CipherSeal E c nonce x) < 256)"

definition key_pair :: "'c vault_ext \<Rightarrow> token \<times> privkey \<Rightarrow> bool" where
  "key_pair E p \<longleftrightarrow> length (snd p) = PrivateKeySize E \<and> fst p = KeyPublic E (snd p)"

text \<open>The file of the keys of a list of pairs, each with the randomness of its sealing.\<close>

definition key_records :: "'c vault_ext \<Rightarrow> 'c \<Rightarrow> ((token \<times> privkey) \<times> bytes) list \<Rightarrow> bytes" where
  "key_records E c ks = concat (map (\<lambda>((token, key), nonce). with_len (CipherSeal E c nonce key)) ks)"

definition add_keys :: "((token \<times> privkey) \<times> bytes) list \<Rightarrow> (token \<rightharpoonup> privkey) \<Rightarrow> token \<rightharpoonup> privkey" where
  "add_keys ks m = fold (\<lambda>((token, key), nonce) m. m(token \<mapsto> key)) ks m"

lemma copy_key_id: "length k = PrivateKeySize E \<Longrightarrow> copy_key E k = k"
  by (simp add: copy_key_def)

lemma vault_loop_record:
  assumes "cipher_law E" and "length key = PrivateKeySize E"
  shows "vault_loop E c failing (with_len (CipherSeal E c nonce key) @ rest) first secret secrets =
    vault_loop E c failing rest False (if first then key else secret) (secrets(KeyPublic E key \<mapsto> key))"
proof -
  let ?s = "CipherSeal E c nonce key"
  have s: "CipherOpen E c ?s = Some key" "length ?s < 256" using assms by (auto simp: cipher_law_def)
  have "unat (word_of_nat (length ?s) :: byte) = length ?s"
    using s(2) by (simp add: unat_of_nat)
  then show ?thesis
    by (subst vault_loop.simps) (simp add: with_len_def ReadFull_def Let_def s copy_key_id [OF assms(2)])
qed

lemma vault_loop_end: "vault_loop E c False [] first secret secrets = Some (Inr (secret, secrets))"
  by (subst vault_loop.simps) (simp add: ReadFull_def Let_def)

lemma vault_loop_records:
  assumes "cipher_law E"
  shows "list_all (\<lambda>k. key_pair E (fst k)) ks \<Longrightarrow>
    vault_loop E c False (key_records E c ks) False secret secrets = Some (Inr (secret, add_keys ks secrets))"
proof (induction ks arbitrary: secrets)
  case Nil
  then show ?case by (simp add: key_records_def add_keys_def vault_loop_end)
next
  case (Cons k ks)
  obtain token key nonce where k: "k = ((token, key), nonce)" by (metis surj_pair)
  with Cons.prems have "length key = PrivateKeySize E" "token = KeyPublic E key" by (simp_all add: key_pair_def)
  then show ?case
    using Cons vault_loop_record [OF assms, of key c False nonce "key_records E c ks" False secret secrets]
    by (simp add: k key_records_def add_keys_def)
qed

section \<open>Runs\<close>

fun generate :: "'c vault_ext \<Rightarrow> ((token \<times> privkey) \<times> bytes) list \<Rightarrow> disk \<times> 'c secure_vault \<Rightarrow> (disk \<times> 'c secure_vault) go" where
  "generate E [] s = Inr s"
| "generate E ((pair, nonce) # ks) (d, v) =
     go_bind (GenerateNewKey E pair nonce d v) (\<lambda>r. generate E ks (snd r))"

text \<open>A disk on which the file can be created, written and read.\<close>

definition usable :: "disk \<Rightarrow> string \<Rightarrow> bool" where
  "usable d path \<longleftrightarrow> \<not> dk_denied d path \<and> \<not> dk_full d \<and> \<not> dk_failing d path \<and> dk_nodes d path \<noteq> Some DirNode"

definition put_file :: "string \<Rightarrow> bytes \<Rightarrow> disk \<Rightarrow> disk" where
  "put_file path data d = d\<lparr>dk_nodes := (dk_nodes d)(path \<mapsto> FileNode data)\<rparr>"

lemma file_append_put:
  "\<not> h_closed h \<Longrightarrow> \<not> dk_full d \<Longrightarrow> file_append h data (put_file (h_path h) old d) = Some (put_file (h_path h) (old @ data) d)"
  by (simp add: file_append_def put_file_def)

lemma usable_put: "usable d path \<Longrightarrow> usable (put_file path data d) path"
  by (simp add: usable_def put_file_def)

lemma generate_keys:
  assumes "\<not> h_closed h" and "\<not> dk_full d"
  shows "generate E ks (put_file (h_path h) old d, \<lparr>sv_SecretKey = s, sv_Secrets = m, sv_file = h, sv_cipher = c\<rparr>) =
    Inr (put_file (h_path h) (old @ key_records E c ks) d, \<lparr>sv_SecretKey = s, sv_Secrets = add_keys ks m, sv_file = h, sv_cipher = c\<rparr>)"
proof (induction ks arbitrary: old m)
  case (Cons k ks)
  obtain token key nonce where k: "k = ((token, key), nonce)" by (metis surj_pair)
  show ?case
    using Cons by (simp add: k GenerateNewKey_def file_append_put [OF assms] key_records_def add_keys_def)
qed (simp add: key_records_def add_keys_def)

lemma NewSecureVault_file:
  assumes "usable d file" and "ScryptKey E password salt = Some k"
  shows "NewSecureVault E salt pair nonce password file d =
    Inr (put_file file (salt @ key_records E (CipherFromKey E k) [(pair, nonce)]) d,
      \<lparr>sv_SecretKey = snd pair, sv_Secrets = Map.empty, sv_file = \<lparr>h_path = file, h_closed = False\<rparr>, sv_cipher = CipherFromKey E k\<rparr>)"
proof -
  let ?h = "\<lparr>h_path = file, h_closed = False\<rparr>"
  have create: "os_Create file d = Some (put_file file [] d)" and full: "\<not> dk_full d"
    using assms(1) by (simp_all add: os_Create_file put_file_def usable_def)
  then show ?thesis
    using assms(2) file_append_put [of ?h d] by (cases pair) (simp add: NewSecureVault_def key_records_def Let_def)
qed

lemma open_vault_file:
  assumes "cipher_law E" and "usable d file" and "ScryptKey E password salt = Some k" and "length salt = 32"
    and "key_pair E master" and "list_all (\<lambda>k. key_pair E (fst k)) ks"
  shows "OpenVaultFromPassword E password file (put_file file (salt @ key_records E (CipherFromKey E k) ((master, nonce) # ks)) d) =
    Some (Inr \<lparr>sv_SecretKey = snd master, sv_Secrets = add_keys ks [fst master \<mapsto> snd master],
      sv_file = \<lparr>h_path = file, h_closed = False\<rparr>, sv_cipher = CipherFromKey E k\<rparr>)"
proof -
  let ?c = "CipherFromKey E k"
  have d: "\<not> dk_denied d file" "\<not> dk_failing d file" using assms(2) by (simp_all add: usable_def)
  have m: "length (snd master) = PrivateKeySize E" "fst master = KeyPublic E (snd master)"
    using assms(5) by (simp_all add: key_pair_def)
  have "vault_loop E ?c False (key_records E ?c ((master, nonce) # ks)) True s Map.empty =
      Some (Inr (snd master, add_keys ks [fst master \<mapsto> snd master]))" for s
    using vault_loop_record [OF assms(1) m(1), of ?c False nonce "key_records E ?c ks" True s Map.empty]
      vault_loop_records [OF assms(1,6)] m(2)
    by (cases master) (simp add: key_records_def)
  then show ?thesis
    using d assms(3,4) by (simp add: OpenVaultFromPassword_def os_OpenFile_def put_file_def ReadFull_def Let_def)
qed

lemma vault_loop_returns: "\<exists>r. vault_loop E c False rest first secret secrets = Some r"
proof (induction "length rest" arbitrary: rest first secret secrets rule: less_induct)
  case less
  show ?case
  proof (cases rest)
    case Nil
    then show ?thesis by (simp add: vault_loop_end)
  next
    case (Cons b rest1)
    then show ?thesis
      using less [of "drop (unat b) rest1"]
      by (subst vault_loop.simps) (auto simp: ReadFull_def Let_def split: option.splits)
  qed
qed

text \<open>On a file whose reads fail the loop can only end by exiting, and not at the end of the file.\<close>

lemma vault_loop_failing:
  assumes ret: "vault_loop E c failing rest first secret secrets = Some r" and "failing"
  shows "r = Inl Fatal \<and> rest \<noteq> []"
proof -
  have "failing \<longrightarrow> r = Inl Fatal \<and> rest \<noteq> []"
  proof (rule vault_loop.raw_induct [where P = "\<lambda>E c failing rest first secret secrets r.
      failing \<longrightarrow> r = Inl Fatal \<and> rest \<noteq> []", OF _ ret], rule impI)
    fix f and E :: "'a vault_ext" and c failing rest first secret secrets r
    assume IH: "\<And>E c failing rest first secret secrets r. f E c failing rest first secret secrets = Some r \<Longrightarrow>
        failing \<longrightarrow> r = Inl Fatal \<and> rest \<noteq> []"
      and eq: "(let r = ReadFull failing 1 rest; size = fst r; rest1 = fst (snd r); err = snd (snd r)
      in if length size = 1 then
           (let n = unat (hd size);
                r2 = ReadFull failing n rest1; keyBytes = fst r2; rest2 = fst (snd r2)
            in if length keyBytes = n then
                 (case CipherOpen E c keyBytes of
                    None \<Rightarrow> Some (Inl Fatal)
                  | Some naked \<Rightarrow>
                      (let key = copy_key E naked; secrets' = secrets(KeyPublic E key \<mapsto> key)
                       in if err = EOF then Some (Inr (if first then key else secret, secrets'))
                          else f E c failing rest2 False (if first then key else secret) secrets'))
               else Some (Inl Fatal))
         else if err = EOF then Some (Inr (secret, secrets))
         else f E c failing rest1 first secret secrets) = Some r"
      and fails: "failing"
    show "r = Inl Fatal \<and> rest \<noteq> []"
      using eq fails by (cases rest) (auto simp: ReadFull_def Let_def split: if_splits option.splits dest!: IH)
  qed
  then show ?thesis using assms(2) by blast
qed

lemma add_keys_first: "add_keys ks (m ++ m') = m ++ add_keys ks m'"
proof (induction ks arbitrary: m')
  case (Cons k ks)
  obtain token key nonce where k: "k = ((token, key), nonce)" by (metis surj_pair)
  have step: "add_keys (k # ks) x = add_keys ks (x(token \<mapsto> key))" for x by (simp add: k add_keys_def)
  show ?case unfolding step Cons [symmetric] map_add_upd ..
qed (simp add: add_keys_def)

section \<open>Properties\<close>

text \<open>C37: What a vault keeps is read back: a new vault to which any keys are added and whose file is then opened
  with the same password has the same master key, the same cipher and the same secrets, but for the
  master key's pair, which is among the secrets only after reopening; no other file changes.\<close>

theorem vault_reopens:
  assumes "cipher_law E" and "usable d file" and "ScryptKey E password salt = Some k" and "length salt = 32"
    and "key_pair E master" and "list_all (\<lambda>k. key_pair E (fst k)) ks"
  shows "\<exists>s d' v. NewSecureVault E salt master nonce password file d = Inr s \<and> generate E ks s = Inr (d', v) \<and>
    sv_SecretKey v = snd master \<and> sv_Secrets v = add_keys ks Map.empty \<and>
    OpenVaultFromPassword E password file d' = Some (Inr (v\<lparr>sv_Secrets := [fst master \<mapsto> snd master] ++ sv_Secrets v\<rparr>)) \<and>
    (dk_nodes d')(file := None) = (dk_nodes d)(file := None)"
proof -
  let ?c = "CipherFromKey E k" and ?h = "\<lparr>h_path = file, h_closed = False\<rparr>"
  let ?d = "put_file file (salt @ key_records E ?c ((master, nonce) # ks)) d"
  let ?v = "\<lparr>sv_SecretKey = snd master, sv_Secrets = add_keys ks Map.empty, sv_file = ?h, sv_cipher = ?c\<rparr>"
  let ?new = "(put_file file (salt @ key_records E ?c [(master, nonce)]) d,
    \<lparr>sv_SecretKey = snd master, sv_Secrets = Map.empty, sv_file = ?h, sv_cipher = ?c\<rparr>)"
  have full: "\<not> dk_full d" using assms(2) by (simp add: usable_def)
  have "key_records E ?c [(master, nonce)] @ key_records E ?c ks = key_records E ?c ((master, nonce) # ks)"
    by (simp add: key_records_def)
  then have "generate E ks ?new = Inr (?d, ?v)"
    using generate_keys [of ?h d E ks "salt @ key_records E ?c [(master, nonce)]"] full by simp
  moreover have "OpenVaultFromPassword E password file ?d = Some (Inr (?v\<lparr>sv_Secrets := [fst master \<mapsto> snd master] ++ sv_Secrets ?v\<rparr>))"
    using open_vault_file [OF assms] add_keys_first [of ks "[fst master \<mapsto> snd master]" Map.empty] by simp
  moreover have "(dk_nodes ?d)(file := None) = (dk_nodes d)(file := None)" by (simp add: put_file_def)
  ultimately show ?thesis
    using NewSecureVault_file [OF assms(2,3), of master nonce] 
    by (intro exI [where x = ?new] exI [where x = ?d] exI [where x = ?v] conjI) simp_all
qed

definition demo_vault :: "bytes vault_ext" where
  "demo_vault = \<lparr>ScryptKey = (\<lambda>p s. Some (p @ s)), CipherFromKey = (\<lambda>k. k), CipherSeal = (\<lambda>c n x. 7 # rev x),
     CipherOpen = (\<lambda>c y. case y of [] \<Rightarrow> None | b # x \<Rightarrow> if b = 7 then Some (rev x) else None),
     PrivateKeySize = 2, KeyPublic = rev\<rparr>"

definition demo_disk :: disk where
  "demo_disk = \<lparr>dk_nodes = Map.empty, dk_denied = (\<lambda>p. False), dk_full = False, dk_failing = (\<lambda>p. False)\<rparr>"

lemma demo_cipher_law: "cipher_law demo_vault"
  by (simp add: cipher_law_def demo_vault_def)

theorem vault_reopens_witness:
  "\<exists>s d' v. NewSecureVault demo_vault (replicate 32 9) ([2, 1], [1, 2]) [] [5] ''keys'' demo_disk = Inr s \<and>
    generate demo_vault [(([4, 3], [3, 4]), []), (([6, 5], [5, 6]), [])] s = Inr (d', v) \<and>
    OpenVaultFromPassword demo_vault [5] ''keys'' d' =
      Some (Inr (v\<lparr>sv_Secrets := [[2, 1] \<mapsto> [1, 2]] ++ [[4, 3] \<mapsto> [3, 4], [6, 5] \<mapsto> [5, 6]]\<rparr>))"
proof -
  let ?ks = "[(([4, 3], [3, 4]), []), (([6, 5], [5, 6]), [])] :: ((token \<times> privkey) \<times> bytes) list"
  have 1: "usable demo_disk ''keys''" "ScryptKey demo_vault [5] (replicate 32 9) = Some ([5] @ replicate 32 9)"
    "length (replicate 32 (9 :: byte)) = 32" "key_pair demo_vault ([2, 1], [1, 2])"
    "list_all (\<lambda>k. key_pair demo_vault (fst k)) ?ks"
    by (simp_all add: usable_def demo_disk_def demo_vault_def key_pair_def)
  have "add_keys ?ks Map.empty = [[4, 3] \<mapsto> [3, 4], [6, 5] \<mapsto> [5, 6]]" by (simp add: add_keys_def)
  then show ?thesis using vault_reopens [OF demo_cipher_law 1, of "[]"] by (metis fst_conv snd_conv)
qed

text \<open>C39: Opening a vault returns or exits on every file that can be read to its end; on one whose reads fail
  with another error it never gives a vault, as the loop tries the read again for ever.\<close>

theorem open_vault_returns:
  "if dk_failing d file then (\<nexists>v. OpenVaultFromPassword E password file d = Some (Inr v))
   else (\<exists>r. OpenVaultFromPassword E password file d = Some r)"
proof (cases "dk_failing d file")
  case True
  then show ?thesis using vault_loop_failing
    by (fastforce simp: OpenVaultFromPassword_def Let_def split: option.splits)
next
  case False
  then show ?thesis using vault_loop_returns
    by (auto simp: OpenVaultFromPassword_def Let_def split: option.splits)
qed

text \<open>Where the keys before the failing read can be opened, the loop never ends.\<close>

lemma open_vault_spins:
  "cipher_law E \<Longrightarrow> length key = PrivateKeySize E \<Longrightarrow>
   vault_loop E c True (with_len (CipherSeal E c nonce key)) first secret secrets = None"
proof -
  assume "cipher_law E" "length key = PrivateKeySize E"
  from vault_loop_record [OF this, of c True nonce "[]" first secret secrets]
  show ?thesis using vault_loop_failing [of E c True "[]"] by (metis append_Nil2 not_None_eq)
qed

end
