(* ===== verification/Vault_Type.thy ===== *)
theory Vault_Type
  imports Vault
begin

text \<open>
  The type invariant of a vault (\<open>vault/vault.go\<close>): every key has the size of a private key, and
  every secret stands under its own public key. It holds of every vault the operations give,
  also of one opened from an arbitrary file with an arbitrary password.
\<close>

definition typed_keys :: "'c vault_ext \<Rightarrow> privkey \<Rightarrow> (token \<rightharpoonup> privkey) \<Rightarrow> bool" where
  "typed_keys E secret secrets \<longleftrightarrow> length secret = PrivateKeySize E \<and>
     (\<forall>t k. secrets t = Some k \<longrightarrow> length k = PrivateKeySize E \<and> KeyPublic E k = t)"

definition typed_vault :: "'c vault_ext \<Rightarrow> 'c secure_vault \<Rightarrow> bool" where
  "typed_vault E v \<longleftrightarrow> typed_keys E (sv_SecretKey v) (sv_Secrets v)"

inductive vault_reachable :: "'c vault_ext \<Rightarrow> 'c secure_vault \<Rightarrow> bool" for E where
  created: "NewSecureVault E salt pair nonce password file d = Inr (d', v) \<Longrightarrow> key_pair E pair \<Longrightarrow> vault_reachable E v"
| opened: "OpenVaultFromPassword E password file d = Some (Inr v) \<Longrightarrow> vault_reachable E v"
| generated: "vault_reachable E v \<Longrightarrow> key_pair E pair \<Longrightarrow> GenerateNewKey E pair nonce d v = Inr (r, d', v') \<Longrightarrow>
    vault_reachable E v'"
| closed: "vault_reachable E v \<Longrightarrow> vault_reachable E (sv_Close v)"

lemma length_copy_key [simp]: "length (copy_key E naked) = PrivateKeySize E"
  by (simp add: copy_key_def)

lemma typed_keys_upd:
  "typed_keys E secret secrets \<Longrightarrow> length k = PrivateKeySize E \<Longrightarrow> typed_keys E secret (secrets(KeyPublic E k \<mapsto> k))"
  by (simp add: typed_keys_def)

lemma vault_loop_typed:
  assumes ret: "vault_loop E c failing rest first secret secrets = Some r" and "r = Inr (secret', secrets')"
    and "typed_keys E secret secrets"
  shows "typed_keys E secret' secrets'"
proof -
  have "\<forall>secret' secrets'. r = Inr (secret', secrets') \<longrightarrow> typed_keys E secret secrets \<longrightarrow> typed_keys E secret' secrets'"
  proof (rule vault_loop.raw_induct [where P = "\<lambda>E c failing rest first secret secrets r.
      \<forall>secret' secrets'. r = Inr (secret', secrets') \<longrightarrow> typed_keys E secret secrets \<longrightarrow> typed_keys E secret' secrets'", OF _ ret])
    fix f and E :: "'a vault_ext" and c failing rest first secret secrets r
    assume IH: "\<And>E c failing rest first secret secrets r. f E c failing rest first secret secrets = Some r \<Longrightarrow>
        \<forall>secret' secrets'. r = Inr (secret', secrets') \<longrightarrow> typed_keys E secret secrets \<longrightarrow> typed_keys E secret' secrets'"
      and eq: "(let r = ReadFull failing 1 rest; size = fst r; rest1 = fst (snd r); err = snd (snd r)
      in if length size = 1 then
           (let n = unat (hd size);
                r2 = ReadFull failing n rest1; keyBytes = fst r2; rest2 = fst (snd r2)
            in if length keyBytes = n then
                 (case CipherOpen E c keyBytes of
                    None \<Rightarrow> Some (Inl Fatal)
                  | Some naked \<Rightarrow>
                      (let key = copy_key E naked; secrets' = secrets(KeyPublic E key \<mapsto> key)
                       in if err = EOF then Some (Inr (if first then key else secret, secrets'))
                          else f E c failing rest2 False (if first then key else secret) secrets'))
               else Some (Inl Fatal))
         else if err = EOF then Some (Inr (secret, secrets))
         else f E c failing rest1 first secret secrets) = Some r"
    have step: "typed_keys E (if first then copy_key E naked else secret) (secrets(KeyPublic E (copy_key E naked) \<mapsto> copy_key E naked))"
      if "typed_keys E secret secrets" for naked
      using that by (simp add: typed_keys_def)
    show "\<forall>secret' secrets'. r = Inr (secret', secrets') \<longrightarrow> typed_keys E secret secrets \<longrightarrow> typed_keys E secret' secrets'"
      using eq IH step by (auto simp: Let_def split: if_splits option.splits)
  qed
  then show ?thesis using assms(2,3) by blast
qed

lemma map_sum_Inr: "map_sum id f z = Inr v \<longleftrightarrow> (\<exists>p. z = Inr p \<and> v = f p)"
  by (cases z) auto

lemma typed_opened:
  assumes "OpenVaultFromPassword E password file d = Some (Inr v)"
  shows "typed_vault E v"
proof -
  obtain c failing rest secret secrets
    where loop: "vault_loop E c failing rest True (replicate (PrivateKeySize E) 0) Map.empty = Some (Inr (secret, secrets))"
      and v: "sv_SecretKey v = secret" "sv_Secrets v = secrets"
    using assms by (auto simp: OpenVaultFromPassword_def Let_def map_sum_Inr split: option.splits if_splits)
  have "typed_keys E (replicate (PrivateKeySize E) 0) Map.empty" by (simp add: typed_keys_def)
  from vault_loop_typed [OF loop refl this] show ?thesis by (simp add: typed_vault_def v)
qed

lemma typed_closed: "typed_vault E v \<Longrightarrow> typed_vault E (sv_Close v)"
  by (simp add: sv_Close_def typed_vault_def)

lemma typed_created:
  "NewSecureVault E salt pair nonce password file d = Inr (d', v) \<Longrightarrow> key_pair E pair \<Longrightarrow> typed_vault E v"
  by (auto simp: NewSecureVault_def typed_vault_def typed_keys_def key_pair_def Let_def split: option.splits)

lemma typed_generated:
  "GenerateNewKey E pair nonce d v = Inr (r, d', v') \<Longrightarrow> key_pair E pair \<Longrightarrow> typed_vault E v \<Longrightarrow> typed_vault E v'"
  by (auto simp: GenerateNewKey_def typed_vault_def typed_keys_def key_pair_def split: option.splits prod.splits if_splits)

text \<open>C38: Vaults are well-typed: whatever files and passwords they come from, and whatever keys were added, the
  master key and every secret have the size of a private key, and a secret is found under its own
  public key and no other token.\<close>

theorem vault_typed:
  assumes "vault_reachable E v"
  shows "length (sv_SecretKey v) = PrivateKeySize E \<and>
    (\<forall>t k. sv_Secrets v t = Some k \<longrightarrow> length k = PrivateKeySize E \<and> KeyPublic E k = t)"
proof -
  have "typed_vault E v" using assms
    by induction (blast intro: typed_opened typed_created typed_generated typed_closed)+
  then show ?thesis by (simp add: typed_vault_def typed_keys_def)
qed

text \<open>A file with an oversized and an empty key, opened, closed and a key added first.\<close>

theorem vault_typed_witness:
  "\<exists>v. OpenVaultFromPassword demo_vault [5] ''keys'' (put_file ''keys'' (replicate 32 9 @ [4, 7, 1, 2, 3, 1, 7]) demo_disk) = Some (Inr v) \<and>
    sv_SecretKey v = [3, 2] \<and> length (sv_SecretKey (sv_Close v)) = 2 \<and> sv_Secrets v [0, 0] = Some [0, 0]"
proof -
  let ?d = "put_file ''keys'' (replicate 32 9 @ [4, 7, 1, 2, 3, 1, 7]) demo_disk"
  have loop: "vault_loop demo_vault k False [4, 7, 1, 2, 3, 1, 7] True s Map.empty =
      Some (Inr ([3, 2], [[2, 3] \<mapsto> [3, 2], [0, 0] \<mapsto> [0, 0]]))" for k s
  proof -
    have demo: "CipherOpen demo_vault c y = (case y of [] \<Rightarrow> None | b # x \<Rightarrow> if b = 7 then Some (rev x) else None)"
      "PrivateKeySize demo_vault = 2" "KeyPublic demo_vault x = rev x" for c y x by (simp_all add: demo_vault_def)
    have "vault_loop demo_vault k False [1, 7] False [3, 2] [[2, 3] \<mapsto> [3, 2]] =
        Some (Inr ([3, 2], [[2, 3] \<mapsto> [3, 2], [0, 0] \<mapsto> [0, 0]]))"
      by (subst vault_loop.simps) (simp add: ReadFull_def demo copy_key_def vault_loop_end Let_def numeral_eq_Suc)
    then show ?thesis
      by (subst vault_loop.simps) (simp add: ReadFull_def demo copy_key_def Let_def)
  qed
  have "\<exists>v. OpenVaultFromPassword demo_vault [5] ''keys'' ?d = Some (Inr v) \<and> sv_SecretKey v = [3, 2] \<and> sv_Secrets v [0, 0] = Some [0, 0]"
    using loop by (simp add: OpenVaultFromPassword_def os_OpenFile_def put_file_def demo_disk_def ReadFull_def Let_def) (simp add: demo_vault_def)
  then obtain v where v: "OpenVaultFromPassword demo_vault [5] ''keys'' ?d = Some (Inr v)" "sv_SecretKey v = [3, 2]" "sv_Secrets v [0, 0] = Some [0, 0]"
    by blast
  have "vault_reachable demo_vault (sv_Close v)" by (rule closed) (rule opened [OF v(1)])
  from vault_typed [OF this] v show ?thesis by (auto simp: demo_vault_def)
qed

end
