(* ===== verification/Config.thy ===== *)
theory Config
  imports Vault
begin

text \<open>
  \<open>config/config.go\<close>: what the programs do on start with their files, vaults and terminal. What the
  user types is an argument: a password with whether reading it failed, a word or the failure of
  \<open>fmt.Scan\<close>. What is printed is left out, but for the message a function returns.
\<close>

text \<open>Where \<open>os.Stat\<close> fails otherwise than by the path not existing, \<open>info\<close> is nil.\<close>

definition vaultExists :: "string \<Rightarrow> disk \<Rightarrow> bool go" where
  "vaultExists vaultpath d =
     (case os_Stat vaultpath d of
        NotExist \<Rightarrow> Inr False
      | StatError \<Rightarrow> Inl NilPanic
      | Info dir \<Rightarrow> Inr (\<not> dir))"

definition FileExists :: "string \<Rightarrow> disk \<Rightarrow> bool go" where
  "FileExists filePath d =
     (case os_Stat filePath d of
        NotExist \<Rightarrow> Inr False
      | StatError \<Rightarrow> Inl NilPanic
      | Info dir \<Rightarrow> Inr (\<not> dir))"

text \<open>The randomness that a new vault draws: the salt, the master key and that of its sealing.\<close>

type_synonym draw = "bytes \<times> (token \<times> privkey) \<times> bytes"

text \<open>\<open>None\<close> where the opening of the vault does not end. The message says which token was generated for which vault.\<close>

definition GetOrSetCredentialsFromVault ::
  "'c vault_ext \<Rightarrow> draw \<Rightarrow> bytes \<times> bool \<Rightarrow> string \<Rightarrow> disk \<Rightarrow> ((privkey \<times> (token \<times> string) option) \<times> disk) go option" where
  "GetOrSetCredentialsFromVault E rand entered vaultpath d =
     (case vaultExists vaultpath d of
        Inl h \<Rightarrow> Some (Inl h)
      | Inr True \<Rightarrow>
          (let bytePassword = fst entered
           in map_option (map_sum id (\<lambda>secrets0.
                  let secrets = sv_Close secrets0; credentials = sv_SecretKey secrets
                  in ((credentials, None), d)))
                (OpenVaultFromPassword E bytePassword vaultpath d))
      | Inr False \<Rightarrow>
          (case entered of (bytePassword, err) \<Rightarrow>
             if err then Some (Inl Fatal)
             else case rand of (salt, pair, nonce) \<Rightarrow>
               (case NewSecureVault E salt pair nonce bytePassword vaultpath d of
                  Inl h \<Rightarrow> Some (Inl h)
                | Inr (d', secrets) \<Rightarrow>
                    Some (Inr ((sv_SecretKey secrets, Some (KeyPublic E (sv_SecretKey secrets), vaultpath)), d')))))"

definition OpenVault ::
  "'c vault_ext \<Rightarrow> draw \<Rightarrow> bytes \<times> bool \<Rightarrow> string \<Rightarrow> disk \<Rightarrow> ('c secure_vault \<times> disk) go option" where
  "OpenVault E rand entered path d =
     (case entered of (passwd, err) \<Rightarrow>
        if err then Some (Inl Fatal)
        else case FileExists path d of
               Inl h \<Rightarrow> Some (Inl h)
             | Inr True \<Rightarrow> map_option (map_sum id (\<lambda>opened. (opened, d))) (OpenVaultFromPassword E passwd path d)
             | Inr False \<Rightarrow>
                 (case rand of (salt, pair, nonce) \<Rightarrow>
                    (case NewSecureVault E salt pair nonce passwd path d of
                       Inl h \<Rightarrow> Some (Inl h)
                     | Inr (d', opened) \<Rightarrow> Some (Inr (opened, d')))))"

text \<open>\<open>ReadConfigFile\<close>: how \<open>json.Unmarshal\<close> fills the value it is given is a parameter.\<close>

definition ReadConfigFile :: "(bytes \<Rightarrow> 'a option) \<Rightarrow> string \<Rightarrow> disk \<Rightarrow> 'a go" where
  "ReadConfigFile unmarshal configpath d =
     (case os_OpenFile configpath d of
        None \<Rightarrow> Inl Fatal
      | Some data \<Rightarrow> (case unmarshal data of None \<Rightarrow> Inl Fatal | Some config \<Rightarrow> Inr config))"

text \<open>
  \<open>ShutdownEvents\<close>: the goroutine takes the first of the two signals that \<open>signal.Notify\<close> passes on, sends
  once on the channel that it returned, and ends; a later signal has no effect.
\<close>

datatype os_signal = Interrupt | SIGTERM | OtherSignal

definition ShutdownEvents :: "os_signal list \<Rightarrow> unit list" where
  "ShutdownEvents signals =
     (case filter (\<lambda>s. s = Interrupt \<or> s = SIGTERM) signals of [] \<Rightarrow> [] | s # rest \<Rightarrow> [()])"

lemma ShutdownEvents_once:
  "ShutdownEvents signals = (if Interrupt \<in> set signals \<or> SIGTERM \<in> set signals then [()] else [])"
proof -
  have "filter (\<lambda>s. s = Interrupt \<or> s = SIGTERM) signals = [] \<longleftrightarrow> \<not> (Interrupt \<in> set signals \<or> SIGTERM \<in> set signals)"
    by (auto simp: filter_empty_conv)
  then show ?thesis by (auto simp: ShutdownEvents_def split: list.split)
qed

text \<open>\<open>strings.TrimSpace\<close> and \<open>strings.ToLower\<close>, on the ASCII characters.\<close>

definition is_space :: "char \<Rightarrow> bool" where
  "is_space c \<longleftrightarrow> (of_char c :: nat) \<in> {9, 10, 11, 12, 13, 32}"

definition TrimSpace :: "string \<Rightarrow> string" where
  "TrimSpace s = rev (dropWhile is_space (rev (dropWhile is_space s)))"

definition lower :: "char \<Rightarrow> char" where
  "lower c = (let n = of_char c :: nat in if 65 \<le> n \<and> n \<le> 90 then char_of (n + 32) else c)"

definition ToLower :: "string \<Rightarrow> string" where
  "ToLower s = map lower s"

definition AskConfirm :: "string option \<Rightarrow> bool go" where
  "AskConfirm scanned =
     (case scanned of
        None \<Rightarrow> Inl Panicked
      | Some word \<Rightarrow>
          (let s = ToLower (TrimSpace word)
           in if s = ''y'' \<or> s = ''yes'' then Inr True else Inr False))"

definition DefaultHomeDir :: "string \<Rightarrow> (string \<Rightarrow> string) \<Rightarrow> string go" where
  "DefaultHomeDir GOOS Getenv =
     (let env = (if GOOS = ''windows'' then ''USERPROFILE'' else if GOOS = ''plan9'' then ''home'' else ''HOME'');
          home = Getenv env
      in if home \<noteq> [] then Inr home else Inl Fatal)"

definition CreateFolderIfNotExists :: "string \<Rightarrow> disk \<Rightarrow> (bool \<times> disk) go" where
  "CreateFolderIfNotExists folder d =
     (if os_ReadDir folder d then Inr (True, d)
      else case os_Mkdir folder d of None \<Rightarrow> Inl Fatal | Some d' \<Rightarrow> Inr (False, d'))"

text \<open>The file returned is given by its path.\<close>

definition CreateFileIfNotExists ::
  "string \<Rightarrow> (string \<Rightarrow> string) \<Rightarrow> string \<Rightarrow> string \<Rightarrow> disk \<Rightarrow> ((string \<times> bool) \<times> disk) go" where
  "CreateFileIfNotExists GOOS Getenv folder fileName d =
     go_bind (DefaultHomeDir GOOS Getenv) (\<lambda>home.
     go_bind (if folder \<noteq> [] then
                (let path = Join [home, folder]
                 in go_bind (CreateFolderIfNotExists path d) (\<lambda>r. Inr (path, snd r)))
              else Inr (home, d)) (\<lambda>(dir, d1).
       let path = Join [dir, fileName]
       in case os_OpenFile path d1 of
            Some content \<Rightarrow> Inr ((path, True), d1)
          | None \<Rightarrow>
              (case os_Create path d1 of
                 None \<Rightarrow> Inl Fatal
               | Some d2 \<Rightarrow> Inr ((path, False), d2))))"

section \<open>Lemmas\<close>

lemma AskConfirm_examples:
  "AskConfirm (Some ''YES'') = Inr True" "AskConfirm (Some ''y'') = Inr True"
  "AskConfirm (Some ''yeah'') = Inr False" "AskConfirm None = Inl Panicked"
  by code_simp+

text \<open>A path that exists but cannot be accessed crashes every start.\<close>

lemma denied_vault_crashes:
  "dk_denied d path \<Longrightarrow> GetOrSetCredentialsFromVault E rand entered path d = Some (Inl NilPanic)"
  by (simp add: GetOrSetCredentialsFromVault_def vaultExists_def os_Stat_def)

text \<open>Creating a file a second time finds it, and changes nothing.\<close>

lemma CreateFile_twice:
  assumes "CreateFileIfNotExists GOOS Getenv folder fileName d = Inr ((path, found), d')"
  shows "CreateFileIfNotExists GOOS Getenv folder fileName d' = Inr ((path, True), d')"
proof -
  obtain home where home: "DefaultHomeDir GOOS Getenv = Inr home"
    using assms by (auto simp: CreateFileIfNotExists_def go_bind_Inr_conv)
  define dir where "dir = (if folder \<noteq> [] then Join [home, folder] else home)"
  obtain d1 where d1: "if folder \<noteq> [] then \<exists>b. CreateFolderIfNotExists dir d = Inr (b, d1) else d1 = d"
    and path: "path = Join [dir, fileName]"
    and last_step: "(os_OpenFile path d1 \<noteq> None \<and> d' = d1) \<or> os_Create path d1 = Some d'"
    using assms home by (auto simp: CreateFileIfNotExists_def go_bind_Inr_conv dir_def Let_def split: option.splits if_splits)
  have opened: "os_OpenFile path d' \<noteq> None"
    using last_step by (auto simp: os_OpenFile_def os_Create_def split: option.splits node.splits if_splits)
  have "os_ReadDir dir d'" if "folder \<noteq> []"
  proof -
    have "os_ReadDir dir d1"
      using d1 that by (auto simp: CreateFolderIfNotExists_def os_ReadDir_def os_Mkdir_def split: if_splits option.splits)
    then show ?thesis using last_step by (auto simp: os_ReadDir_def os_Create_def split: if_splits)
  qed
  then show ?thesis
    using home opened path by (auto simp: CreateFileIfNotExists_def CreateFolderIfNotExists_def dir_def Let_def)
qed

text \<open>C40: The credentials of a program are stable: the first start on a free path generates a master key and
  says for which token and vault, and every later start with the same password gives that key
  without a message, whatever was entered or drawn besides, and whatever keys the program
  added to the vault in between.\<close>

theorem credentials_stable:
  assumes "cipher_law E" and "usable d path" and "dk_nodes d path = None"
    and "ScryptKey E password salt = Some k" and "length salt = 32"
    and "key_pair E master" and "list_all (\<lambda>k. key_pair E (fst k)) ks"
  shows "\<exists>d1 v d2 w. GetOrSetCredentialsFromVault E (salt, master, nonce) (password, False) path d =
      Some (Inr ((snd master, Some (fst master, path)), d1)) \<and>
    OpenVault E rand (password, False) path d1 = Some (Inr (v, d1)) \<and> generate E ks (d1, v) = Inr (d2, w) \<and>
    GetOrSetCredentialsFromVault E rand' (password, err) path d2 = Some (Inr ((snd master, None), d2))"
proof -
  let ?c = "CipherFromKey E k" and ?h = "\<lparr>h_path = path, h_closed = False\<rparr>"
  let ?rec = "key_records E ?c [(master, nonce)]"
  let ?d1 = "put_file path (salt @ ?rec) d" and ?d2 = "put_file path (salt @ key_records E ?c ((master, nonce) # ks)) d"
  let ?v = "\<lparr>sv_SecretKey = snd master, sv_Secrets = [fst master \<mapsto> snd master], sv_file = ?h, sv_cipher = ?c\<rparr>"
  let ?w = "\<lparr>sv_SecretKey = snd master, sv_Secrets = add_keys ks [fst master \<mapsto> snd master], sv_file = ?h, sv_cipher = ?c\<rparr>"
  have pub: "KeyPublic E (snd master) = fst master" using assms(6) by (simp add: key_pair_def)
  have there: "vaultExists path (put_file path data d) = Inr True" "FileExists path (put_file path data d) = Inr True" for data
    using assms(2) by (simp_all add: vaultExists_def FileExists_def os_Stat_def put_file_def usable_def)
  have "vaultExists path d = Inr False"
    using assms(2,3) by (simp add: vaultExists_def os_Stat_def usable_def)
  then have "GetOrSetCredentialsFromVault E (salt, master, nonce) (password, False) path d =
      Some (Inr ((snd master, Some (fst master, path)), ?d1))"
    using NewSecureVault_file [OF assms(2,4), of master nonce] by (simp add: GetOrSetCredentialsFromVault_def pub)
  moreover have "OpenVaultFromPassword E password path ?d1 = Some (Inr ?v)"
    using open_vault_file [OF assms(1,2,4-6), of "[]" nonce] by (simp add: add_keys_def)
  then have "OpenVault E rand (password, False) path ?d1 = Some (Inr (?v, ?d1))"
    by (simp add: OpenVault_def there)
  moreover have "key_records E ?c ((master, nonce) # ks) = ?rec @ key_records E ?c ks" by (simp add: key_records_def)
  then have "generate E ks (?d1, ?v) = Inr (?d2, ?w)"
    using generate_keys [of ?h d E ks "salt @ ?rec"] assms(2) by (simp add: usable_def)
  moreover have "GetOrSetCredentialsFromVault E rand' (password, err) path ?d2 = Some (Inr ((snd master, None), ?d2))"
    using open_vault_file [OF assms(1,2,4-7), of nonce] by (simp add: GetOrSetCredentialsFromVault_def there sv_Close_def)
  ultimately show ?thesis by blast
qed

theorem credentials_stable_witness:
  "\<exists>d1 v d2 w. GetOrSetCredentialsFromVault demo_vault (replicate 32 9, ([2, 1], [1, 2]), []) ([5], False) ''keys'' demo_disk =
      Some (Inr (([1, 2], Some ([2, 1], ''keys'')), d1)) \<and>
    OpenVault demo_vault ([], ([], []), []) ([5], False) ''keys'' d1 = Some (Inr (v, d1)) \<and>
    generate demo_vault [(([4, 3], [3, 4]), [])] (d1, v) = Inr (d2, w) \<and>
    GetOrSetCredentialsFromVault demo_vault ([], ([], []), []) ([5], True) ''keys'' d2 = Some (Inr (([1, 2], None), d2))"
proof -
  have "usable demo_disk ''keys''" "dk_nodes demo_disk ''keys'' = None"
    "ScryptKey demo_vault [5] (replicate 32 9) = Some ([5] @ replicate 32 9)" "length (replicate 32 (9 :: byte)) = 32"
    "key_pair demo_vault ([2, 1], [1, 2])" "list_all (\<lambda>k. key_pair demo_vault (fst k)) [(([4, 3], [3, 4]), [])]"
    by (simp_all add: usable_def demo_disk_def demo_vault_def key_pair_def)
  from credentials_stable [OF demo_cipher_law this, of "[]" "([], ([], []), [])" "([], ([], []), [])" True]
  show ?thesis by simp
qed

end
