(* ===== verification/Commands.thy ===== *)
theory Commands
  imports Config "HOL-Library.Sublist"
begin

text \<open>
  The commands: \<open>cmd/safe\<close>, which opens or creates a vault, and the environment of \<open>cmd/blow\<close>.
  What is printed is left out; \<open>safe_end\<close> says where \<open>main\<close> ends.
\<close>

section \<open>\<open>cmd/safe\<close>\<close>

text \<open>\<open>None\<close> where it returns, \<open>Some 0\<close> where it has printed the help and exits.\<close>

definition ParseCommand :: "string list \<Rightarrow> int option" where
  "ParseCommand params =
     (if length params = 0 then None
      else if params ! 0 = ''help'' then
        (if length params > 1 then (if params ! 1 = ''new'' then Some 0 else None) else None)
      else None)"

datatype 'c safe_end =
    Exited int            \<comment> \<open>\<open>os.Exit\<close>\<close>
  | UsagePrinted
  | NotCreated            \<comment> \<open>the user did not want a new vault\<close>
  | PasswordError
  | IsDirectory
  | SafeOpened "'c secure_vault"

text \<open>
  \<open>args\<close> is \<open>os.Args\<close>; \<open>scanned\<close> is what \<open>fmt.Scan\<close> read, the empty word where it failed. \<open>stat\<close>
  is nil whenever \<open>os.Stat\<close> fails.
\<close>

definition safe_main ::
  "'c vault_ext \<Rightarrow> draw \<Rightarrow> string list \<Rightarrow> string \<Rightarrow> bytes \<times> bool \<Rightarrow> disk \<Rightarrow> ('c safe_end \<times> disk) go option" where
  "safe_main E rand args scanned entered d =
     (case go_slice args 1 (int (length args)) of
        Inl h \<Rightarrow> Some (Inl h)
      | Inr params \<Rightarrow>
      (case ParseCommand params of
         Some code \<Rightarrow> Some (Inr (Exited code, d))
       | None \<Rightarrow>
       if length args < 2 then Some (Inr (UsagePrinted, d))
       else case os_Stat (args ! 1) d of
         Info dir \<Rightarrow>
           (if dir then Some (Inr (IsDirectory, d))
            else if snd entered then Some (Inr (PasswordError, d))
            else map_option (map_sum id (\<lambda>safe. (SafeOpened safe, d))) (OpenVaultFromPassword E (fst entered) (args ! 1) d))
       | _ \<Rightarrow>
           (let yes = TrimSpace (ToLower scanned)
            in if yes = ''yes'' \<or> yes = ''y'' then
                 (if snd entered then Some (Inr (PasswordError, d))
                  else case rand of (salt, pair, nonce) \<Rightarrow>
                    (case NewSecureVault E salt pair nonce (fst entered) (args ! 1) d of
                       Inl h \<Rightarrow> Some (Inl h)
                     | Inr (d', safe) \<Rightarrow> Some (Inr (SafeOpened safe, d'))))
               else Some (Inr (NotCreated, d)))))"

text \<open>
  The commands that the usage announces do nothing: the arguments after the path of the vault
  make no difference, so in particular \<open>new\<close> generates no key.
\<close>

lemma safe_ignores_command:
  assumes "path \<noteq> ''help''"
  shows "safe_main E rand (prog # path # command) scanned entered d = safe_main E rand [prog, path] scanned entered d"
proof -
  have "go_slice (prog # path # rest) 1 (int (length (prog # path # rest))) = Inr (path # rest)" for rest
    using go_slice_nat [of "prog # path # rest" 1 "length (prog # path # rest)"] by simp
  moreover have "ParseCommand (path # rest) = None" for rest using assms by (simp add: ParseCommand_def)
  moreover have "(prog # path # rest) ! 1 = path" "\<not> length (prog # path # rest) < 2" for rest by simp_all
  ultimately show ?thesis unfolding safe_main_def by (simp only: sum.case option.case if_False)
qed

section \<open>The environment of \<open>cmd/blow\<close>\<close>

record environment =
  EmailPassword :: string
  SafePath :: string
  SynergyPath :: string

definition CutPrefix :: "string \<Rightarrow> string \<Rightarrow> string" where
  "CutPrefix s p = (if prefix p s then drop (length p) s else s)"

definition env_step :: "environment \<Rightarrow> string \<Rightarrow> environment" where
  "env_step environment env =
     (if prefix ''FREEHANDLE_SECRET='' env then environment\<lparr>EmailPassword := CutPrefix env ''FREEHANDLE_SECRET=''\<rparr>
      else if prefix ''SAFE='' env then environment\<lparr>SafePath := CutPrefix env ''SAFE=''\<rparr>
      else if prefix ''SYNERGY_PATH='' env then environment\<lparr>SynergyPath := CutPrefix env ''SYNERGY_PATH=''\<rparr>
      else environment)"

definition envs :: "string list \<Rightarrow> environment" where
  "envs Environ = foldl env_step \<lparr>EmailPassword = [], SafePath = [], SynergyPath = []\<rparr> Environ"

text \<open>The last setting of a variable counts, whatever the other variables.\<close>

definition last_setting :: "string \<Rightarrow> string list \<Rightarrow> string" where
  "last_setting name Environ =
     (let found = filter (prefix name) Environ in if found = [] then [] else drop (length name) (last found))"

lemma last_setting_snoc:
  "last_setting name (es @ [e]) = (if prefix name e then drop (length name) e else last_setting name es)"
  by (simp add: last_setting_def Let_def)

lemma envs_last:
  "envs Environ = \<lparr>EmailPassword = last_setting ''FREEHANDLE_SECRET='' Environ,
     SafePath = last_setting ''SAFE='' Environ, SynergyPath = last_setting ''SYNERGY_PATH='' Environ\<rparr>"
proof (induction Environ rule: rev_induct)
  case Nil
  then show ?case by (simp add: envs_def last_setting_def)
next
  case (snoc e es)
  have disjoint: "\<not> prefix ''SAFE='' e" "\<not> prefix ''SYNERGY_PATH='' e" if "prefix ''FREEHANDLE_SECRET='' e"
    using that by (auto simp: prefix_def)
  have disjoint': "\<not> prefix ''SYNERGY_PATH='' e" if "prefix ''SAFE='' e"
    using that by (auto simp: prefix_def)
  have "envs (es @ [e]) = env_step (envs es) e" by (simp add: envs_def)
  also have "\<dots> = env_step \<lparr>EmailPassword = last_setting ''FREEHANDLE_SECRET='' es,
      SafePath = last_setting ''SAFE='' es, SynergyPath = last_setting ''SYNERGY_PATH='' es\<rparr> e"
    by (simp only: snoc.IH)
  also have "\<dots> = \<lparr>EmailPassword = last_setting ''FREEHANDLE_SECRET='' (es @ [e]),
      SafePath = last_setting ''SAFE='' (es @ [e]), SynergyPath = last_setting ''SYNERGY_PATH='' (es @ [e])\<rparr>"
    using disjoint disjoint' unfolding last_setting_snoc env_step_def CutPrefix_def by auto
  finally show ?case .
qed

end
