(* ===== verification/Examples.thy ===== *)
theory Examples
  imports Sorter Gateway Blocks "HOL-Library.Sublist"
begin

text \<open>
  The examples of \<open>cmd/blow\<close>: the load generators of \<open>examples.go\<close>, its listener of social blocks,
  which puts \<open>ReceiveBlocks\<close>, \<open>SyncSocial\<close> and \<open>BlockSorter\<close> together, and the explorer of \<open>http.go\<close>.

  The actions of \<open>axe/attorney\<close> and of \<open>breeze/protocol/actions\<close> are parameters: for each kind, the
  bytes of the action with the given fields once it is signed with the last argument and serialized.
\<close>

record action_ext =
  JoinNetwork :: "u64 \<Rightarrow> token \<Rightarrow> string \<Rightarrow> privkey \<Rightarrow> bytes"
  GrantPowerOfAttorney :: "u64 \<Rightarrow> token \<Rightarrow> token \<Rightarrow> bytes \<Rightarrow> privkey \<Rightarrow> bytes"
  VoidAction :: "u64 \<Rightarrow> token \<Rightarrow> bytes \<Rightarrow> token \<Rightarrow> privkey \<Rightarrow> bytes"
  RevokePowerOfAttorney :: "u64 \<Rightarrow> token \<Rightarrow> token \<Rightarrow> privkey \<Rightarrow> bytes"
  Transfer :: "u64 \<Rightarrow> token \<Rightarrow> (token \<times> u64) list \<Rightarrow> string \<Rightarrow> u64 \<Rightarrow> privkey \<Rightarrow> bytes"
  Dress :: "bytes \<Rightarrow> privkey \<Rightarrow> u64 \<Rightarrow> bytes"

section \<open>Load generators\<close>

text \<open>\<open>fmt\<close> writes a natural number in decimal.\<close>

fun decimal :: "nat \<Rightarrow> string" where
  "decimal n = (if n < 10 then [char_of (48 + n)] else decimal (n div 10) @ [char_of (48 + n mod 10)])"

declare decimal.simps [simp del]

text \<open>
  The sends of a loop: each message is built and sent, and \<open>log.Fatalf\<close> ends the process at the first
  send that fails. \<open>sends_ok n\<close> says whether the \<open>n\<close>-th send of the connection succeeds.
\<close>

datatype load_end = LoadDone | LoadFatal

fun submit_all :: "(nat \<Rightarrow> bool) \<Rightarrow> nat \<Rightarrow> bytes list \<Rightarrow> bytes list \<times> load_end" where
  "submit_all sends_ok n [] = ([], LoadDone)"
| "submit_all sends_ok n (m # ms) =
     (if sends_ok n then (case submit_all sends_ok (Suc n) ms of (out, e) \<Rightarrow> (m # out, e)) else ([], LoadFatal))"

text \<open>The actions of \<open>axetest\<close>; \<open>authors\<close> are the keys drawn, \<open>pub\<close> the method \<open>PublicKey\<close>.\<close>

definition axe_join :: "action_ext \<Rightarrow> (privkey \<Rightarrow> token) \<Rightarrow> (nat \<Rightarrow> privkey) \<Rightarrow> nat \<Rightarrow> bytes" where
  "axe_join X pub authors n =
     Dress X (JoinNetwork X 0 (pub (authors n)) (''user_'' @ decimal n) (authors n)) (authors n) 0"

definition axe_grant :: "action_ext \<Rightarrow> (privkey \<Rightarrow> token) \<Rightarrow> (nat \<Rightarrow> privkey) \<Rightarrow> nat \<Rightarrow> bytes" where
  "axe_grant X pub authors n =
     Dress X (GrantPowerOfAttorney X 10 (pub (authors n)) (pub (authors (n mod 100))) [] (authors n)) (authors n) 0"

definition axe_void :: "action_ext \<Rightarrow> (privkey \<Rightarrow> token) \<Rightarrow> (nat \<Rightarrow> privkey) \<Rightarrow> nat \<Rightarrow> bytes" where
  "axe_void X pub authors n =
     Dress X (VoidAction X 20 (pub (authors n)) (map of_char ''string para testar o void'') (pub (authors (n mod 100)))
       (authors (n mod 100))) (authors n) 0"

definition axe_revoke :: "action_ext \<Rightarrow> (privkey \<Rightarrow> token) \<Rightarrow> (nat \<Rightarrow> privkey) \<Rightarrow> nat \<Rightarrow> bytes" where
  "axe_revoke X pub authors n =
     Dress X (RevokePowerOfAttorney X 30 (pub (authors n)) (pub (authors (n mod 100))) (authors n)) (authors n) 0"

definition axe_actions :: "action_ext \<Rightarrow> (privkey \<Rightarrow> token) \<Rightarrow> (nat \<Rightarrow> privkey) \<Rightarrow> bytes list" where
  "axe_actions X pub authors =
     map (axe_join X pub authors) [0..<10000] @ map (axe_grant X pub authors) [100..<10000] @
     map (axe_void X pub authors) [100..<10000] @ map (axe_revoke X pub authors) [100..<10000]"

definition axetest ::
  "action_ext \<Rightarrow> chainmsg \<Rightarrow> (privkey \<Rightarrow> token) \<Rightarrow> (nat \<Rightarrow> privkey) \<Rightarrow> bool \<Rightarrow> (nat \<Rightarrow> bool) \<Rightarrow> bytes list \<times> load_end" where
  "axetest X M pub authors dialed sends_ok =
     (if \<not> dialed then ([], LoadFatal)
      else submit_all sends_ok 0 (map (\<lambda>data. MsgActionSubmit M # data) (axe_actions X pub authors)))"

text \<open>\<open>transferspacket\<close>: \<open>tokens n\<close> is the token drawn for the \<open>n\<close>-th transfer.\<close>

definition transfer_n :: "action_ext \<Rightarrow> (privkey \<Rightarrow> token) \<Rightarrow> privkey \<Rightarrow> (nat \<Rightarrow> token) \<Rightarrow> nat \<Rightarrow> bytes" where
  "transfer_n X pub credentials tokens n =
     Transfer X (word_of_nat (n div 1000)) (pub credentials) [(tokens n, 1)] ''whatever'' 1 credentials"

definition transferspacket ::
  "action_ext \<Rightarrow> chainmsg \<Rightarrow> (privkey \<Rightarrow> token) \<Rightarrow> privkey \<Rightarrow> (nat \<Rightarrow> token) \<Rightarrow> bool \<Rightarrow> (nat \<Rightarrow> bool) \<Rightarrow> bytes list \<times> load_end" where
  "transferspacket X M pub credentials tokens dialed sends_ok =
     (if \<not> dialed then ([], LoadFatal)
      else submit_all sends_ok 0 (map (\<lambda>n. MsgActionSubmit M # transfer_n X pub credentials tokens n) [0..<100000]))"

section \<open>The listener of social blocks\<close>

record 'b sync_social_config =
  ProviderAddress :: string
  ProviderToken :: token
  NodeAddress :: string
  NodeToken :: token
  SyncCredentials :: privkey
  SyncBlockStore :: 'b

definition testListener_config :: "token \<Rightarrow> token \<Rightarrow> privkey \<Rightarrow> block_sorter sync_social_config" where
  "testListener_config provider node listener =
     \<lparr>ProviderAddress = ''localhost:6001'', ProviderToken = provider, NodeAddress = ''localhost:6000'', NodeToken = node,
      SyncCredentials = listener, SyncBlockStore = NewBlockSorter 1\<rparr>"

text \<open>The two connections of \<open>SyncSocial\<close>: that of \<open>ReceiveBlocks\<close> and that of the listener of new blocks.\<close>

definition sync_connections :: "'b sync_social_config \<Rightarrow> (string \<times> token \<times> privkey) list" where
  "sync_connections config =
     [(ProviderAddress config, ProviderToken config, SyncCredentials config),
      (ProviderAddress config, ProviderToken config, SyncCredentials config)]"

text \<open>The node is never asked: its address and its token make no difference.\<close>

lemma sync_ignores_node: "sync_connections (config\<lparr>NodeAddress := a, NodeToken := t\<rparr>) = sync_connections config"
  by (simp add: sync_connections_def)

text \<open>What the goroutine prints for a receive of the sorter's channel.\<close>

datatype printed = PrintedBlock u64 nat | PrintedNil

definition print_block :: "protocol_block option \<Rightarrow> printed" where
  "print_block b = (case b of None \<Rightarrow> PrintedNil | Some block \<Rightarrow> PrintedBlock (pb_Epoch block) (length (pb_Actions block)))"

text \<open>
  The store of \<open>SyncSocial\<close> is a sorter that starts at epoch 1; the goroutine receives whatever the
  sorter sends, so no send blocks. \<open>reads\<close> are the reads of \<open>ReceiveBlocks\<close>, \<open>events\<close> the receives of the loop.
\<close>

definition testListener :: "token \<Rightarrow> token \<Rightarrow> privkey \<Rightarrow> wire \<Rightarrow> bool \<Rightarrow> read_event list \<Rightarrow> sync_in list \<Rightarrow> printed list" where
  "testListener provider node listener w dialed reads events =
     (let buffer = SyncBlockStore (testListener_config provider node listener)
      in case SyncSocial w dialed (so_Epoch buffer) reads events of
           SyncFailed \<Rightarrow> []
         | SyncWaiting \<Rightarrow> []
         | Syncing lastEpoch outs r \<Rightarrow> map print_block (fst (so_run (added outs) buffer)))"

section \<open>The explorer\<close>

text \<open>\<open>store\<close> is a pointer.\<close>

definition HandleCount :: "('st, 'a) chain_store option \<Rightarrow> string go" where
  "HandleCount store =
     (case store of None \<Rightarrow> Inl NilPanic | Some s \<Rightarrow> Inr (''blokc count: '' @ decimal (length (cs_Blocks s))))"

section \<open>Lemmas\<close>

lemma submit_all_prefix:
  "fst (submit_all sends_ok n ms) = take (length (takeWhile sends_ok [n..<n + length ms])) ms"
proof (induction ms arbitrary: n)
  case (Cons m ms)
  have "[n..<n + length (m # ms)] = n # [Suc n..<Suc n + length ms]"
    using upt_conv_Cons [of n "n + length (m # ms)"] by (simp del: upt_Suc)
  then show ?case by (simp add: Cons.IH case_prod_unfold del: upt_Suc)
qed simp

lemma submit_all_done: "snd (submit_all sends_ok n ms) = LoadDone \<longleftrightarrow> (\<forall>k < length ms. sends_ok (n + k))"
  by (induction ms arbitrary: n) (auto simp: case_prod_unfold All_less_Suc2)

lemma wait_submissions:
  assumes "[] \<notin> set actions"
  shows "fst (WaitForActions M t (map (\<lambda>data. Read (MsgActionSubmit M # data)) actions)) = map (ToGateway \<circ> ActionIn) actions"
  using assms by (induction actions) (auto simp: WaitForActions_def wait_step_def case_prod_unfold Suc_le_eq)

lemma to_gateway_actions [simp]: "to_gateway (map (ToGateway \<circ> ActionIn) actions) = map ActionIn actions"
  by (induction actions) simp_all

lemma map_concat_actions:
  "concat (map (\<lambda>e. case e of ActionIn data \<Rightarrow> [ToNode (f data)] | _ \<Rightarrow> []) (map ActionIn actions)) = map (ToNode \<circ> f) actions"
  by (induction actions) simp_all

lemma length_axe_actions: "length (axe_actions X pub authors) = 39700"
  unfolding axe_actions_def by (simp only: length_append length_map length_upt)

lemma axetest_ends: "snd (axetest X M pub authors True sends_ok) = LoadDone \<longleftrightarrow> (\<forall>k < 39700. sends_ok k)"
  by (simp add: axetest_def submit_all_done length_axe_actions)

lemma axe_actions_dressed:
  assumes "\<And>d k f. Dress X d k f \<noteq> []"
  shows "[] \<notin> set (axe_actions X pub authors)"
proof -
  have ne: "[] \<notin> set (map f ns)" if "\<And>n. f n \<noteq> []" for f :: "nat \<Rightarrow> bytes" and ns
    unfolding set_map using that by (metis imageE)
  have "axe_join X pub authors n \<noteq> []" "axe_grant X pub authors n \<noteq> []" "axe_void X pub authors n \<noteq> []"
    "axe_revoke X pub authors n \<noteq> []" for n
    by (simp_all add: axe_join_def axe_grant_def axe_void_def axe_revoke_def assms)
  then show ?thesis unfolding axe_actions_def set_append Un_iff by (meson ne)
qed

text \<open>Blocks past the next epoch are kept by the sorter, so of a sequence of epochs it lets one block pass.\<close>

lemma in_sequence_once:
  assumes "in_sequence l e bs" and "e < l"
  shows "length (filter (\<lambda>b. pb_Epoch b = e) bs) \<le> 1"
proof (cases bs)
  case (Cons b rest)
  have "pb_Epoch c \<noteq> e" if "c \<in> set rest" for c
  proof -
    have "\<exists>k < length rest. c = rest ! k" using that by (metis in_set_conv_nth)
    then obtain k where k: "k < length rest" "c = rest ! k" by blast
    have "unat (pb_Epoch (bs ! Suc k)) = min (unat e + Suc k) (unat l)"
      using in_sequence_nth [OF assms(1) less_imp_le [OF assms(2)], of "Suc k"] k(1) by (simp add: Cons)
    then have "unat (pb_Epoch c) \<noteq> unat e" using k(2) assms(2) [unfolded word_less_nat_alt] by (simp add: Cons)
    then show ?thesis by auto
  qed
  then have "filter (\<lambda>b. pb_Epoch b = e) rest = []" by (simp add: filter_empty_conv)
  then show ?thesis by (simp add: Cons)
qed simp

lemma received_sequence:
  "ReceiveBlocks w dialed epoch reads = Received lastEpoch os r \<Longrightarrow> in_sequence lastEpoch epoch (put_out os)"
  using receive_sequence [of lastEpoch epoch w]
  by (auto simp: ReceiveBlocks_def Let_def case_prod_unfold split: if_splits list.splits read_event.splits)

lemma printed_passes:
  assumes "l < l + 1"
  shows "filter (\<lambda>p. p \<noteq> PrintedNil) (map print_block (filter (passes l) xs)) =
    map (\<lambda>b. PrintedBlock (l + 1) (length (pb_Actions b)))
      (filter (\<lambda>b. pb_Epoch b = l + 1) (concat (map (\<lambda>x. case x of None \<Rightarrow> [] | Some b \<Rightarrow> [b]) xs)))"
  using assms by (induction xs) (auto simp: print_block_def passes_def split: option.splits)

section \<open>Properties\<close>

text \<open>What \<open>axetest\<close> sends to the gateway reaches the node: the gateway submits, dressed and in the order
  sent, the 39700 actions up to the first send that fails, and runs on.\<close>

lemma axetest_submitted:
  assumes "\<And>d k f. Dress X d k f \<noteq> []"
  shows "NewGateway G True True
      (to_gateway (fst (WaitForActions (ge_msg G) t (map Read (fst (axetest X (ge_msg G) pub authors True sends_ok)))))) =
    (map (ToNode \<circ> submitted G) (take (length (takeWhile sends_ok [0..<39700])) (axe_actions X pub authors)),
     Running \<lparr>g_live = [], g_shutdown = False\<rparr>)"
proof -
  let ?n = "length (takeWhile sends_ok [0..<39700])"
  let ?acts = "take ?n (axe_actions X pub authors)"
  have "map Read (fst (axetest X (ge_msg G) pub authors True sends_ok)) = map (\<lambda>data. Read (MsgActionSubmit (ge_msg G) # data)) ?acts"
    by (simp add: axetest_def submit_all_prefix length_axe_actions take_map)
  moreover have "[] \<notin> set ?acts" using axe_actions_dressed [OF assms] in_set_takeD by metis
  ultimately have "to_gateway (fst (WaitForActions (ge_msg G) t (map Read (fst (axetest X (ge_msg G) pub authors True sends_ok))))) =
    map ActionIn ?acts" and acts: "list_all from_connection (map ActionIn ?acts)"
    by (simp_all add: wait_submissions list_all_iff) metis
  with gateway_forwards_all [OF _ acts, of "\<lparr>g_live = [], g_shutdown = False\<rparr>" G] show ?thesis
    by (simp add: NewGateway_def gateway_idle_def map_concat_actions del: map_map)
qed

definition demo_actions_ext :: action_ext where
  "demo_actions_ext = \<lparr>
     JoinNetwork = (\<lambda>epoch author h k. author @ [of_nat (length h)]),
     GrantPowerOfAttorney = (\<lambda>epoch author attorney fingerprint k. author @ attorney),
     VoidAction = (\<lambda>epoch author data signer k. author @ data),
     RevokePowerOfAttorney = (\<lambda>epoch author attorney k. author @ attorney),
     Transfer = (\<lambda>epoch from to reason fee k. from),
     Dress = (\<lambda>data k fee. 0 # data)\<rparr>"

lemma axetest_submitted_example:
  "NewGateway \<lparr>ge_msg = demo_msg, ge_dresser = None\<rparr> True True
      (to_gateway (fst (WaitForActions demo_msg [1]
        (map Read (fst (axetest demo_actions_ext demo_msg (\<lambda>k. k) (\<lambda>n. [of_nat n]) True (\<lambda>n. n < 2))))))) =
    ([ToNode [3, 0, 0, 6], ToNode [3, 0, 1, 6]], Running \<lparr>g_live = [], g_shutdown = False\<rparr>)"
proof -
  let ?G = "\<lparr>ge_msg = demo_msg, ge_dresser = None\<rparr>"
  have upt3: "2 < m \<Longrightarrow> \<exists>r. [0..<m] = 0 # 1 # 2 # r" for m :: nat
    by (simp add: upt_conv_Cons numeral_eq_Suc)
  obtain r1 where r1: "[0..<39700::nat] = 0 # 1 # 2 # r1" using upt3 [of 39700] by (auto simp del: upt_rec_numeral)
  obtain r2 where r2: "[0..<10000::nat] = 0 # 1 # 2 # r2" using upt3 [of 10000] by (auto simp del: upt_rec_numeral)
  have t: "length (takeWhile (\<lambda>n. n < 2) [0..<39700::nat]) = 2" unfolding r1 by simp
  have u: "take 2 (axe_actions X pub authors) = [axe_join X pub authors 0, axe_join X pub authors 1]" for X pub authors
    unfolding axe_actions_def r2 list.map append_Cons by (simp only: take_Suc_Cons numeral_2_eq_2 take_0 One_nat_def)
  have "Dress demo_actions_ext d k f \<noteq> []" for d k f by (simp add: demo_actions_ext_def)
  from axetest_submitted [OF this, of ?G "[1]" "\<lambda>k. k" "\<lambda>n. [of_nat n]" "\<lambda>n. n < 2"]
  show ?thesis
    unfolding t u by (simp add: axe_join_def demo_actions_ext_def submitted_def demo_msg_def decimal.simps)
qed

text \<open>C27: Of a provider that is past epoch 2, \<open>testListener\<close> prints at most one block, the one of epoch 2,
  whatever the provider sends and the node announces: the sorter that it feeds never gets further.\<close>

theorem testListener_prints_one:
  assumes "ReceiveBlocks w dialed 2 reads = Received lastEpoch os r" and "2 < lastEpoch"
    and "prefix (old_blocks events) (put_out os)"
  shows "\<exists>ks. length ks \<le> 1 \<and>
    filter (\<lambda>p. p \<noteq> PrintedNil) (testListener provider node listener w dialed reads events) = map (PrintedBlock 2) ks"
proof -
  define outs where "outs = fst (react sync_step \<lparr>sy_live = True, sy_finishedOld = False\<rparr> events)"
  have t: "testListener provider node listener w dialed reads events = map print_block (filter (passes 1) (added outs))"
    using so_run_inv [of 1 "NewBlockSorter 1"] assms(1)
    by (simp add: testListener_def testListener_config_def SyncSocial_def so_Epoch_def NewBlockSorter_def sorter_inv_def outs_def case_prod_unfold)
  obtain n where "stored_blocks outs = take n (old_blocks events)" using sync_prefix unfolding outs_def by blast
  then have "prefix (stored_blocks outs) (put_out os)" using assms(3) using take_is_prefix prefix_order.order_trans by metis
  moreover have "in_sequence lastEpoch 2 (put_out os)" using received_sequence [OF assms(1)] .
  ultimately have "in_sequence lastEpoch 2 (stored_blocks outs)" by (auto simp: prefix_def in_sequence_append)
  from in_sequence_once [OF this assms(2)] show ?thesis
    by (intro exI [where x = "map (\<lambda>b. length (pb_Actions b)) (filter (\<lambda>b. pb_Epoch b = 2) (stored_blocks outs))"] conjI)
      (simp_all add: t printed_passes stored_blocks_def)
qed

theorem testListener_prints_one_witness:
  "\<exists>b ks. pb_Epoch b = 2 \<and> length ks \<le> 1 \<and>
    filter (\<lambda>p. p \<noteq> PrintedNil)
      (testListener [1, 1] [2, 2] [3] null_wire True [Read (PutUint64 demo_util 5 []), Read (null_data 2)] [OldBlock (Some b), NewBlock (Some b), NewBlock None]) =
    map (PrintedBlock 2) ks"
proof -
  obtain b where b: "byteArrayToBlockArray (w_util null_wire) null_crypto (null_data 2) = Some (Inr (Some [b]))" and e: "pb_Epoch b = 2"
    using null_array [of 2] by auto
  have "fst (ParseUint64 (w_util null_wire) (PutUint64 demo_util 5 []) 0) = 5"
    using parse_put_u64 [OF demo_u64_codec, of 5] by (simp add: null_wire_def demo_util_def)
  moreover have "w_crypto null_wire = null_crypto" by (simp add: null_wire_def)
  ultimately have "ReceiveBlocks null_wire True 2 [Read (PutUint64 demo_util 5 []), Read (null_data 2)] = Received 5 [Output (Some b)] (Running 3)"
    using b by (simp add: ReceiveBlocks_def receive_step_def e Let_def)
  then have "\<exists>ks. length ks \<le> 1 \<and>
    filter (\<lambda>p. p \<noteq> PrintedNil)
      (testListener [1, 1] [2, 2] [3] null_wire True [Read (PutUint64 demo_util 5 []), Read (null_data 2)] [OldBlock (Some b), NewBlock (Some b), NewBlock None]) =
    map (PrintedBlock 2) ks"
    by (rule testListener_prints_one) simp_all
  with e show ?thesis by blast
qed

end
