(* ===== verification/Blow.thy ===== *)
theory Blow
  imports Social_Chain Gateway Vault Commands Provider Examples
begin

text \<open>
  The start of \<open>cmd/blow\<close> and of \<open>cmd/axenode\<close>: the configuration of every service, the order in which
  \<open>main\<close> starts them and what it waits for. The services of this repository are modelled in the theories
  of their packages; \<open>poa.Genesis\<close> of breeze, the server and the proxy of synergy and the one of safe are
  not in it: they appear with the configuration they are given.

  \<open>'v\<close> is the type of \<open>socket.ValidateConnection\<close>, \<open>'o\<close> the one of the objects of synergy.
\<close>

section \<open>The built-in keys\<close>

definition breezeNodePk :: privkey where
  "breezeNodePk = [73, 113, 70, 160, 238, 25, 81, 104, 95, 227, 91, 202, 115, 216, 77, 64, 2, 2, 210, 234, 54, 149,
     55, 113, 21, 185, 9, 250, 60, 222, 227, 127, 193, 104, 8, 201, 87, 72, 130, 170, 105, 81, 224, 143,
     117, 80, 244, 201, 207, 2, 77, 224, 239, 35, 115, 238, 162, 238, 216, 82, 102, 107, 173, 70]"

definition breezeBlocksPk :: privkey where
  "breezeBlocksPk = [95, 201, 179, 125, 151, 57, 109, 17, 236, 95, 163, 49, 50, 135, 133, 148, 146, 80, 203, 226, 218, 188,
     23, 98, 87, 191, 66, 85, 222, 25, 248, 96, 190, 9, 14, 238, 91, 170, 194, 29, 58, 89, 27, 217,
     106, 127, 138, 28, 32, 249, 58, 107, 54, 252, 84, 168, 222, 131, 186, 2, 148, 68, 211, 46]"

definition breezeGatewayPk :: privkey where
  "breezeGatewayPk = [221, 47, 73, 199, 90, 253, 206, 195, 171, 154, 235, 29, 214, 249, 156, 224, 87, 236, 90, 117, 130, 21,
     21, 206, 187, 77, 99, 46, 236, 21, 81, 95, 1, 144, 213, 177, 38, 4, 87, 55, 161, 48, 94, 100,
     196, 203, 252, 140, 138, 17, 196, 74, 38, 217, 88, 91, 171, 127, 58, 185, 83, 109, 143, 34]"

definition axeNodePk :: privkey where
  "axeNodePk = [38, 248, 137, 48, 18, 85, 115, 90, 73, 138, 224, 174, 57, 61, 206, 69, 93, 178, 94, 170, 225, 65,
     53, 175, 222, 102, 49, 29, 110, 86, 161, 133, 66, 123, 91, 127, 93, 67, 96, 78, 137, 65, 106, 202,
     187, 231, 186, 248, 216, 177, 30, 150, 115, 34, 248, 23, 75, 45, 206, 91, 234, 86, 135, 28]"

definition axeBlocksPk :: privkey where
  "axeBlocksPk = [176, 112, 206, 90, 49, 26, 52, 105, 181, 200, 225, 81, 236, 202, 89, 56, 126, 234, 202, 119, 237, 204,
     8, 244, 241, 23, 3, 182, 160, 102, 184, 142, 10, 65, 26, 251, 129, 127, 41, 27, 196, 70, 74, 148,
     218, 217, 201, 137, 254, 222, 16, 56, 12, 29, 61, 163, 214, 146, 249, 90, 111, 119, 2, 176]"

definition safeAppPk :: privkey where
  "safeAppPk = [135, 150, 6, 169, 203, 57, 36, 237, 192, 225, 49, 255, 140, 190, 127, 125, 112, 178, 162, 16, 235, 177,
     65, 91, 4, 67, 40, 207, 49, 129, 24, 177, 150, 230, 158, 108, 160, 205, 213, 68, 139, 245, 114, 198,
     224, 81, 144, 110, 237, 49, 252, 19, 15, 106, 172, 44, 212, 15, 75, 62, 25, 68, 13, 197]"

definition synergyAppPk :: privkey where
  "synergyAppPk = [26, 212, 115, 82, 27, 241, 131, 107, 212, 112, 6, 166, 16, 97, 235, 154, 13, 130, 201, 222, 8, 122,
     182, 234, 33, 90, 255, 23, 187, 153, 27, 227, 51, 160, 12, 182, 21, 115, 75, 88, 219, 168, 105, 48,
     79, 23, 230, 195, 197, 109, 64, 197, 113, 39, 235, 162, 248, 139, 239, 89, 239, 221, 27, 235]"

definition synergyEphemeral :: privkey where
  "synergyEphemeral = [102, 184, 129, 168, 166, 43, 141, 143, 18, 165, 30, 233, 178, 249, 134, 172, 245, 184, 128, 74, 96, 166,
     187, 148, 102, 68, 188, 107, 18, 223, 6, 251, 119, 243, 220, 196, 164, 253, 153, 227, 122, 244, 65, 0,
     93, 231, 122, 174, 126, 29, 102, 238, 120, 250, 148, 220, 221, 157, 22, 88, 237, 160, 161, 123]"

section \<open>Configurations\<close>

record 'v gateway_config =
  gc_NodeAddress :: string
  gc_NodeToken :: token
  gc_Credentials :: privkey
  gc_ListenPort :: int
  gc_Validate :: 'v
  gc_Dresser :: "(bytes \<Rightarrow> bytes) option"

record 'v validator_config =
  vc_BlockProviderAddr :: string
  vc_BlockProviderToken :: token
  vc_Port :: int
  vc_NodeCredentials :: privkey
  vc_ValidateOutgoing :: 'v
  vc_KeepNBlocks :: int

record ('v, 'st) block_provider_config =
  pc_NodeAddress :: string
  pc_NodeToken :: token
  pc_Credentials :: privkey
  pc_ListenPort :: int
  pc_Validate :: 'v
  pc_Store :: "'st block_store"

text \<open>Of breeze, safe and synergy: the fields that are set here. A duration is in milliseconds.\<close>

record 'v authority_config =
  IncomingPort :: int
  OutgoingPort :: int
  BlockInterval :: int
  ValidateIncoming :: 'v
  ValidateOutgoing :: 'v
  WalletFilePath :: string
  KeepBlocks :: int
  AuthorityCredentials :: privkey

record safe_config =
  GatewayAddress :: string
  GatewayToken :: token
  AxeAddress :: string
  AxeToken :: token
  SafeCredentials :: privkey
  SafePort :: int

record ('c, 'o) synergy_config =
  sg_Vault :: "'c secure_vault"
  sg_Attorney :: token
  sg_Ephemeral :: token
  sg_Passwords :: 'o
  sg_CookieStore :: 'o
  sg_Indexer :: 'o
  sg_State :: 'o
  sg_GenesisTime :: 'o
  sg_EmailPassword :: string
  sg_Port :: int
  sg_Path :: string

record ('c, 'o) synergy_ext =
  NewIndex :: 'o
  GenesisState :: "'o \<Rightarrow> 'o"
  SetState :: "'o \<Rightarrow> 'o \<Rightarrow> 'o"
  GenesisTime :: "'o \<Rightarrow> 'o"
  OpenCokieStore :: "string \<Rightarrow> 'o \<Rightarrow> 'o"
  NewFilePasswordManager :: "string \<Rightarrow> 'o"
  AttorneyCreated :: "('c, 'o) synergy_config \<Rightarrow> bool"  \<comment> \<open>whether the attorney of \<open>NewGeneralAttorneyServer\<close> is not nil\<close>

section \<open>The services\<close>

text \<open>What is started, in order. The proxy has the addresses of the axe node and of the gateway, and their tokens.\<close>

datatype ('v, 'c, 'o) launch =
    StartBreeze "'v authority_config"
  | StartGateway "'v gateway_config"
  | StartNode "'v validator_config"
  | StartSynergy "('c, 'o) synergy_config"
  | StartProxy string string token token privkey
  | StartSafe safe_config string
  | Sleep int

definition breeze :: "'v \<Rightarrow> privkey \<Rightarrow> 'v authority_config" where
  "breeze acceptAll pk = \<lparr>IncomingPort = 5005, OutgoingPort = 5006, BlockInterval = 1000, ValidateIncoming = acceptAll,
     ValidateOutgoing = acceptAll, WalletFilePath = '''', KeepBlocks = 50, AuthorityCredentials = pk\<rparr>"

definition Gateway_config :: "'x void_ext \<Rightarrow> crypto \<Rightarrow> 'v \<Rightarrow> privkey \<Rightarrow> token \<Rightarrow> 'v gateway_config" where
  "Gateway_config X C acceptAll credentials node =
     \<lparr>gc_NodeAddress = ''localhost:5005'', gc_NodeToken = node, gc_Credentials = credentials, gc_ListenPort = 5100,
      gc_Validate = acceptAll, gc_Dresser = Some (vd_Dress X (NewBreezeVoidDresser C credentials 0))\<rparr>"

definition axe_config :: "'v \<Rightarrow> privkey \<Rightarrow> token \<Rightarrow> 'v validator_config" where
  "axe_config acceptAll validator source =
     \<lparr>vc_BlockProviderAddr = ''localhost:5006'', vc_BlockProviderToken = source, vc_Port = 6000,
      vc_NodeCredentials = validator, vc_ValidateOutgoing = acceptAll, vc_KeepNBlocks = 100000\<rparr>"

text \<open>\<open>genesis\<close> is \<open>attorney.NewGenesisState("")\<close>; the chain is never nil.\<close>

definition AxeValidator ::
  "('s, 'b, 'm, 'a) social_env \<Rightarrow> 's \<Rightarrow> 'v \<Rightarrow> privkey \<Rightarrow> token \<Rightarrow> 'v validator_config \<times> ('s, 'b, 'm, 'a) social_chain" where
  "AxeValidator E genesis acceptAll validator source =
     (axe_config acceptAll validator source, NewSocialBlockChain E genesis 0)"

text \<open>\<open>storage\<close> is what \<open>papirus.NewFileStore\<close> gives; the error is reported where it is nil.\<close>

definition AxeBlockProvider ::
  "'st bytestore \<Rightarrow> 'st option \<Rightarrow> 'v \<Rightarrow> privkey \<Rightarrow> token \<Rightarrow> string + ('v, 'st) block_provider_config" where
  "AxeBlockProvider P storage acceptAll provider source =
     (case storage of
        None \<Rightarrow> Inl ''could not open block store''
      | Some st \<Rightarrow> Inr \<lparr>pc_NodeAddress = ''localhost:6000'', pc_NodeToken = source, pc_Credentials = provider,
          pc_ListenPort = 6001, pc_Validate = acceptAll, pc_Store = NewBlockStore P st\<rparr>)"

definition safeServer :: "token \<Rightarrow> token \<Rightarrow> privkey \<Rightarrow> safe_config" where
  "safeServer gateway axe safePK = \<lparr>GatewayAddress = ''localhost:5100'', GatewayToken = gateway,
     AxeAddress = ''localhost:6000'', AxeToken = axe, SafeCredentials = safePK, SafePort = 7100\<rparr>"

text \<open>
  \<open>zero\<close> is the zero value of a vault, with a nil file and no cipher. The second component is the
  error that is put on the channel.
\<close>

definition synergyApp ::
  "('c, 'o) synergy_ext \<Rightarrow> 'c secure_vault \<Rightarrow> crypto \<Rightarrow> token \<Rightarrow> token \<Rightarrow> privkey \<Rightarrow> privkey \<Rightarrow> string \<Rightarrow> string \<Rightarrow>
     ('v, 'c, 'o) launch list \<times> string option" where
  "synergyApp X zero C gatewayToken axeNodeToken credentials ephemeral emailpassword path =
     (let indexer = NewIndex X;
          genesis = GenesisState X indexer;
          config = \<lparr>sg_Vault = zero\<lparr>sv_Secrets := Map.empty(PublicKey C credentials \<mapsto> credentials, PublicKey C ephemeral \<mapsto> ephemeral)\<rparr>,
            sg_Attorney = PublicKey C credentials, sg_Ephemeral = PublicKey C ephemeral,
            sg_Passwords = NewFilePasswordManager X ''synergypasswords.dat'',
            sg_CookieStore = OpenCokieStore X ''synergycookies.dat'' genesis,
            sg_Indexer = SetState X genesis indexer, sg_State = genesis, sg_GenesisTime = GenesisTime X genesis,
            sg_EmailPassword = emailpassword, sg_Port = 3000, sg_Path = path\<rparr>
      in if \<not> AttorneyCreated X config then ([StartSynergy config], Some ''could not create attorney server'')
         else ([StartSynergy config, StartProxy ''localhost:6000'' ''localhost:5100'' axeNodeToken gatewayToken credentials], None))"

section \<open>main\<close>

datatype blow_wait = SynergyOnly | AllServices

definition blow_main ::
  "'x void_ext \<Rightarrow> ('c, 'o) synergy_ext \<Rightarrow> 'c secure_vault \<Rightarrow> crypto \<Rightarrow> 'v \<Rightarrow> string list \<Rightarrow> environment \<Rightarrow>
     ('v, 'c, 'o) launch list \<times> blow_wait" where
  "blow_main V X zero C acceptAll args environment =
     (let synergy = fst (synergyApp X zero C (PublicKey C breezeGatewayPk) (PublicKey C axeNodePk) synergyAppPk
            synergyEphemeral (EmailPassword environment) (SynergyPath environment))
      in if length args > 1 \<and> args ! 1 = ''synergy'' then (synergy, SynergyOnly)
         else ([StartBreeze (breeze acceptAll breezeNodePk), Sleep 200,
                StartGateway (Gateway_config V C acceptAll breezeGatewayPk (PublicKey C breezeNodePk)), Sleep 200,
                StartNode (axe_config acceptAll axeNodePk (PublicKey C breezeNodePk)), Sleep 200] @
               synergy @
               [Sleep 200, StartSafe (safeServer (PublicKey C breezeGatewayPk) (PublicKey C axeNodePk) safeAppPk) (SafePath environment)],
               AllServices))"

text \<open>The error that \<open>main\<close> ends with: of the channels it waits for, the first one to have any.\<close>

datatype service = GatewayService | AxeService | BreezeService | SafeService | SynergyService

datatype blow_end = PrintedError string | FatalError string

definition fatal_text :: "service \<Rightarrow> string \<Rightarrow> string" where
  "fatal_text s err =
     (case s of
        GatewayService \<Rightarrow> ''gateway''
      | AxeService \<Rightarrow> ''axe node''
      | BreezeService \<Rightarrow> ''breeze''
      | SafeService \<Rightarrow> ''safe server''
      | SynergyService \<Rightarrow> ''synergy server'') @ '' unrecovarable error: '' @ err"

fun blow_select :: "blow_wait \<Rightarrow> (service \<times> string) list \<Rightarrow> blow_end option" where
  "blow_select w [] = None"
| "blow_select AllServices ((s, err) # errs) = Some (FatalError (fatal_text s err))"
| "blow_select SynergyOnly ((s, err) # errs) =
     (if s = SynergyService then Some (PrintedError err) else blow_select SynergyOnly errs)"

section \<open>\<open>cmd/axenode\<close>\<close>

definition hex_digit :: "char \<Rightarrow> byte option" where
  "hex_digit c =
     (let n = of_char c :: nat
      in if 48 \<le> n \<and> n \<le> 57 then Some (word_of_nat (n - 48))
         else if 97 \<le> n \<and> n \<le> 102 then Some (word_of_nat (n - 87))
         else if 65 \<le> n \<and> n \<le> 70 then Some (word_of_nat (n - 55))
         else None)"

text \<open>\<open>hex.DecodeString\<close> gives what it has decoded up to an error, which is ignored here.\<close>

fun hex_decode :: "string \<Rightarrow> bytes" where
  "hex_decode (a # b # rest) =
     (case (hex_digit a, hex_digit b) of (Some x, Some y) \<Rightarrow> (16 * x + y) # hex_decode rest | _ \<Rightarrow> [])"
| "hex_decode _ = []"

definition pkHex :: string where
  "pkHex = ''f622f274b13993e3f1824a30ef0f7e57f0c35a4fbdc38e54e37916ef06a64a797eb7aa3582b216bba42d45e91e0a560508478f5b55228439b42733945fd5c2f5''"

definition axenode_pk :: privkey where
  "axenode_pk = (let bytesPk = hex_decode pkHex in take 64 bytesPk @ replicate (64 - length bytesPk) 0)"

definition axenode_config :: "crypto \<Rightarrow> 'v \<Rightarrow> 'v validator_config" where
  "axenode_config C acceptAll =
     \<lparr>vc_BlockProviderAddr = ''localhost:5005'', vc_BlockProviderToken = PublicKey C axenode_pk, vc_Port = 6000,
      vc_NodeCredentials = axenode_pk, vc_ValidateOutgoing = acceptAll, vc_KeepNBlocks = 1000\<rparr>"

section \<open>Who connects to whom\<close>

definition localhost :: "int \<Rightarrow> string" where
  "localhost port = ''localhost:'' @ decimal (nat port)"

fun listens :: "crypto \<Rightarrow> ('v, 'c, 'o) launch \<Rightarrow> (string \<times> token) list" where
  "listens C (StartBreeze c) =
     [(localhost (IncomingPort c), PublicKey C (AuthorityCredentials c)), (localhost (OutgoingPort c), PublicKey C (AuthorityCredentials c))]"
| "listens C (StartGateway c) = [(localhost (gc_ListenPort c), PublicKey C (gc_Credentials c))]"
| "listens C (StartNode c) = [(localhost (vc_Port c), PublicKey C (vc_NodeCredentials c))]"
| "listens C _ = []"

fun dials :: "('v, 'c, 'o) launch \<Rightarrow> (string \<times> token) list" where
  "dials (StartGateway c) = [(gc_NodeAddress c, gc_NodeToken c)]"
| "dials (StartNode c) = [(vc_BlockProviderAddr c, vc_BlockProviderToken c)]"
| "dials (StartProxy axe gateway axeToken gatewayToken pk) = [(axe, axeToken), (gateway, gatewayToken)]"
| "dials (StartSafe c path) = [(GatewayAddress c, GatewayToken c), (AxeAddress c, AxeToken c)]"
| "dials _ = []"

fun ports :: "('v, 'c, 'o) launch \<Rightarrow> int list" where
  "ports (StartBreeze c) = [IncomingPort c, OutgoingPort c]"
| "ports (StartGateway c) = [gc_ListenPort c]"
| "ports (StartNode c) = [vc_Port c]"
| "ports (StartSynergy c) = [sg_Port c]"
| "ports (StartSafe c path) = [SafePort c]"
| "ports _ = []"

text \<open>Each service dials only what one started before it listens as.\<close>

fun wired :: "crypto \<Rightarrow> (string \<times> token) list \<Rightarrow> ('v, 'c, 'o) launch list \<Rightarrow> bool" where
  "wired C known [] \<longleftrightarrow> True"
| "wired C known (l # ls) \<longleftrightarrow> set (dials l) \<subseteq> set known \<and> wired C (known @ listens C l) ls"

lemma localhost_ports:
  "localhost 5005 = ''localhost:5005''" "localhost 5006 = ''localhost:5006''"
  "localhost 5100 = ''localhost:5100''" "localhost 6000 = ''localhost:6000''"
  by (simp_all add: localhost_def decimal.simps) (code_simp+)

lemmas blow_services = breeze_def Gateway_config_def axe_config_def safeServer_def

section \<open>Properties\<close>

text \<open>The command starts its services in an order in which each address that one dials is, with the
  token it expects there, one where a service started before it listens, and no port is used twice; with
  the argument \<open>synergy\<close> it starts nothing that listens to the two addresses which synergy dials.\<close>

lemma blow_wired:
  "let ls = fst (blow_main V X zero C acceptAll args environment)
   in if length args > 1 \<and> args ! 1 = ''synergy'' then concat (map (listens C) ls) = []
      else wired C [] ls \<and> distinct (concat (map ports ls))"
  by (simp add: blow_main_def synergyApp_def Let_def blow_services localhost_ports)

text \<open>
  \<open>axenode\<close> expects its own token from the provider it dials, at breeze's incoming port: among the
  services of \<open>blow\<close> it finds one only if its built-in key has the token of breeze's.
\<close>

lemma axenode_dials:
  "set (dials (StartNode (axenode_config C acceptAll) :: ('v, 'c, 'o) launch)) \<subseteq> set (listens C (StartBreeze (breeze acceptAll breezeNodePk) :: ('v, 'c, 'o) launch))
   \<longleftrightarrow> PublicKey C axenode_pk = PublicKey C breezeNodePk"
  by (auto simp: axenode_config_def blow_services localhost_ports)

lemma axenode_key: "length axenode_pk = 64" "axenode_pk \<noteq> breezeNodePk"
  by code_simp+

end
