(* ===== verification/Spec2Isabelle.thy ===== *)
theory Spec2Isabelle
  imports Ext Machine Social_Chain Proto_Block Messages Listener Breeze Node Node_Feed Node_Sched
    Store Mem_Block Recent Blockchain Provider Sorter Gateway Poa Relay Opened_Chain Blocks
    Block_Listener Index Index_Node Index_Query Accept Disk Vault Vault_Type Config Commands Examples Blow
begin

text \<open>
  A verification library for freehandle/cb: nodes that read the blocks of the breeze network, form
  and validate blocks of protocols built on it, store, index and pass them on.

  \<^bold>\<open>The parts and how they interact.\<close> A validator node (\<open>social/node.go\<close>) listens to a provider of
  breeze blocks (\<open>social/listener.go\<close>), validates the actions on its chain of blocks
  (\<open>social/chain.go\<close>) and forwards to its own listeners messages (\<open>social/messages.go\<close>) that a
  second kind of listener assembles into protocol blocks (\<open>social/block.go\<close>). A block provider
  (\<open>topos/blockstore.go\<close>) keeps such blocks in a store (\<open>social/store.go\<close>) and transmits them; a
  client sorts them (\<open>topos/sync.go\<close>). A second family, without checkpoints, has blocks in memory
  and in a file (\<open>topos/block.go\<close>, \<open>topos/chain.go\<close>), a single authority that forms them
  (\<open>topos/poa.go\<close>), relays (\<open>topos/relay.go\<close>) and a gateway that submits actions
  (\<open>topos/gateway.go\<close>). \<open>blocks/\<close> stores committed breeze blocks and answers queries, \<open>index/\<close>
  finds the places of hashes, \<open>vault/\<close> keeps private keys, and \<open>config/\<close> and \<open>cmd/\<close> start it all.

  \<^bold>\<open>The theories.\<close>
  \<^item> \<open>Prelude\<close>: machine integers, bounds-checked slices, the ways a call can fail to return
    (\<open>halt\<close>), and the list lemmas the components share. \<open>Ext\<close>: what the code calls and the repository
    does not contain (\<open>breeze\<close>, \<open>papirus\<close>), as records of functions that the definitions take as
    arguments, the documented behaviour that lemmas name as hypotheses, and one concrete instance for
    the witnesses. \<open>Breeze_Types\<close>: the structs of breeze blocks and their parsers, likewise.
  \<^item> \<open>Machine\<close>: a goroutine that reads messages is a step function into \<open>reaction\<close>; \<open>react\<close> runs it.
    The locales \<open>message_loop\<close> and \<open>running_loop\<close> are the contracts of such loops (an invariant, what
    they send, that they never end); the loops of the listeners, the provider, the gateway, the
    authority, the relay and the index node are interpreted on them.
  \<^item> \<open>Social_Chain\<close> (\<open>social/chain.go\<close>, \<open>interface.go\<close>): every method of the chain, its invariant
    (\<open>chain_inv\<close>) and what is left of it in runs with any recoveries (\<open>chain_order\<close>), commits as the
    incorporation of a sequence of mutations, revalidation, rollback, recovery.
  \<^item> \<open>Proto_Block\<close>, \<open>Messages\<close>: the block format and its builder and parser; the messages, with round trips.
  \<^item> \<open>Listener\<close>, \<open>Breeze\<close>: the two listeners; blocks and signals that are shared by pointer are cells of
    a heap, respectively a sequence of states that the receiver may observe.
  \<^item> \<open>Node\<close>: the node composed of chain, messages and signals, its signal loop as it runs when it
    need not wait. \<open>Node_Sched\<close>: its two goroutines as a step relation on a lock and unbuffered channels,
    with the exact deadlock, and the refinement that ties every interleaving to the loop of \<open>Node\<close>.
    \<open>Node_Feed\<close>: a pipeline of blocks through the node and on to a listener, against a specification
    that knows neither the chain nor the messages.
  \<^item> \<open>Block_Log\<close>: the locale of an append-only log. \<open>Store\<close> (\<open>social/store.go\<close>) and \<open>Blocks\<close>
    (\<open>blocks/\<close>) are interpreted on it; \<open>Store\<close> also shows what reopening gives back.
  \<^item> \<open>Mem_Block\<close>, \<open>Recent\<close>, \<open>Blockchain\<close>: the blocks of \<open>topos\<close> in memory, the bounded list of recent ones,
    and the chain in a file, what opening a file finds and what the chain returned is good for.
  \<^item> \<open>Provider\<close>, \<open>Sorter\<close>, \<open>Gateway\<close>, \<open>Poa\<close>, \<open>Relay\<close>: the nodes of \<open>topos\<close>, one theory each.
    \<open>Opened_Chain\<close>: the relay and the index node on the chains a program can have.
  \<^item> \<open>Block_Listener\<close>: the listener of \<open>blocks/\<close> over arbitrary messages, and what it keeps of the log.
  \<^item> \<open>Index\<close>, \<open>Index_Node\<close>: the hash index and its refinement of a list of entries; the node that keeps it.
    \<open>Index_Query\<close>: the answers of the index as queries of \<open>blocks/\<close>.
  \<^item> \<open>Accept\<close>: the loops of all these nodes that accept connections.
  \<^item> \<open>Disk\<close>, \<open>Vault\<close>, \<open>Config\<close>, \<open>Commands\<close>: files and paths; the vault and its file; what programs do on
    start; the \<open>safe\<close> command and the environment of \<open>blow\<close>. \<open>Vault_Type\<close>: the type of every vault.
  \<^item> \<open>Examples\<close>: the load generators, the listener and the explorer of \<open>cmd/blow\<close>, on the gateway, on
    \<open>SyncSocial\<close> with its sorter, and on the block store. \<open>Blow\<close>: the configurations of \<open>cmd/blow\<close> and
    \<open>cmd/axenode\<close>, the order in which services start, who dials whom, and how \<open>main\<close> ends.

  \<^bold>\<open>How state and operations correspond.\<close> A struct is a record with the fields of the source; a
  method takes the records it may read and returns those it changes, under its name in the
  source, with a prefix where two types share it (\<open>sc_\<close> for \<open>SocialBlockChain\<close>, \<open>bd_\<close> and \<open>pb_\<close> for the
  protocol builder and block, \<open>st_\<close> and \<open>cs_\<close> for the two block stores, \<open>mb_\<close>, \<open>rb_\<close> and \<open>bc_\<close> for
  the memory block, recent blocks and blockchain, \<open>so_\<close> for the sorter, \<open>ix_\<close> for the index, \<open>sv_\<close> for
  the vault). A Go error is a value; a panic, a deadlock and \<open>log.Fatal\<close> are a \<open>halt\<close>. A
  64-bit unsigned integer is a word and wraps; an \<open>int\<close> is an integer, reduced to 64 bits where its operands
  come from decoded data. A goroutine that reads shared data later than it is started takes what it
  reads, or the moment at which it runs, as an input. A loop over data read from a file may not end: it is a partial
  function into an option, where \<open>None\<close> is not returning, and no fuel is used anywhere.

  \<^bold>\<open>What the properties show.\<close> The chain keeps its invariant, as far as its recoveries allow, and commits
  in order; messages, files, stores, vaults and the index are read back as written; a store and the
  index refine their abstract lists; the blocks a node is fed in a pipeline arrive at a listener, and
  its two goroutines together do what its loop does alone, up to a deadlock; the blocks
  stored by a listener stay readable whatever it is sent, and every vault has keys of the right size. Many properties state precisely where the code
  does not do what it is meant to: the parser that accepts the blocks it should reject, the provider that
  stores nothing, the authority that broadcasts what was refused and that an early
  sync request takes down, the index whose answers crash a query, the sorter
  that lets one epoch pass, the chain that cannot be used once opened and the relay that panics on it,
  the receiver and the transmitter that wait for each other, the recovery to an epoch without a block. They are theorems about the code as it is.

  \<^bold>\<open>Assumptions.\<close> Slices are shorter than \<open>2 ^ 63\<close> and a file is written by one process. Memory suffices
  for what is allocated; a length read from a file that is negative or beyond the address space panics. A method that takes
  a mutex runs alone, except in \<open>Blockchain\<close>, where the lock is a field because the code locks it
  twice, and in \<open>Node_Sched\<close>. Connections are the sequence of what is read and the list of what is sent.

  \<^bold>\<open>Not modelled.\<close> Sockets and the handshake that promotes a connection; the printing of log messages;
  the start of the HTTP server of \<open>cmd/blow\<close>; the services of other repositories, of which only the
  configuration appears. The validation of actions, the hash function and the ciphers are parameters.
\<close>

end
